(* ===== verification/Prelude.thy ===== *)
theory Prelude
  imports Main "HOL-Library.Word" "HOL-Library.Signed_Division"
begin

text \<open>
  What every component shares: the error values of the program as one datatype with
  \<open>errors.Is\<close>, the decimal formatting behind \<open>fmt.Sprintf\<close> and \<open>strconv.FormatInt\<close> with its
  injectivity, Go's machine-integer conversions, and the generic list facts the components
  use. The collection \<open>go_simps\<close> is filled by the components with the unfoldings that execute an operation.
\<close>

named_theorems go_simps "unfoldings that execute the program's operations"

section \<open>Error values\<close>

text \<open>The status codes of gRPC (package codes), in their numeric order.\<close>

datatype grpc_code =
    CodeOK | CodeCanceled | CodeUnknown | CodeInvalidArgument | CodeDeadlineExceeded
  | CodeNotFound | CodeAlreadyExists | CodePermissionDenied | CodeResourceExhausted
  | CodeFailedPrecondition | CodeAborted | CodeOutOfRange | CodeUnimplemented
  | CodeInternal | CodeUnavailable | CodeDataLoss | CodeUnauthenticated

text \<open>
  One constructor per sentinel of the source, then the errors of the standard library and the
  drivers that the source tells apart (\<open>sql.ErrNoRows\<close>, \<open>redis.Nil\<close>, a MySQL error with its
  number, the two context errors), \<open>errors.Join\<close>, an error wrapped with \<open>%w\<close>, a gRPC status, and
  \<open>Opaque\<close> for any other error, which the source only passes on.
\<close>

datatype go_error =
    OrderInsufficientStock | OrderProductNotFound | OrderInvalidQuantity
  | CASRetriesExhausted | LockNotAcquired | LockLost
  | PortsInsufficientStock | PortsProductNotFound | PortsInvalidQuantity | PortsOrderNotFound
  | PortsCachedProductMiss | PortsReservationConflict | PortsReservationNotFound
  | CacheProductNotFound
  | SimulatedCrash
  | NoRecord
  | InvalidPercentile
  | AdmissionFull | RateLimited | BreakerOpen | ShutdownTimeout
  | SqlNoRows | MySQLError nat | RedisNil | ScriptError
  | ContextCanceled | ContextDeadlineExceeded
  | ClockBackwards int | NodeOutOfRange int | DecodeError
  | StatusError grpc_code
  | Opaque string
  | Joined "go_error list"
  | Wrapped go_error

text \<open>\<open>errors.Is\<close>: the error itself, or one it joins or wraps.\<close>

fun errors_is :: "go_error \<Rightarrow> go_error \<Rightarrow> bool" where
  "errors_is (Joined es) t \<longleftrightarrow> Joined es = t \<or> list_ex (\<lambda>e. errors_is e t) es"
| "errors_is (Wrapped e) t \<longleftrightarrow> Wrapped e = t \<or> errors_is e t"
| "errors_is e t \<longleftrightarrow> e = t"

lemma errors_is_refl [simp]: "errors_is e e"
  by (cases e) auto

text \<open>
  Failures a remote call can suffer whatever it does: the context is cancelled, its deadline
  passes, or the transport or server reports something else. None of them is a sentinel.
\<close>

datatype net_error = NetOther string | NetCanceled | NetDeadline

fun net_err :: "net_error \<Rightarrow> go_error" where
  "net_err (NetOther s) = Opaque s"
| "net_err NetCanceled = ContextCanceled"
| "net_err NetDeadline = ContextDeadlineExceeded"

lemma net_err_not_sentinel [simp]:
  "net_err e \<noteq> OrderInsufficientStock" "net_err e \<noteq> OrderProductNotFound"
  "net_err e \<noteq> OrderInvalidQuantity" "net_err e \<noteq> SqlNoRows" "net_err e \<noteq> RedisNil"
  "net_err e \<noteq> MySQLError n" "net_err e \<noteq> CASRetriesExhausted" "net_err e \<noteq> LockNotAcquired"
  "net_err e \<noteq> SimulatedCrash" "net_err e \<noteq> CacheProductNotFound" "net_err e \<noteq> ScriptError"
  "net_err e \<noteq> LockLost"
  by (cases e; simp)+

declare net_err_not_sentinel [symmetric, simp]

lemma errors_is_net [simp]: "errors_is (net_err e) t \<longleftrightarrow> net_err e = t"
  by (cases e) auto

text \<open>An outcome of code that can panic: a panic is a value, not an unspecified result.\<close>

datatype 'a go = Ret 'a | Panic

section \<open>Decimal numbers as text\<close>

fun show_nat :: "nat \<Rightarrow> string" where
  "show_nat n = (if n < 10 then [char_of (48 + n)] else show_nat (n div 10) @ [char_of (48 + n mod 10)])"

declare show_nat.simps [simp del]

definition show_int :: "int \<Rightarrow> string" where
  "show_int i = (if i < 0 then CHR ''-'' # show_nat (nat (- i)) else show_nat (nat i))"

definition is_digit :: "char \<Rightarrow> bool" where
  "is_digit c \<longleftrightarrow> 48 \<le> (of_char c :: nat) \<and> (of_char c :: nat) < 58"

lemma is_digit_char_of: "(n::nat) < 10 \<Longrightarrow> is_digit (char_of (48 + n))"
  by (simp add: is_digit_def)

lemma show_nat_digits: "c \<in> set (show_nat n) \<Longrightarrow> is_digit c"
proof (induction n rule: show_nat.induct)
  case (1 n)
  then show ?case
    by (cases "n < 10") (auto simp: show_nat.simps [of n] is_digit_char_of)
qed

lemma show_nat_nonempty [simp]: "show_nat n \<noteq> []"
  by (subst show_nat.simps) simp

text \<open>Reading the digits back is the inverse of \<open>show_nat\<close>, so formatting is injective.\<close>

definition digits_value :: "string \<Rightarrow> nat" where
  "digits_value s = foldl (\<lambda>a c. 10 * a + (of_char c - 48)) 0 s"

lemma digits_value_show_nat [simp]: "digits_value (show_nat n) = n"
proof (induction n rule: show_nat.induct)
  case (1 n)
  then show ?case
    by (cases "n < 10") (auto simp: show_nat.simps [of n] digits_value_def)
qed

lemma show_nat_inj [simp]: "show_nat m = show_nat n \<longleftrightarrow> m = n"
  by (metis digits_value_show_nat)

lemma minus_not_digit: "\<not> is_digit (CHR ''-'')"
  by (simp add: is_digit_def)

lemma show_nat_no_minus: "show_nat n \<noteq> CHR ''-'' # s"
  by (metis list.set_intros(1) minus_not_digit show_nat_digits)

lemma show_int_inj [simp]: "show_int i = show_int j \<longleftrightarrow> i = j"
proof
  assume "show_int i = show_int j"
  then show "i = j"
    by (auto simp: show_int_def show_nat_no_minus show_nat_no_minus [symmetric] split: if_splits)
qed simp

lemma colon_notin_show_int [simp]: "CHR '':'' \<notin> set (show_int i)"
proof -
  have "\<not> is_digit (CHR '':'')" by (simp add: is_digit_def)
  then show ?thesis
    using show_nat_digits by (auto simp: show_int_def)
qed

lemma show_int_colon_split:
  assumes "show_int i @ CHR '':'' # s = show_int j @ CHR '':'' # t"
  shows "i = j \<and> s = t"
proof -
  have "takeWhile (\<lambda>c. c \<noteq> CHR '':'') (show_int i @ CHR '':'' # s) = show_int i"
    "takeWhile (\<lambda>c. c \<noteq> CHR '':'') (show_int j @ CHR '':'' # t) = show_int j"
    by (subst takeWhile_append2; use colon_notin_show_int in fastforce)+
  with assms show ?thesis by simp
qed

section \<open>Machine integers\<close>

text \<open>The conversions \<open>int32(x)\<close> and \<open>int64(x)\<close> keep the low bits and read them as two's complement.\<close>

definition to_int32 :: "int \<Rightarrow> int" where
  "to_int32 x = signed_take_bit 31 x"

definition to_int64 :: "int \<Rightarrow> int" where
  "to_int64 x = signed_take_bit 63 x"

definition fits_int32 :: "int \<Rightarrow> bool" where
  "fits_int32 x \<longleftrightarrow> - (2 ^ 31) \<le> x \<and> x < 2 ^ 31"

definition fits_int64 :: "int \<Rightarrow> bool" where
  "fits_int64 x \<longleftrightarrow> - (2 ^ 63) \<le> x \<and> x < 2 ^ 63"

lemma to_int32_id: "fits_int32 x \<Longrightarrow> to_int32 x = x"
  by (simp add: to_int32_def fits_int32_def signed_take_bit_int_eq_self)

lemma to_int32_iff: "to_int32 x = x \<longleftrightarrow> fits_int32 x"
  by (auto simp: to_int32_def fits_int32_def signed_take_bit_int_eq_self_iff)

lemma to_int32_fits: "fits_int32 (to_int32 x)"
  using signed_take_bit_int_greater_eq_minus_exp [of 31 x] signed_take_bit_int_less_exp [of 31 x]
  by (simp add: to_int32_def fits_int32_def)

lemma to_int64_id: "fits_int64 x \<Longrightarrow> to_int64 x = x"
  by (simp add: to_int64_def fits_int64_def signed_take_bit_int_eq_self)

lemma to_int64_fits: "fits_int64 (to_int64 x)"
  using signed_take_bit_int_greater_eq_minus_exp [of 63 x] signed_take_bit_int_less_exp [of 63 x]
  by (simp add: to_int64_def fits_int64_def)

lemma to_int64_diff [simp]: "to_int64 (to_int64 a - b) = to_int64 (a - b)"
  using signed_take_bit_diff [of 63 a b] signed_take_bit_diff [of 63 "signed_take_bit 63 a" b]
  by (simp add: to_int64_def)

lemma to_int64_add [simp]: "to_int64 (to_int64 a + b) = to_int64 (a + b)"
  using signed_take_bit_add [of 63 a b] signed_take_bit_add [of 63 "signed_take_bit 63 a" b]
  by (simp add: to_int64_def)

section \<open>Lists\<close>

lemma sum_list_update_diff:
  fixes xs :: "int list"
  assumes "i < length xs"
  shows "sum_list (xs[i := v]) = sum_list xs - xs ! i + v"
  using assms by (induction xs arbitrary: i) (auto split: nat.splits)

lemma sum_list_nonneg_int: "(\<And>x. x \<in> set xs \<Longrightarrow> (0::int) \<le> x) \<Longrightarrow> 0 \<le> sum_list xs"
  by (induction xs) auto

end
