(* ===== verification/Store.thy ===== *)
theory Store
  imports Prelude
begin

text \<open>
  The two stores the program talks to, as explicit state. The Redis keyspace holds typed values
  with an optional expiry; the database holds the \<open>products\<close> and \<open>orders\<close> tables of
  \<open>migrations/\<close> with the keys they declare. Each command and each SQL statement that the source
  contains is one definition with the documented effect of that statement.

  A remote call can also fail. \<open>fault\<close> says how: \<open>Lost\<close> is a call that was never executed,
  \<open>Unacked\<close> one that was executed and whose reply was lost. The \<open>world\<close> carries the schedule of
  faults of its next calls; every theorem quantified over worlds holds for every schedule, and a
  statement the server refuses for a reason the model has no state for (a lock wait timeout, a
  stock out of its column's range) is a \<open>Lost\<close> call. Request ids are compared as they are; the
  default collation of their column also identifies ids that differ in case or accents only, so
  ids are taken to differ by more than that.
\<close>

section \<open>Redis\<close>

text \<open>
  A string value is the decimal text of a number, a text, or a JSON document; the number and the
  document are kept as such instead of as their characters.
\<close>

datatype json = JNull | JBool bool | JNum int | JText string | JTime int | JObj "(string \<times> json) list"

datatype payload = Num int | Text string | Doc json

datatype rvalue = RString payload | RHash "string \<rightharpoonup> payload" | RZSet "(string \<times> int) list"

record rentry =
  rval :: rvalue
  expires :: "int option"

record redis =
  rkeys :: "string \<rightharpoonup> rentry"
  rtime :: int

definition rlookup :: "redis \<Rightarrow> string \<Rightarrow> rvalue option" where
  "rlookup r k = (case rkeys r k of None \<Rightarrow> None
     | Some e \<Rightarrow> (case expires e of None \<Rightarrow> Some (rval e)
        | Some t \<Rightarrow> (if t \<le> rtime r then None else Some (rval e))))"

text \<open>\<open>SET key value\<close>, with no expiry or with \<open>PX ttl\<close>; \<open>DEL key\<close>.\<close>

definition rset :: "string \<Rightarrow> rvalue \<Rightarrow> redis \<Rightarrow> redis" where
  "rset k v r = r\<lparr>rkeys := (rkeys r)(k \<mapsto> \<lparr>rval = v, expires = None\<rparr>)\<rparr>"

definition rset_px :: "string \<Rightarrow> rvalue \<Rightarrow> int \<Rightarrow> redis \<Rightarrow> redis" where
  "rset_px k v ttl r = r\<lparr>rkeys := (rkeys r)(k \<mapsto> \<lparr>rval = v, expires = Some (rtime r + ttl)\<rparr>)\<rparr>"

definition rdel :: "string \<Rightarrow> redis \<Rightarrow> redis" where
  "rdel k r = r\<lparr>rkeys := (rkeys r)(k := None)\<rparr>"

text \<open>A write that changes the value and keeps the key's expiry (\<open>INCRBY\<close>, \<open>HSET\<close>, \<open>ZADD\<close>).\<close>

definition rmodify :: "string \<Rightarrow> rvalue \<Rightarrow> redis \<Rightarrow> redis" where
  "rmodify k v r = (case rlookup r k of
       None \<Rightarrow> rset k v r
     | Some _ \<Rightarrow> r\<lparr>rkeys := (rkeys r)(k \<mapsto> (the (rkeys r k))\<lparr>rval := v\<rparr>)\<rparr>)"

lemma rlookup_rset [simp]: "rlookup (rset k v r) k' = (if k' = k then Some v else rlookup r k')"
  by (auto simp: rlookup_def rset_def split: option.splits)

lemma rlookup_rset_px [simp]:
  "rlookup (rset_px k v ttl r) k' =
     (if k' = k then (if 0 < ttl then Some v else None) else rlookup r k')"
  by (auto simp: rlookup_def rset_px_def split: option.splits)

lemma rlookup_rdel [simp]: "rlookup (rdel k r) k' = (if k' = k then None else rlookup r k')"
  by (auto simp: rlookup_def rdel_def split: option.splits)

lemma rlookup_rmodify [simp]:
  "rlookup (rmodify k v r) k' = (if k' = k then Some v else rlookup r k')"
  by (auto simp: rmodify_def rlookup_def rset_def split: option.splits if_splits)

lemma rtime_writes [simp]:
  "rtime (rset k v r) = rtime r" "rtime (rset_px k v t r) = rtime r"
  "rtime (rdel k r) = rtime r" "rtime (rmodify k v r) = rtime r"
  by (simp_all add: rset_def rset_px_def rdel_def rmodify_def split: option.splits)

text \<open>The number a key holds, if it holds one.\<close>

definition counter :: "redis \<Rightarrow> string \<Rightarrow> int option" where
  "counter r k = (case rlookup r k of Some (RString (Num n)) \<Rightarrow> Some n | _ \<Rightarrow> None)"

lemma counter_rset [simp]:
  "counter (rset k v r) k' =
     (if k' = k then (case v of RString (Num n) \<Rightarrow> Some n | _ \<Rightarrow> None) else counter r k')"
  by (simp add: counter_def split: rvalue.splits payload.splits)

lemma counter_rmodify [simp]:
  "counter (rmodify k v r) k' =
     (if k' = k then (case v of RString (Num n) \<Rightarrow> Some n | _ \<Rightarrow> None) else counter r k')"
  by (simp add: counter_def split: rvalue.splits payload.splits)

lemma counter_rdel [simp]: "counter (rdel k r) k' = (if k' = k then None else counter r k')"
  by (simp add: counter_def)

lemma counter_Some_iff: "counter r k = Some n \<longleftrightarrow> rlookup r k = Some (RString (Num n))"
  by (auto simp: counter_def split: option.splits rvalue.splits payload.splits)

text \<open>
  \<open>INCRBY\<close>: a missing key counts as 0 and is created, a value that is no number or a result
  outside 64 bits is an error and writes nothing. \<open>DECRBY\<close> is \<open>INCRBY\<close> of the negated amount.
\<close>

definition incrby :: "string \<Rightarrow> int \<Rightarrow> redis \<Rightarrow> (go_error + int) \<times> redis" where
  "incrby k q r = (case rlookup r k of
       None \<Rightarrow> (if fits_int64 q then (Inr q, rset k (RString (Num q)) r) else (Inl ScriptError, r))
     | Some (RString (Num n)) \<Rightarrow>
         (if fits_int64 (n + q) then (Inr (n + q), rmodify k (RString (Num (n + q))) r)
          else (Inl ScriptError, r))
     | _ \<Rightarrow> (Inl ScriptError, r))"

definition decrby :: "string \<Rightarrow> int \<Rightarrow> redis \<Rightarrow> (go_error + int) \<times> redis" where
  "decrby k q r = incrby k (- q) r"

lemma incrby_counter:
  assumes "counter r k = Some n" and "fits_int64 (n + q)"
  shows "incrby k q r = (Inr (n + q), rmodify k (RString (Num (n + q))) r)"
  using assms by (simp add: incrby_def counter_Some_iff)

lemma incrby_other: "k' \<noteq> k \<Longrightarrow> rlookup (snd (incrby k q r)) k' = rlookup r k'"
  by (simp add: incrby_def split: option.splits rvalue.splits payload.splits)

lemma incrby_rtime: "rtime (snd (incrby k q r)) = rtime r"
  by (simp add: incrby_def split: option.splits rvalue.splits payload.splits)

text \<open>\<open>GET key\<close> as go-redis returns it: \<open>redis.Nil\<close> for a missing key.\<close>

definition redis_get :: "string \<Rightarrow> redis \<Rightarrow> (go_error + payload) \<times> redis" where
  "redis_get k r = (case rlookup r k of
       None \<Rightarrow> (Inl RedisNil, r)
     | Some (RString p) \<Rightarrow> (Inr p, r)
     | Some _ \<Rightarrow> (Inl ScriptError, r))"

text \<open>\<open>SET key value NX [PX ttl]\<close>: true when the key was set. go-redis sends no \<open>PX\<close> for ttl 0.\<close>

definition redis_setnx :: "string \<Rightarrow> rvalue \<Rightarrow> int \<Rightarrow> redis \<Rightarrow> (go_error + bool) \<times> redis" where
  "redis_setnx k v ttl r = (case rlookup r k of
       None \<Rightarrow> (Inr True, if ttl = 0 then rset k v r else rset_px k v ttl r)
     | Some _ \<Rightarrow> (Inr False, r))"

text \<open>\<open>SET key value [PX ttl]\<close>.\<close>

definition redis_set :: "string \<Rightarrow> rvalue \<Rightarrow> int \<Rightarrow> redis \<Rightarrow> (go_error + unit) \<times> redis" where
  "redis_set k v ttl r = (Inr (), if ttl = 0 then rset k v r else rset_px k v ttl r)"

section \<open>The database\<close>

text \<open>Table \<open>products\<close> (\<open>migrations/\<close>), by primary key.\<close>

record product_row =
  p_name :: string
  p_stock :: int
  p_version :: int

text \<open>The struct \<open>Order\<close> of \<open>internal/order/model.go\<close>, one row of table \<open>orders\<close>.\<close>

record order =
  o_id :: int
  o_product :: int
  o_user :: int
  o_request :: string
  o_quantity :: int
  o_status :: string
  o_created :: int

record database =
  products :: "int \<rightharpoonup> product_row"
  orders :: "order list"
  db_now :: int

text \<open>The keys of \<open>orders\<close>: primary key \<open>id\<close>, unique key \<open>uk_request_id\<close>.\<close>

definition orders_keyed :: "database \<Rightarrow> bool" where
  "orders_keyed d \<longleftrightarrow> distinct (map o_id (orders d)) \<and> distinct (map o_request (orders d))"

definition stock_of :: "database \<Rightarrow> int \<Rightarrow> int option" where
  "stock_of d p = map_option p_stock (products d p)"

definition select_stock :: "int \<Rightarrow> database \<Rightarrow> go_error + int" where
  "select_stock p d = (case products d p of None \<Rightarrow> Inl SqlNoRows | Some row \<Rightarrow> Inr (p_stock row))"

definition select_by_request :: "string \<Rightarrow> database \<Rightarrow> go_error + order" where
  "select_by_request rid d =
     (case find (\<lambda>o'. o_request o' = rid) (orders d) of None \<Rightarrow> Inl SqlNoRows | Some o' \<Rightarrow> Inr o')"

text \<open>
  \<open>INSERT INTO orders\<close>. The columns are checked first, as the server does in its default strict mode: \<open>id\<close>,
  \<open>product_id\<close> and \<open>user_id\<close> are \<open>BIGINT UNSIGNED\<close>, \<open>request_id\<close> is \<open>VARCHAR(64)\<close>, \<open>quantity\<close> is \<open>INT\<close> (error 1264 is out of range,
  1406 is too long). A string is its UTF-8 bytes and a \<open>VARCHAR\<close> counts characters, so the bytes that continue one are
  not counted. Then error 1062 when either key is taken; \<open>created_at\<close> is the default.
\<close>

definition utf8_length :: "string \<Rightarrow> nat" where
  "utf8_length s = length (filter (\<lambda>c. \<not> (128 \<le> (of_char c :: nat) \<and> (of_char c :: nat) < 192)) s)"

definition row_error :: "order \<Rightarrow> nat option" where
  "row_error o' =
     (if o_id o' < 0 \<or> o_product o' < 0 \<or> o_user o' < 0 then Some 1264
      else if 64 < utf8_length (o_request o') then Some 1406
      else if \<not> fits_int32 (o_quantity o') then Some 1264 else None)"

definition insert_order :: "order \<Rightarrow> database \<Rightarrow> (go_error + unit) \<times> database" where
  "insert_order o' d = (case row_error o' of
       Some n \<Rightarrow> (Inl (MySQLError n), d)
     | None \<Rightarrow>
        (if o_id o' \<in> o_id ` set (orders d) \<or> o_request o' \<in> o_request ` set (orders d)
         then (Inl (MySQLError 1062), d)
         else (Inr (), d\<lparr>orders := orders d @ [o'\<lparr>o_created := db_now d\<rparr>]\<rparr>)))"

text \<open>
  The \<open>UPDATE products\<close> statements, with the number of rows changed. MySQL counts changed rows,
  so subtracting 0 changes none.
\<close>

definition set_stock :: "int \<Rightarrow> product_row \<Rightarrow> database \<Rightarrow> database" where
  "set_stock p row d = d\<lparr>products := (products d)(p \<mapsto> row)\<rparr>"

definition update_sub :: "int \<Rightarrow> int \<Rightarrow> database \<Rightarrow> nat \<times> database" where
  "update_sub p q d = (case products d p of None \<Rightarrow> (0, d)
     | Some row \<Rightarrow> (if q = 0 then 0 else 1, set_stock p (row\<lparr>p_stock := p_stock row - q\<rparr>) d))"

definition update_sub_if_enough :: "int \<Rightarrow> int \<Rightarrow> database \<Rightarrow> nat \<times> database" where
  "update_sub_if_enough p q d = (case products d p of None \<Rightarrow> (0, d)
     | Some row \<Rightarrow> (if p_stock row < q then (0, d)
         else (if q = 0 then 0 else 1, set_stock p (row\<lparr>p_stock := p_stock row - q\<rparr>) d)))"

definition update_sub_if_version :: "int \<Rightarrow> int \<Rightarrow> int \<Rightarrow> database \<Rightarrow> nat \<times> database" where
  "update_sub_if_version p q v d = (case products d p of None \<Rightarrow> (0, d)
     | Some row \<Rightarrow> (if p_version row \<noteq> v then (0, d)
         else (1, set_stock p (row\<lparr>p_stock := p_stock row - q, p_version := p_version row + 1\<rparr>) d)))"

text \<open>\<open>SELECT COALESCE(SUM(quantity), 0) FROM orders WHERE product_id = ?\<close> and the count by request.\<close>

definition ordered_quantity :: "int \<Rightarrow> database \<Rightarrow> int" where
  "ordered_quantity p d = sum_list (map o_quantity (filter (\<lambda>o'. o_product o' = p) (orders d)))"

definition count_by_request :: "string \<Rightarrow> database \<Rightarrow> nat" where
  "count_by_request rid d = length (filter (\<lambda>o'. o_request o' = rid) (orders d))"

lemma stock_of_set_stock [simp]:
  "stock_of (set_stock p row d) p' = (if p' = p then Some (p_stock row) else stock_of d p')"
  by (simp add: stock_of_def set_stock_def)

lemma set_stock_frame [simp]:
  "orders (set_stock p row d) = orders d" "db_now (set_stock p row d) = db_now d"
  "ordered_quantity p' (set_stock p row d) = ordered_quantity p' d"
  "orders_keyed (set_stock p row d) = orders_keyed d"
  "select_by_request rid (set_stock p row d) = select_by_request rid d"
  "count_by_request rid (set_stock p row d) = count_by_request rid d"
  by (simp_all add: set_stock_def ordered_quantity_def orders_keyed_def select_by_request_def
      count_by_request_def)

lemma select_stock_Inr: "select_stock p d = Inr n \<longleftrightarrow> stock_of d p = Some n"
  by (auto simp: select_stock_def stock_of_def split: option.splits)

lemma select_stock_Inl: "select_stock p d = Inl e \<longleftrightarrow> stock_of d p = None \<and> e = SqlNoRows"
  by (auto simp: select_stock_def stock_of_def split: option.splits)

lemma select_by_request_Inr:
  "select_by_request rid d = Inr o' \<Longrightarrow> o' \<in> set (orders d) \<and> o_request o' = rid"
  by (auto simp: select_by_request_def find_Some_iff split: option.splits)

lemma select_by_request_Inl:
  "select_by_request rid d = Inl e \<longleftrightarrow> rid \<notin> o_request ` set (orders d) \<and> e = SqlNoRows"
  by (force simp: select_by_request_def find_None_iff find_Some_iff split: option.splits)

lemma count_by_request_pos: "0 < count_by_request rid d \<longleftrightarrow> rid \<in> o_request ` set (orders d)"
  by (auto simp: count_by_request_def filter_empty_conv)

text \<open>What an insert does, in the terms the components' proofs use.\<close>

lemma insert_order_Inr:
  assumes "insert_order o' d = (Inr u, d')"
  shows "orders d' = orders d @ [o'\<lparr>o_created := db_now d\<rparr>]" "products d' = products d"
    "db_now d' = db_now d"
    "o_id o' \<notin> o_id ` set (orders d)" "o_request o' \<notin> o_request ` set (orders d)" "row_error o' = None"
  using assms by (auto simp: insert_order_def split: if_splits option.splits)

lemma insert_order_Inl: "insert_order o' d = (Inl e, d') \<Longrightarrow> d' = d \<and> (\<exists>n. e = MySQLError n)"
  by (auto simp: insert_order_def split: if_splits option.splits)

lemma insert_order_ok:
  "row_error o' = None \<Longrightarrow> o_id o' \<notin> o_id ` set (orders d) \<Longrightarrow> o_request o' \<notin> o_request ` set (orders d)
   \<Longrightarrow> insert_order o' d = (Inr (), d\<lparr>orders := orders d @ [o'\<lparr>o_created := db_now d\<rparr>]\<rparr>)"
  by (simp add: insert_order_def)

lemma insert_order_keyed: "insert_order o' d = (x, d') \<Longrightarrow> orders_keyed d \<Longrightarrow> orders_keyed d'"
  by (auto simp: insert_order_def orders_keyed_def split: if_splits option.splits)

lemma insert_order_stock [simp]: "stock_of (snd (insert_order o' d)) p = stock_of d p"
  by (simp add: insert_order_def stock_of_def split: option.splits)

lemma ordered_quantity_append:
  "orders d' = orders d @ [o'] \<Longrightarrow>
   ordered_quantity p d' = ordered_quantity p d + (if o_product o' = p then o_quantity o' else 0)"
  by (simp add: ordered_quantity_def)

section \<open>The world: both stores, the topic, and the schedule of faults\<close>

datatype fault = NoFault | Lost net_error | Unacked net_error

text \<open>A Kafka record: topic, key, value and headers, as the source builds them.\<close>

record krecord =
  k_topic :: string
  k_key :: string
  k_value :: payload
  k_headers :: "(string \<times> string) list"

record world =
  wredis :: redis
  wdb :: database
  wlog :: "krecord list"
  wfaults :: "fault list"

definition next_fault :: "world \<Rightarrow> fault \<times> world" where
  "next_fault w = (case wfaults w of [] \<Rightarrow> (NoFault, w) | f # fs \<Rightarrow> (f, w\<lparr>wfaults := fs\<rparr>))"

definition on_redis :: "(redis \<Rightarrow> (go_error + 'a) \<times> redis) \<Rightarrow> world \<Rightarrow> (go_error + 'a) \<times> world" where
  "on_redis cmd w = (case next_fault w of
       (NoFault, w1) \<Rightarrow> (fst (cmd (wredis w1)), w1\<lparr>wredis := snd (cmd (wredis w1))\<rparr>)
     | (Lost e, w1) \<Rightarrow> (Inl (net_err e), w1)
     | (Unacked e, w1) \<Rightarrow> (Inl (net_err e), w1\<lparr>wredis := snd (cmd (wredis w1))\<rparr>))"

text \<open>A statement outside a transaction commits by itself.\<close>

definition on_db :: "(database \<Rightarrow> (go_error + 'a) \<times> database) \<Rightarrow> world \<Rightarrow> (go_error + 'a) \<times> world" where
  "on_db stmt w = (case next_fault w of
       (NoFault, w1) \<Rightarrow> (fst (stmt (wdb w1)), w1\<lparr>wdb := snd (stmt (wdb w1))\<rparr>)
     | (Lost e, w1) \<Rightarrow> (Inl (net_err e), w1)
     | (Unacked e, w1) \<Rightarrow> (Inl (net_err e), w1\<lparr>wdb := snd (stmt (wdb w1))\<rparr>))"

text \<open>
  A transaction works on a copy of the database, which \<open>COMMIT\<close> installs. A statement that fails
  leaves the copy as it was; rolling back drops the copy, so it needs no step of its own.
\<close>

definition begin_tx :: "world \<Rightarrow> (go_error + database) \<times> world" where
  "begin_tx w = (case next_fault w of
       (NoFault, w1) \<Rightarrow> (Inr (wdb w1), w1)
     | (Lost e, w1) \<Rightarrow> (Inl (net_err e), w1)
     | (Unacked e, w1) \<Rightarrow> (Inl (net_err e), w1))"

definition on_tx :: "(database \<Rightarrow> (go_error + 'a) \<times> database) \<Rightarrow> database \<Rightarrow> world
    \<Rightarrow> (go_error + 'a) \<times> database \<times> world" where
  "on_tx stmt t w = (case next_fault w of
       (NoFault, w1) \<Rightarrow> (fst (stmt t), snd (stmt t), w1)
     | (Lost e, w1) \<Rightarrow> (Inl (net_err e), t, w1)
     | (Unacked e, w1) \<Rightarrow> (Inl (net_err e), t, w1))"

definition commit_tx :: "database \<Rightarrow> world \<Rightarrow> (go_error + unit) \<times> world" where
  "commit_tx t w = (case next_fault w of
       (NoFault, w1) \<Rightarrow> (Inr (), w1\<lparr>wdb := t\<rparr>)
     | (Lost e, w1) \<Rightarrow> (Inl (net_err e), w1)
     | (Unacked e, w1) \<Rightarrow> (Inl (net_err e), w1\<lparr>wdb := t\<rparr>))"

text \<open>A query never writes; an \<open>UPDATE\<close> that succeeds reports its changed rows.\<close>

definition query :: "(database \<Rightarrow> go_error + 'a) \<Rightarrow> database \<Rightarrow> (go_error + 'a) \<times> database" where
  "query q d = (q d, d)"

definition exec :: "(database \<Rightarrow> nat \<times> database) \<Rightarrow> database \<Rightarrow> (go_error + nat) \<times> database" where
  "exec u d = (Inr (fst (u d)), snd (u d))"

text \<open>What each kind of call can do, whatever the schedule: the elimination facts of the library.\<close>

lemma next_fault_frame:
  "next_fault w = (f, w1) \<Longrightarrow> wredis w1 = wredis w \<and> wdb w1 = wdb w \<and> wlog w1 = wlog w"
  by (auto simp: next_fault_def split: list.splits)

lemma next_fault_Nil [simp]: "wfaults w = [] \<Longrightarrow> next_fault w = (NoFault, w)"
  by (simp add: next_fault_def)

lemma on_redis_cases:
  assumes "on_redis cmd w = (x, w')"
  shows "wdb w' = wdb w \<and> wlog w' = wlog w \<and>
    (x = fst (cmd (wredis w)) \<and> wredis w' = snd (cmd (wredis w)) \<or>
     (\<exists>e. x = Inl (net_err e)) \<and> wredis w' \<in> {wredis w, snd (cmd (wredis w))})"
  using assms by (auto simp: on_redis_def split: prod.splits fault.splits dest!: next_fault_frame)

lemma on_db_cases:
  assumes "on_db stmt w = (x, w')"
  shows "wredis w' = wredis w \<and> wlog w' = wlog w \<and>
    (x = fst (stmt (wdb w)) \<and> wdb w' = snd (stmt (wdb w)) \<or>
     (\<exists>e. x = Inl (net_err e)) \<and> wdb w' \<in> {wdb w, snd (stmt (wdb w))})"
  using assms by (auto simp: on_db_def split: prod.splits fault.splits dest!: next_fault_frame)

lemma begin_tx_cases:
  assumes "begin_tx w = (x, w')"
  shows "wredis w' = wredis w \<and> wlog w' = wlog w \<and> wdb w' = wdb w \<and>
    (x = Inr (wdb w) \<or> (\<exists>e. x = Inl (net_err e)))"
  using assms by (auto simp: begin_tx_def split: prod.splits fault.splits dest!: next_fault_frame)

lemma on_tx_cases:
  assumes "on_tx stmt t w = (x, t', w')"
  shows "wredis w' = wredis w \<and> wlog w' = wlog w \<and> wdb w' = wdb w \<and>
    (x = fst (stmt t) \<and> t' = snd (stmt t) \<or> (\<exists>e. x = Inl (net_err e)) \<and> t' = t)"
  using assms by (auto simp: on_tx_def split: prod.splits fault.splits dest!: next_fault_frame)

lemma commit_tx_cases:
  assumes "commit_tx t w = (x, w')"
  shows "wredis w' = wredis w \<and> wlog w' = wlog w \<and>
    (x = Inr () \<and> wdb w' = t \<or> (\<exists>e. x = Inl (net_err e)) \<and> wdb w' \<in> {wdb w, t})"
  using assms by (auto simp: commit_tx_def split: prod.splits fault.splits dest!: next_fault_frame)

text \<open>The same by kind of call and answer, as destruction rules: the bundle \<open>call_dests\<close>.\<close>

lemma on_redis_Inr:
  "on_redis cmd w = (Inr v, w') \<Longrightarrow> wdb w' = wdb w \<and> wlog w' = wlog w
     \<and> cmd (wredis w) = (Inr v, wredis w')"
  by (cases "cmd (wredis w)") (auto dest!: on_redis_cases)

lemma on_redis_Inl:
  "on_redis cmd w = (Inl e, w') \<Longrightarrow> wdb w' = wdb w \<and> wlog w' = wlog w
     \<and> (cmd (wredis w) = (Inl e, wredis w')
        \<or> (\<exists>n. e = net_err n) \<and> (wredis w' = wredis w \<or> wredis w' = snd (cmd (wredis w))))"
  by (cases "cmd (wredis w)") (auto dest!: on_redis_cases)

lemma on_db_query_Inr:
  "on_db (query q) w = (Inr v, w') \<Longrightarrow> wredis w' = wredis w \<and> wlog w' = wlog w
     \<and> wdb w' = wdb w \<and> q (wdb w) = Inr v"
  by (auto dest!: on_db_cases simp: query_def)

lemma on_db_query_Inl:
  "on_db (query q) w = (Inl e, w') \<Longrightarrow> wredis w' = wredis w \<and> wlog w' = wlog w
     \<and> wdb w' = wdb w \<and> (q (wdb w) = Inl e \<or> (\<exists>n. e = net_err n))"
  by (auto dest!: on_db_cases simp: query_def)

lemma on_db_query_any:
  "on_db (query q) w = (x, w') \<Longrightarrow> wredis w' = wredis w \<and> wlog w' = wlog w
     \<and> wdb w' = wdb w \<and> (x = q (wdb w) \<or> (\<exists>n. x = Inl (net_err n)))"
  by (auto dest!: on_db_cases simp: query_def)

lemma on_db_exec_Inr:
  "on_db (exec u) w = (Inr v, w') \<Longrightarrow> wredis w' = wredis w \<and> wlog w' = wlog w
     \<and> u (wdb w) = (v, wdb w')"
  by (cases "u (wdb w)") (auto dest!: on_db_cases simp: exec_def)

lemma on_db_exec_Inl:
  "on_db (exec u) w = (Inl e, w') \<Longrightarrow> wredis w' = wredis w \<and> wlog w' = wlog w
     \<and> (\<exists>n. e = net_err n) \<and> (wdb w' = wdb w \<or> wdb w' = snd (u (wdb w)))"
  by (auto dest!: on_db_cases simp: exec_def)

lemma begin_tx_Inr:
  "begin_tx w = (Inr t, w') \<Longrightarrow> wredis w' = wredis w \<and> wlog w' = wlog w \<and> wdb w' = wdb w
     \<and> t = wdb w"
  by (auto dest!: begin_tx_cases)

lemma begin_tx_Inl:
  "begin_tx w = (Inl e, w') \<Longrightarrow> wredis w' = wredis w \<and> wlog w' = wlog w \<and> wdb w' = wdb w
     \<and> (\<exists>n. e = net_err n)"
  by (auto dest!: begin_tx_cases)

lemma on_tx_query_Inr:
  "on_tx (query q) t w = (Inr v, t', w') \<Longrightarrow> wredis w' = wredis w \<and> wlog w' = wlog w
     \<and> wdb w' = wdb w \<and> t' = t \<and> q t = Inr v"
  by (auto dest!: on_tx_cases simp: query_def)

lemma on_tx_query_Inl:
  "on_tx (query q) t w = (Inl e, t', w') \<Longrightarrow> wredis w' = wredis w \<and> wlog w' = wlog w
     \<and> wdb w' = wdb w \<and> t' = t \<and> (q t = Inl e \<or> (\<exists>n. e = net_err n))"
  by (auto dest!: on_tx_cases simp: query_def)

lemma on_tx_exec_Inr:
  "on_tx (exec u) t w = (Inr v, t', w') \<Longrightarrow> wredis w' = wredis w \<and> wlog w' = wlog w
     \<and> wdb w' = wdb w \<and> u t = (v, t')"
  by (cases "u t") (auto dest!: on_tx_cases simp: exec_def)

lemma on_tx_exec_Inl:
  "on_tx (exec u) t w = (Inl e, t', w') \<Longrightarrow> wredis w' = wredis w \<and> wlog w' = wlog w
     \<and> wdb w' = wdb w \<and> t' = t \<and> (\<exists>n. e = net_err n)"
  by (auto dest!: on_tx_cases simp: exec_def)

lemma on_tx_insert_Inr:
  "on_tx (insert_order o') t w = (Inr v, t', w') \<Longrightarrow> wredis w' = wredis w \<and> wlog w' = wlog w
     \<and> wdb w' = wdb w \<and> insert_order o' t = (Inr v, t')"
  by (cases "insert_order o' t") (auto dest!: on_tx_cases)

lemma on_tx_insert_Inl:
  "on_tx (insert_order o') t w = (Inl e, t', w') \<Longrightarrow> wredis w' = wredis w \<and> wlog w' = wlog w
     \<and> wdb w' = wdb w \<and> t' = t
     \<and> (insert_order o' t = (Inl e, t) \<and> (\<exists>n. e = MySQLError n) \<or> (\<exists>n. e = net_err n))"
  by (auto dest!: on_tx_cases simp: insert_order_def split: if_splits option.splits)

lemma commit_tx_Inr:
  "commit_tx t w = (Inr u, w') \<Longrightarrow> wredis w' = wredis w \<and> wlog w' = wlog w \<and> wdb w' = t"
  by (auto dest!: commit_tx_cases)

lemma commit_tx_Inl:
  "commit_tx t w = (Inl e, w') \<Longrightarrow> wredis w' = wredis w \<and> wlog w' = wlog w
     \<and> (\<exists>n. e = net_err n) \<and> (wdb w' = wdb w \<or> wdb w' = t)"
  by (auto dest!: commit_tx_cases)

lemmas call_dests =
  on_redis_Inr on_redis_Inl on_db_query_Inr on_db_query_Inl on_db_exec_Inr on_db_exec_Inl
  begin_tx_Inr begin_tx_Inl on_tx_query_Inr on_tx_query_Inl on_tx_exec_Inr on_tx_exec_Inl
  on_tx_insert_Inr on_tx_insert_Inl commit_tx_Inr commit_tx_Inl

lemmas select_simps = select_stock_Inr select_stock_Inl select_by_request_Inl

text \<open>
  Two classes of schedules: \<open>calm\<close>, in which every call answers, and \<open>one_loss\<close>, in which at most
  one call fails and it fails cleanly (it was not executed).
\<close>

definition calm :: "world \<Rightarrow> bool" where
  "calm w \<longleftrightarrow> list_all (\<lambda>f. f = NoFault) (wfaults w)"

definition one_loss :: "world \<Rightarrow> bool" where
  "one_loss w \<longleftrightarrow> list_all (\<lambda>f. \<forall>e. f \<noteq> Unacked e) (wfaults w)
     \<and> length (filter (\<lambda>f. f \<noteq> NoFault) (wfaults w)) \<le> 1"

lemma calm_one_loss: "calm w \<Longrightarrow> one_loss w"
  by (auto simp: calm_def one_loss_def list_all_iff filter_empty_conv)

lemma calm_fault: "calm w \<Longrightarrow> next_fault w = (f, w1) \<Longrightarrow> f = NoFault \<and> calm w1"
  by (auto simp: calm_def next_fault_def split: list.splits)

lemma one_loss_fault:
  "one_loss w \<Longrightarrow> next_fault w = (f, w1) \<Longrightarrow>
     f = NoFault \<and> one_loss w1 \<or> (\<exists>e. f = Lost e) \<and> calm w1"
  by (auto simp: one_loss_def calm_def next_fault_def list_all_iff filter_empty_conv
      split: list.splits if_splits) (metis fault.exhaust)

lemma calm_upd [simp]:
  "calm (w\<lparr>wredis := r\<rparr>) = calm w" "calm (w\<lparr>wdb := d\<rparr>) = calm w" "calm (w\<lparr>wlog := l\<rparr>) = calm w"
  "one_loss (w\<lparr>wredis := r\<rparr>) = one_loss w" "one_loss (w\<lparr>wdb := d\<rparr>) = one_loss w"
  "one_loss (w\<lparr>wlog := l\<rparr>) = one_loss w"
  by (simp_all add: calm_def one_loss_def)

lemma on_redis_calm:
  "on_redis cmd w = (x, w') \<Longrightarrow> calm w \<Longrightarrow> cmd (wredis w) = (x, wredis w') \<and> calm w'"
  by (cases "cmd (wredis w)"; cases "next_fault w")
    (auto simp: on_redis_def split: fault.splits dest: calm_fault next_fault_frame)

lemma on_redis_one_loss:
  "on_redis cmd w = (x, w') \<Longrightarrow> one_loss w \<Longrightarrow>
     cmd (wredis w) = (x, wredis w') \<and> one_loss w'
     \<or> (\<exists>n. x = Inl (net_err n)) \<and> wredis w' = wredis w \<and> calm w'"
  by (cases "cmd (wredis w)"; cases "next_fault w")
    (auto simp: on_redis_def split: fault.splits dest: one_loss_fault next_fault_frame)

lemma begin_tx_one_loss:
  "begin_tx w = (x, w') \<Longrightarrow> one_loss w \<Longrightarrow>
     x = Inr (wdb w) \<and> one_loss w' \<or> (\<exists>n. x = Inl (net_err n)) \<and> calm w'"
  by (cases "next_fault w")
    (auto simp: begin_tx_def split: fault.splits dest: one_loss_fault next_fault_frame)

lemma on_tx_one_loss:
  "on_tx stmt t w = (x, t', w') \<Longrightarrow> one_loss w \<Longrightarrow>
     stmt t = (x, t') \<and> one_loss w' \<or> (\<exists>n. x = Inl (net_err n)) \<and> t' = t \<and> calm w'"
  by (cases "stmt t"; cases "next_fault w")
    (auto simp: on_tx_def split: fault.splits dest: one_loss_fault next_fault_frame)

lemma commit_tx_one_loss:
  "commit_tx t w = (x, w') \<Longrightarrow> one_loss w \<Longrightarrow>
     x = Inr () \<and> wdb w' = t \<and> one_loss w' \<or> (\<exists>n. x = Inl (net_err n)) \<and> wdb w' = wdb w \<and> calm w'"
  by (cases "next_fault w")
    (auto simp: commit_tx_def split: fault.splits dest: one_loss_fault next_fault_frame)

lemma begin_tx_calm: "begin_tx w = (x, w') \<Longrightarrow> calm w \<Longrightarrow> x = Inr (wdb w) \<and> calm w'"
  by (cases "next_fault w")
    (auto simp: begin_tx_def split: fault.splits dest: calm_fault next_fault_frame)

lemma on_tx_calm: "on_tx stmt t w = (x, t', w') \<Longrightarrow> calm w \<Longrightarrow> stmt t = (x, t') \<and> calm w'"
  by (cases "stmt t"; cases "next_fault w")
    (auto simp: on_tx_def split: fault.splits dest: calm_fault next_fault_frame)

lemma commit_tx_calm: "commit_tx t w = (x, w') \<Longrightarrow> calm w \<Longrightarrow> x = Inr () \<and> wdb w' = t \<and> calm w'"
  by (cases "next_fault w")
    (auto simp: commit_tx_def split: fault.splits dest: calm_fault next_fault_frame)

lemma on_db_calm: "on_db stmt w = (x, w') \<Longrightarrow> calm w \<Longrightarrow> stmt (wdb w) = (x, wdb w') \<and> calm w'"
  by (cases "stmt (wdb w)"; cases "next_fault w")
    (auto simp: on_db_def split: fault.splits dest: calm_fault next_fault_frame)

text \<open>The class between them: any number of failed calls, none of which was executed.\<close>

definition clean :: "world \<Rightarrow> bool" where
  "clean w \<longleftrightarrow> list_all (\<lambda>f. \<forall>e. f \<noteq> Unacked e) (wfaults w)"

lemma clean_fault: "clean w \<Longrightarrow> next_fault w = (f, w1) \<Longrightarrow> (\<forall>e. f \<noteq> Unacked e) \<and> clean w1"
  by (auto simp: clean_def next_fault_def split: list.splits)

lemma clean_upd [simp]:
  "clean (w\<lparr>wredis := r\<rparr>) = clean w" "clean (w\<lparr>wdb := d\<rparr>) = clean w" "clean (w\<lparr>wlog := l\<rparr>) = clean w"
  by (simp_all add: clean_def)

lemma one_loss_clean: "one_loss w \<Longrightarrow> clean w"
  by (simp add: one_loss_def clean_def)

lemma on_redis_clean:
  "on_redis cmd w = (x, w') \<Longrightarrow> clean w \<Longrightarrow> clean w' \<and> wdb w' = wdb w \<and> wlog w' = wlog w
     \<and> (cmd (wredis w) = (x, wredis w') \<or> (\<exists>n. x = Inl (net_err n)) \<and> wredis w' = wredis w)"
  by (cases "cmd (wredis w)"; cases "next_fault w")
    (auto simp: on_redis_def split: fault.splits dest: clean_fault next_fault_frame)

lemma on_db_clean:
  "on_db stmt w = (x, w') \<Longrightarrow> clean w \<Longrightarrow> clean w' \<and> wredis w' = wredis w \<and> wlog w' = wlog w
     \<and> (stmt (wdb w) = (x, wdb w') \<or> (\<exists>n. x = Inl (net_err n)) \<and> wdb w' = wdb w)"
  by (cases "stmt (wdb w)"; cases "next_fault w")
    (auto simp: on_db_def split: fault.splits dest: clean_fault next_fault_frame)

lemma begin_tx_clean: "begin_tx w = (x, w') \<Longrightarrow> clean w \<Longrightarrow> clean w' \<and> wdb w' = wdb w"
  by (cases "next_fault w")
    (auto simp: begin_tx_def split: fault.splits dest: clean_fault next_fault_frame)

lemma on_tx_clean: "on_tx stmt t w = (x, t', w') \<Longrightarrow> clean w \<Longrightarrow> clean w' \<and> wdb w' = wdb w"
  by (cases "next_fault w")
    (auto simp: on_tx_def split: fault.splits dest: clean_fault next_fault_frame)

lemma commit_tx_clean:
  "commit_tx t w = (x, w') \<Longrightarrow> clean w \<Longrightarrow>
     clean w' \<and> (x = Inr () \<and> wdb w' = t \<or> (\<exists>n. x = Inl (net_err n)) \<and> wdb w' = wdb w)"
  by (cases "next_fault w")
    (auto simp: commit_tx_def split: fault.splits dest: clean_fault next_fault_frame)

text \<open>And the schedules in which every call is executed, answered or not.\<close>

definition unlost :: "world \<Rightarrow> bool" where
  "unlost w \<longleftrightarrow> list_all (\<lambda>f. \<forall>e. f \<noteq> Lost e) (wfaults w)"

lemma unlost_fault: "unlost w \<Longrightarrow> next_fault w = (f, w1) \<Longrightarrow> (\<forall>e. f \<noteq> Lost e) \<and> unlost w1"
  by (auto simp: unlost_def next_fault_def split: list.splits)

lemma unlost_upd [simp]:
  "unlost (w\<lparr>wredis := r\<rparr>) = unlost w" "unlost (w\<lparr>wdb := d\<rparr>) = unlost w" "unlost (w\<lparr>wlog := l\<rparr>) = unlost w"
  by (simp_all add: unlost_def)

lemma on_redis_unlost:
  "on_redis cmd w = (x, w') \<Longrightarrow> unlost w \<Longrightarrow> unlost w' \<and> wdb w' = wdb w \<and> wlog w' = wlog w
     \<and> wredis w' = snd (cmd (wredis w)) \<and> (x = fst (cmd (wredis w)) \<or> (\<exists>n. x = Inl (net_err n)))"
  by (cases "next_fault w")
    (auto simp: on_redis_def split: fault.splits dest: unlost_fault next_fault_frame)

text \<open>With an empty schedule every call answers, and the schedule stays empty.\<close>

lemma quiet_calls [go_simps]:
  assumes "wfaults w = []"
  shows "on_redis cmd w = (fst (cmd (wredis w)), w\<lparr>wredis := snd (cmd (wredis w))\<rparr>)"
    "on_db stmt w = (fst (stmt (wdb w)), w\<lparr>wdb := snd (stmt (wdb w))\<rparr>)"
    "begin_tx w = (Inr (wdb w), w)"
    "on_tx stmt' t w = (fst (stmt' t), snd (stmt' t), w)"
    "commit_tx t w = (Inr (), w\<lparr>wdb := t\<rparr>)"
  using assms by (simp_all add: on_redis_def on_db_def begin_tx_def on_tx_def commit_tx_def)

end
