(* ===== verification/Idgen.thy ===== *)
theory Idgen
  imports Prelude
begin

unbundle bit_operations_syntax

text \<open>
  The Snowflake generator of \<open>internal/idgen/snowflake.go\<close>. A node is the struct's mutable part;
  the clock \<open>nowFunc\<close> is the list of the readings it will give, so a call that still needs a
  reading when the list is empty has not returned (the result \<open>None\<close>). Timestamps, shifts and
  the final disjunction are on signed 64-bit values, as in the source.
\<close>

section \<open>The generator\<close>

definition epoch_milli :: int where "epoch_milli = 1735689600000"
definition max_node_id :: int where "max_node_id = 1023"
definition max_seq :: int where "max_seq = 4095"

record node =
  node_id :: int
  last_ts :: int
  seq :: int

definition new_node :: "int \<Rightarrow> go_error + node" where
  "new_node i = (if i < 0 \<or> max_node_id < i then Inl (NodeOutOfRange i)
     else Inr \<lparr>node_id = i, last_ts = -1, seq = 0\<rparr>)"

text \<open>\<open>for now <= n.lastTs { now = n.nowFunc() }\<close>\<close>

fun wait_next :: "int \<Rightarrow> int \<Rightarrow> int list \<Rightarrow> (int \<times> int list) option" where
  "wait_next lst now [] = (if now \<le> lst then None else Some (now, []))"
| "wait_next lst now (r # rs) = (if now \<le> lst then wait_next lst r rs else Some (now, r # rs))"

definition compose_id :: "int \<Rightarrow> int \<Rightarrow> int \<Rightarrow> int" where
  "compose_id now nid s =
     to_int64 (push_bit 22 (to_int64 (now - epoch_milli))) OR push_bit 12 nid OR s"

text \<open>
  \<open>NextID\<close>: refuse a clock that went backwards; in the same millisecond take the next sequence
  number, and when it wraps to 0 wait for a later millisecond; otherwise restart at 0.
\<close>

fun next_id :: "node \<Rightarrow> int list \<Rightarrow> ((go_error + int) \<times> node \<times> int list) option" where
  "next_id n [] = None"
| "next_id n (now # rs) =
     (if now < last_ts n then Some (Inl (ClockBackwards (to_int64 (last_ts n - now))), n, rs)
      else
        (let s = (if now = last_ts n then (seq n + 1) AND max_seq else 0)
         in case (if now = last_ts n \<and> s = 0 then wait_next (last_ts n) now rs else Some (now, rs)) of
              None \<Rightarrow> None
            | Some (now', rs') \<Rightarrow>
                Some (Inr (compose_id now' (node_id n) s), n\<lparr>last_ts := now', seq := s\<rparr>, rs')))"

text \<open>The identifiers of the next \<open>k\<close> calls, those that were refused left out.\<close>

fun issued :: "nat \<Rightarrow> node \<Rightarrow> int list \<Rightarrow> int list" where
  "issued 0 n rs = []"
| "issued (Suc k) n rs = (case next_id n rs of
       None \<Rightarrow> []
     | Some (Inl e, n', rs') \<Rightarrow> issued k n' rs'
     | Some (Inr i, n', rs') \<Rightarrow> i # issued k n' rs')"

section \<open>The fields of an identifier\<close>

definition node_ok :: "node \<Rightarrow> bool" where
  "node_ok n \<longleftrightarrow> 0 \<le> node_id n \<and> node_id n \<le> max_node_id \<and> 0 \<le> seq n \<and> seq n \<le> max_seq
     \<and> last_ts n < epoch_milli + 2 ^ 41"

definition in_era :: "int \<Rightarrow> bool" where
  "in_era t \<longleftrightarrow> epoch_milli \<le> t \<and> t < epoch_milli + 2 ^ 41"

lemma or_push_bit:
  fixes a b :: int
  assumes "0 \<le> b" "b < 2 ^ n"
  shows "push_bit n a OR b = a * 2 ^ n + b"
proof -
  have "take_bit n b = b" using assms by (simp add: take_bit_int_eq_self)
  then have "bit b m \<Longrightarrow> m < n" for m by (metis bit_take_bit_iff)
  then have "push_bit n a + b = push_bit n a OR b"
    by (intro disjunctive_add) (metis bit_push_bit_iff_int not_le)
  then show ?thesis by (simp add: push_bit_eq_mult)
qed

lemma compose_id_value:
  assumes "in_era now" "0 \<le> nid" "nid \<le> max_node_id" "0 \<le> s" "s \<le> max_seq"
  shows "compose_id now nid s = (now - epoch_milli) * 2 ^ 22 + nid * 2 ^ 12 + s"
proof -
  have era: "0 \<le> now - epoch_milli" "now - epoch_milli < 2 ^ 41"
    using assms(1) by (auto simp: in_era_def)
  then have "to_int64 (now - epoch_milli) = now - epoch_milli"
    by (simp add: to_int64_def signed_take_bit_int_eq_self)
  moreover have "to_int64 ((now - epoch_milli) * 2 ^ 22) = (now - epoch_milli) * 2 ^ 22"
    using era by (simp add: to_int64_def signed_take_bit_int_eq_self)
  moreover have "push_bit 12 nid OR s = nid * 2 ^ 12 + s"
    using assms by (intro or_push_bit) (auto simp: max_seq_def)
  moreover have "push_bit 22 (now - epoch_milli) OR (nid * 2 ^ 12 + s)
      = (now - epoch_milli) * 2 ^ 22 + (nid * 2 ^ 12 + s)"
    using assms by (intro or_push_bit) (auto simp: max_seq_def max_node_id_def)
  ultimately show ?thesis
    by (simp add: compose_id_def push_bit_eq_mult or.assoc)
qed

text \<open>Reading the fields back, as a router that keys on the node bits must.\<close>

lemma compose_id_node_bits:
  assumes "in_era now" "0 \<le> nid" "nid \<le> max_node_id" "0 \<le> s" "s \<le> max_seq"
  shows "(compose_id now nid s div 2 ^ 12) mod 2 ^ 10 = nid"
proof -
  have "(now - epoch_milli) * 2 ^ 22 + nid * 2 ^ 12 + s
      = s + ((now - epoch_milli) * 2 ^ 10 + nid) * 2 ^ 12"
    by (simp add: algebra_simps)
  moreover have "s div 2 ^ 12 = 0" using assms by (simp add: max_seq_def)
  ultimately have "compose_id now nid s div 2 ^ 12 = nid + (now - epoch_milli) * 2 ^ 10"
    using compose_id_value [OF assms] by (simp add: algebra_simps)
  moreover have "(nid + (now - epoch_milli) * 2 ^ 10) mod 2 ^ 10 = nid mod 2 ^ 10"
    by (rule mod_mult_self1)
  ultimately show ?thesis using assms by (simp add: max_node_id_def)
qed

lemma seq_next_bounds: "0 \<le> s \<Longrightarrow> s \<le> max_seq \<Longrightarrow>
   0 \<le> (s + 1) AND max_seq \<and> (s + 1) AND max_seq \<le> max_seq \<and>
   ((s + 1) AND max_seq = 0 \<or> (s + 1) AND max_seq = s + 1)"
proof -
  assume s: "0 \<le> s" "s \<le> max_seq"
  have "(s + 1) AND max_seq = (s + 1) mod 4096"
    using take_bit_eq_mask [of 12 "s + 1"] by (simp add: max_seq_def mask_eq_exp_minus_1 take_bit_eq_mod)
  moreover have "s + 1 < 4096 \<or> s + 1 = 4096" using s by (auto simp: max_seq_def)
  ultimately show ?thesis using s by (auto simp: max_seq_def)
qed

section \<open>What one call does\<close>

lemma wait_next_later: "wait_next lst now rs = Some (t, rs') \<Longrightarrow>
   lst < t \<and> t \<in> set (now # rs) \<and> set rs' \<subseteq> set rs"
  by (induction lst now rs rule: wait_next.induct) (auto split: if_splits)

lemma wait_next_returns: "\<exists>t \<in> set (now # rs). lst < t \<Longrightarrow> \<exists>z. wait_next lst now rs = Some z"
  by (induction lst now rs rule: wait_next.induct) auto

text \<open>
  \<open>frontier\<close> is the last identifier the node's state stands for. A successful call returns the
  new frontier, and the frontier only grows.
\<close>

definition frontier :: "node \<Rightarrow> int" where
  "frontier n = (last_ts n - epoch_milli) * 2 ^ 22 + node_id n * 2 ^ 12 + seq n"

text \<open>The shape of a call that returned an identifier: which reading it used, and why.\<close>

lemma next_id_Inr:
  assumes "next_id n rs = Some (Inr i, n', rs')" and "node_ok n"
  obtains t s where "t \<in> set rs" "last_ts n \<le> t" "set rs' \<subseteq> set rs"
    "n' = n\<lparr>last_ts := t, seq := s\<rparr>" "i = compose_id t (node_id n) s"
    "0 \<le> s" "s \<le> max_seq" "last_ts n < t \<or> t = last_ts n \<and> s = seq n + 1"
proof (cases rs)
  case Nil
  with assms show thesis by simp
next
  case (Cons now us)
  define s where "s = (if now = last_ts n then (seq n + 1) AND max_seq else 0)"
  have sb: "0 \<le> s" "s \<le> max_seq" "now = last_ts n \<Longrightarrow> s = 0 \<or> s = seq n + 1"
    using seq_next_bounds [of "seq n"] assms(2) by (auto simp: s_def node_ok_def max_seq_def)
  have now: "last_ts n \<le> now" using assms(1) Cons by (auto split: if_splits)
  show thesis
  proof (cases "now = last_ts n \<and> s = 0")
    case True
    then obtain t where "wait_next (last_ts n) now us = Some (t, rs')"
      "n' = n\<lparr>last_ts := t, seq := s\<rparr>" "i = compose_id t (node_id n) s"
      using assms(1) Cons by (auto simp: s_def split: option.splits)
    then show thesis using wait_next_later [of "last_ts n" now us t rs'] sb now Cons by (intro that [of t s]) auto
  next
    case False
    then have "rs' = us" "n' = n\<lparr>last_ts := now, seq := s\<rparr>" "i = compose_id now (node_id n) s"
      using assms(1) Cons now by (auto simp: s_def Let_def split: if_splits)
    then show thesis using sb False Cons now by (intro that [of now s]) auto
  qed
qed

lemma next_id_Inl:
  "next_id n rs = Some (Inl e, n', rs') \<Longrightarrow> n' = n \<and> set rs' \<subseteq> set rs"
  by (cases rs) (auto simp: Let_def split: if_splits option.splits)

lemma next_id_frontier:
  assumes "next_id n rs = Some (Inr i, n', rs')" "node_ok n" "\<forall>t \<in> set rs. in_era t"
  shows "i = frontier n'" "frontier n < i" "node_ok n'" "node_id n' = node_id n" "set rs' \<subseteq> set rs"
proof -
  obtain t s where t: "t \<in> set rs" "last_ts n \<le> t" "set rs' \<subseteq> set rs"
    and n': "n' = n\<lparr>last_ts := t, seq := s\<rparr>" and i: "i = compose_id t (node_id n) s"
    and s: "0 \<le> s" "s \<le> max_seq" and adv: "last_ts n < t \<or> t = last_ts n \<and> s = seq n + 1"
    using next_id_Inr [OF assms(1,2)] by metis
  have era: "in_era t" using assms(3) t(1) by blast
  show ni: "i = frontier n'"
    using compose_id_value [OF era _ _ s] assms(2) by (simp add: i n' frontier_def node_ok_def)
  show "node_ok n'" "node_id n' = node_id n" "set rs' \<subseteq> set rs"
    using assms(2) s era t by (auto simp: n' node_ok_def in_era_def)
  show "frontier n < i"
    using adv s assms(2) unfolding ni n' frontier_def node_ok_def max_seq_def by auto
qed

lemma issued_above:
  assumes "node_ok n" "\<forall>t \<in> set rs. in_era t"
  shows "sorted_wrt (<) (issued k n rs) \<and> (\<forall>i \<in> set (issued k n rs). frontier n < i)"
  using assms
proof (induction k arbitrary: n rs)
  case (Suc k)
  show ?case
  proof (cases "next_id n rs")
    case (Some z)
    obtain x n' rs' where z: "z = (x, n', rs')" by (cases z)
    show ?thesis
    proof (cases x)
      case (Inl e)
      with Some z next_id_Inl [of n rs e n' rs'] Suc.prems have "n' = n" "\<forall>t \<in> set rs'. in_era t"
        by auto
      with Some z Inl Suc show ?thesis by simp
    next
      case (Inr i)
      note nf = next_id_frontier [OF Some [unfolded z Inr] Suc.prems]
      have "\<forall>t \<in> set rs'. in_era t" using nf(5) Suc.prems(2) by blast
      with Suc.IH [OF nf(3) this] nf(1,2) Some z Inr show ?thesis by fastforce
    qed
  qed simp
qed simp

lemma issued_node_bits:
  assumes "node_ok n" "\<forall>t \<in> set rs. in_era t" "i \<in> set (issued k n rs)"
  shows "(i div 2 ^ 12) mod 2 ^ 10 = node_id n"
  using assms
proof (induction k arbitrary: n rs)
  case (Suc k)
  obtain x n' rs' where z: "next_id n rs = Some (x, n', rs')"
    using Suc.prems by (cases "next_id n rs") auto
  show ?case
  proof (cases x)
    case (Inl e)
    with z next_id_Inl [of n rs e n' rs'] Suc.prems have "n' = n" "\<forall>t \<in> set rs'. in_era t"
      by auto
    with z Inl Suc show ?thesis by simp
  next
    case (Inr j)
    note nf = next_id_frontier [OF z [unfolded Inr] Suc.prems(1,2)]
    have "(j div 2 ^ 12) mod 2 ^ 10 = node_id n"
      using next_id_Inr [OF z [unfolded Inr] Suc.prems(1)] compose_id_node_bits Suc.prems(1,2)
      by (metis node_ok_def)
    moreover have "\<forall>t \<in> set rs'. in_era t" using nf(5) Suc.prems(2) by blast
    ultimately show ?thesis using Suc.IH [OF nf(3)] Suc.prems(3) nf(4) z Inr by auto
  qed
qed simp

section \<open>Properties\<close>

lemma new_node_ok: "new_node i = Inr n \<Longrightarrow> node_ok n \<and> node_id n = i"
  by (auto simp: new_node_def node_ok_def max_node_id_def max_seq_def epoch_milli_def split: if_splits)

text \<open>
  C31: the identifiers of one generator strictly increase. From a node as \<open>NewNode\<close> makes it, over any
  clock (it may stand still or go backwards) whose readings lie in the 41-bit era of the epoch,
  the identifiers its calls return are strictly increasing, so no two are equal.
\<close>

theorem snowflake_increasing:
  assumes "new_node i = Inr n" "\<forall>t \<in> set rs. in_era t"
  shows "sorted_wrt (<) (issued k n rs) \<and> distinct (issued k n rs)"
  using issued_above [of n rs k] new_node_ok [OF assms(1)] assms(2)
  by (auto simp: strict_sorted_iff)

definition demo_clock :: "int list" where
  "demo_clock = [epoch_milli + 10, epoch_milli + 10, epoch_milli + 9, epoch_milli + 11]"

lemma demo_clock_era: "\<forall>t \<in> set demo_clock. in_era t"
  by (simp add: demo_clock_def in_era_def)

text \<open>Four calls: a first one, one in the same millisecond, one refused, one later.\<close>

lemma demo_issued:
  "issued 4 \<lparr>node_id = 5, last_ts = -1, seq = 0\<rparr> demo_clock
     = [10 * 2 ^ 22 + 5 * 2 ^ 12, 10 * 2 ^ 22 + 5 * 2 ^ 12 + 1, 11 * 2 ^ 22 + 5 * 2 ^ 12]"
  by code_simp

theorem snowflake_increasing_witness:
  "sorted_wrt (<) (issued 4 \<lparr>node_id = 5, last_ts = -1, seq = 0\<rparr> demo_clock)
   \<and> length (issued 4 \<lparr>node_id = 5, last_ts = -1, seq = 0\<rparr> demo_clock) = 3"
proof -
  have "new_node 5 = Inr \<lparr>node_id = 5, last_ts = -1, seq = 0\<rparr>" by (simp add: new_node_def max_node_id_def)
  from snowflake_increasing [OF this demo_clock_era, of 4] show ?thesis by (simp only: demo_issued) simp
qed

text \<open>
  generators with different node ids never collide: their identifiers carry the node id in
  bits 12 to 21, whatever their clocks read within the era, so no identifier of one is an
  identifier of the other.
\<close>

theorem snowflake_nodes_disjoint:
  assumes "new_node i = Inr n" "new_node j = Inr m" "i \<noteq> j"
    and "\<forall>t \<in> set rs. in_era t" "\<forall>t \<in> set us. in_era t"
  shows "set (issued k n rs) \<inter> set (issued l m us) = {}"
proof -
  have "(x div 2 ^ 12) mod 2 ^ 10 = i" if "x \<in> set (issued k n rs)" for x
    using issued_node_bits [OF _ assms(4) that] new_node_ok [OF assms(1)] by simp
  moreover have "(x div 2 ^ 12) mod 2 ^ 10 = j" if "x \<in> set (issued l m us)" for x
    using issued_node_bits [OF _ assms(5) that] new_node_ok [OF assms(2)] by simp
  ultimately show ?thesis using assms(3) by blast
qed

theorem snowflake_nodes_disjoint_witness:
  "set (issued 4 \<lparr>node_id = 5, last_ts = -1, seq = 0\<rparr> demo_clock)
   \<inter> set (issued 4 \<lparr>node_id = 6, last_ts = -1, seq = 0\<rparr> demo_clock) = {}"
  by (rule snowflake_nodes_disjoint [of 5 _ 6])
    (simp_all add: new_node_def max_node_id_def demo_clock_era)

text \<open>
  a clock that went backwards is refused with the distance, and a refused call changes
  nothing; otherwise the call returns an identifier as soon as the clock gives a reading later
  than the last one used (it waits for one only when the sequence of a millisecond is used up).
\<close>

theorem next_id_refuses_or_returns:
  "next_id n (now # rs) = Some (Inl e, n', rs') \<Longrightarrow>
     now < last_ts n \<and> e = ClockBackwards (to_int64 (last_ts n - now)) \<and> n' = n \<and> rs' = rs"
  "last_ts n \<le> now \<Longrightarrow> \<exists>t \<in> set (now # rs). last_ts n < t \<Longrightarrow>
     \<exists>i n' rs'. next_id n (now # rs) = Some (Inr i, n', rs')"
proof -
  show "next_id n (now # rs) = Some (Inl e, n', rs') \<Longrightarrow>
     now < last_ts n \<and> e = ClockBackwards (to_int64 (last_ts n - now)) \<and> n' = n \<and> rs' = rs"
    by (auto simp: Let_def split: if_splits option.splits)
  assume a: "last_ts n \<le> now" "\<exists>t \<in> set (now # rs). last_ts n < t"
  obtain z where "wait_next (last_ts n) now rs = Some z" using wait_next_returns [OF a(2)] by blast
  then show "\<exists>i n' rs'. next_id n (now # rs) = Some (Inr i, n', rs')"
    using a(1) by (cases z) (auto simp: Let_def)
qed

text \<open>The last sequence number of a millisecond is used; the clock stands still once, then moves.\<close>

theorem next_id_refuses_or_returns_witness:
  "\<exists>i n' rs'. next_id \<lparr>node_id = 5, last_ts = epoch_milli, seq = 4095\<rparr>
      [epoch_milli, epoch_milli, epoch_milli + 1] = Some (Inr i, n', rs')"
  by (rule next_id_refuses_or_returns) simp_all

end
