(* ===== verification/Stock_Gate.thy ===== *)
theory Stock_Gate
  imports Prelude
begin

text \<open>
  The interface every stock gate of the program offers to an order path: \<open>take q\<close> deducts \<open>q\<close> if
  the stock allows it and answers the rest, or answers \<open>-1\<close> and changes nothing; \<open>give q\<close> is the
  compensation. The locale states the contract and what follows from it for any sequence of
  requests, some of which land and some of which are compensated. The single Redis key of
  package \<open>deduct\<close> and one bucket key of package \<open>bucket\<close> are its interpretations.
\<close>

text \<open>
  A sequence of requests served by a gate: each asks for a quantity, and the flag says whether
  its order was stored afterwards or the deduction was compensated. The result is the total
  quantity of the stored orders and the final state of the gate.
\<close>

fun serve :: "(int \<Rightarrow> 's \<Rightarrow> (go_error + int) \<times> 's) \<Rightarrow> (int \<Rightarrow> 's \<Rightarrow> (go_error + int) \<times> 's)
    \<Rightarrow> (int \<times> bool) list \<Rightarrow> 's \<Rightarrow> int \<times> 's" where
  "serve tk gv [] s = (0, s)"
| "serve tk gv ((q, stored) # rs) s =
     (case tk q s of
        (Inr n, s1) \<Rightarrow>
          (if n = -1 then serve tk gv rs s1
           else if stored then (let (t, s2) = serve tk gv rs s1 in (t + q, s2))
           else serve tk gv rs (snd (gv q s1)))
      | (Inl _, s1) \<Rightarrow> serve tk gv rs s1)"

locale stock_gate =
  fixes take :: "int \<Rightarrow> 's \<Rightarrow> (go_error + int) \<times> 's"
    and give :: "int \<Rightarrow> 's \<Rightarrow> (go_error + int) \<times> 's"
    and level :: "'s \<Rightarrow> int option"
  assumes take_enough: "level s = Some n \<Longrightarrow> q \<le> n \<Longrightarrow> fits_int64 (n - q) \<Longrightarrow>
      fst (take q s) = Inr (n - q) \<and> level (snd (take q s)) = Some (n - q)"
    and take_short: "level s = Some n \<Longrightarrow> n < q \<Longrightarrow> take q s = (Inr (-1), s)"
    and give_back: "level s = Some n \<Longrightarrow> fits_int64 (n + q) \<Longrightarrow>
      fst (give q s) = Inr (n + q) \<and> level (snd (give q s)) = Some (n + q)"
begin

lemma take_give:
  assumes "level s = Some n" "0 \<le> n" "fits_int64 n" "0 < q" "q \<le> n"
  shows "level (snd (give q (snd (take q s)))) = Some n"
proof -
  have "fits_int64 (n - q)" using assms by (simp add: fits_int64_def)
  then have "level (snd (take q s)) = Some (n - q)" using take_enough assms by blast
  with give_back [of "snd (take q s)" "n - q" q] assms(3) show ?thesis by simp
qed

lemma serve_conserves:
  assumes "level s = Some n" "0 \<le> n" "fits_int64 n" "\<forall>(q, b) \<in> set rs. 0 < q"
  shows "\<exists>m. level (snd (serve take give rs s)) = Some m \<and> 0 \<le> m
      \<and> m + fst (serve take give rs s) = n"
  using assms
proof (induction rs arbitrary: s n)
  case (Cons r rs)
  obtain q b where r: "r = (q, b)" by (cases r)
  have q: "0 < q" using Cons.prems(4) r by auto
  show ?case
  proof (cases "n < q")
    case True
    with Cons take_short [OF Cons.prems(1) True] r show ?thesis by simp
  next
    case False
    then have f: "fits_int64 (n - q)" "0 \<le> n - q"
      using Cons.prems(2,3) q by (simp_all add: fits_int64_def)
    obtain s1 where t: "take q s = (Inr (n - q), s1)" "level s1 = Some (n - q)"
      using take_enough [OF Cons.prems(1) _ f(1)] False by (cases "take q s") auto
    have restored: "level (snd (give q s1)) = Some n"
      using take_give [OF Cons.prems(1-3) q] False t(1) by simp
    show ?thesis
      using Cons.IH [OF t(2) f(2,1)] Cons.IH [OF restored Cons.prems(2,3)] Cons.prems(4) r t(1) f(2)
      by (auto split: prod.splits)
  qed
qed simp

lemma serve_never_oversells:
  assumes "level s = Some n" "0 \<le> n" "fits_int64 n" "\<forall>(q, b) \<in> set rs. 0 < q"
  shows "fst (serve take give rs s) \<le> n"
  using serve_conserves [OF assms] by auto

end

end
