(* ===== verification/Orders.thy ===== *)
theory Orders
  imports Store
begin

text \<open>
  Package \<open>order\<close> (\<open>internal/order/\<close>): the request, the new order row, the first order path
  \<open>PlaceOrderNaive\<close> and the transactional one \<open>PlaceOrderTx\<close>. Each function is the source's whole
  sequence of statements on a \<open>world\<close>, so every early return and every failing call is a branch.
  \<open>node.NextID\<close> enters as the outcome \<open>nid\<close> of that call (theory \<open>Idgen\<close> models the generator).

  \<open>PlaceOrderTx\<close> runs beside other transactions. What they commit is given by two functions:
  \<open>env1\<close> between this transaction's snapshot read and its locking read, and \<open>env2\<close> between the
  locking read and the insert. The row lock means \<open>env2\<close> cannot change the locked product.
\<close>

section \<open>Requests and rows\<close>

record place_req =
  r_request :: string
  r_product :: int
  r_user :: int
  r_quantity :: int

definition status_created :: string where "status_created = ''created''"

definition new_order :: "int \<Rightarrow> place_req \<Rightarrow> order" where
  "new_order i req = \<lparr>o_id = i, o_product = r_product req, o_user = r_user req,
     o_request = r_request req, o_quantity = r_quantity req, o_status = status_created,
     o_created = 0\<rparr>"

section \<open>The naive path\<close>

text \<open>
  Four statements, each committed by itself. \<open>nano\<close> is the \<open>UnixNano\<close> reading used as the id, and
  \<open>env\<close> is what other requests commit between the stock check and the update.
\<close>

definition place_order_naive :: "int \<Rightarrow> (database \<Rightarrow> database) \<Rightarrow> place_req \<Rightarrow> world
    \<Rightarrow> (go_error + order) \<times> world" where
  "place_order_naive nano env req w =
     (if r_quantity req \<le> 0 then (Inl OrderInvalidQuantity, w)
      else (case on_db (query (select_stock (r_product req))) w of
        (Inl e, w1) \<Rightarrow> (Inl (if e = SqlNoRows then OrderProductNotFound else e), w1)
      | (Inr stock, w1) \<Rightarrow>
         (if stock < r_quantity req then (Inl OrderInsufficientStock, w1)
          else (case on_db (exec (update_sub (r_product req) (r_quantity req)))
                  (w1\<lparr>wdb := env (wdb w1)\<rparr>) of
            (Inl e, w2) \<Rightarrow> (Inl e, w2)
          | (Inr _, w2) \<Rightarrow>
             (case on_db (insert_order (new_order nano req)) w2 of
                (Inl e, w3) \<Rightarrow> (Inl e, w3)
              | (Inr _, w3) \<Rightarrow> (Inr (new_order nano req), w3))))))"

section \<open>The transactional path\<close>

text \<open>The writes: insert the order, subtract the stock, commit; a duplicate answers the winner's row.\<close>

definition tx_write :: "int \<Rightarrow> place_req \<Rightarrow> world \<Rightarrow> (go_error + order) \<times> world" where
  "tx_write i req w =
     (case on_tx (insert_order (new_order i req)) (wdb w) w of
        (Inl e, _, w1) \<Rightarrow>
          (if e = MySQLError 1062 then on_db (query (select_by_request (r_request req))) w1
           else (Inl e, w1))
      | (Inr _, t, w1) \<Rightarrow>
        (case on_tx (exec (update_sub (r_product req) (r_quantity req))) t w1 of
           (Inl e, _, w2) \<Rightarrow> (Inl e, w2)
         | (Inr _, t', w2) \<Rightarrow>
           (case commit_tx t' w2 of
              (Inl e, w3) \<Rightarrow> (Inl e, w3)
            | (Inr _, w3) \<Rightarrow> (Inr (new_order i req), w3))))"

text \<open>From the locking read on: the stock check, the identifier, the writes.\<close>

definition tx_locked :: "go_error + int \<Rightarrow> (database \<Rightarrow> database) \<Rightarrow> place_req \<Rightarrow> world
    \<Rightarrow> (go_error + order) \<times> world" where
  "tx_locked nid env2 req w =
     (case on_tx (query (select_stock (r_product req))) (wdb w) w of
        (Inl e, _, w1) \<Rightarrow>
          (Inl (if errors_is e SqlNoRows then OrderProductNotFound else e), w1)
      | (Inr stock, _, w1) \<Rightarrow>
        (if stock < r_quantity req then (Inl OrderInsufficientStock, w1)
         else (case nid of
            Inl e \<Rightarrow> (Inl e, w1)
          | Inr i \<Rightarrow> tx_write i req (w1\<lparr>wdb := env2 (wdb w1)\<rparr>))))"

definition place_order_tx :: "go_error + int \<Rightarrow> (database \<Rightarrow> database) \<Rightarrow> (database \<Rightarrow> database)
    \<Rightarrow> place_req \<Rightarrow> world \<Rightarrow> (go_error + order) \<times> world" where
  "place_order_tx nid env1 env2 req w =
     (if r_quantity req \<le> 0 then (Inl OrderInvalidQuantity, w)
      else (case begin_tx w of
        (Inl e, w1) \<Rightarrow> (Inl e, w1)
      | (Inr t, w1) \<Rightarrow>
        (case on_tx (query (select_by_request (r_request req))) t w1 of
          (Inr existing, _, w2) \<Rightarrow> (Inr existing, w2)
        | (Inl e, _, w2) \<Rightarrow>
          (if \<not> errors_is e SqlNoRows then (Inl e, w2)
           else tx_locked nid env2 req (w2\<lparr>wdb := env1 (wdb w2)\<rparr>)))))"

section \<open>What a sale is\<close>

text \<open>
  \<open>booked i req d d'\<close>: a row for the request is added under keys that were free and with values its columns take, and the product's
  stock falls by the quantity. A \<open>sale\<close> is a booking of stock that was there.
\<close>

definition booked :: "int \<Rightarrow> place_req \<Rightarrow> database \<Rightarrow> database \<Rightarrow> bool" where
  "booked i req d d' \<longleftrightarrow>
     (\<forall>p. stock_of d' p = (if p = r_product req
        then map_option (\<lambda>n. n - r_quantity req) (stock_of d p) else stock_of d p))
     \<and> orders d' = orders d @ [(new_order i req)\<lparr>o_created := db_now d\<rparr>]
     \<and> i \<notin> o_id ` set (orders d) \<and> r_request req \<notin> o_request ` set (orders d)
     \<and> row_error (new_order i req) = None"

definition sale :: "int \<Rightarrow> place_req \<Rightarrow> database \<Rightarrow> database \<Rightarrow> bool" where
  "sale i req d d' \<longleftrightarrow> booked i req d d'
     \<and> (\<exists>n. stock_of d (r_product req) = Some n \<and> r_quantity req \<le> n)"

text \<open>
  The invariant of the database: keys are unique, no stock is negative, and for every product
  stock and ordered quantity add up to what was put on sale.
\<close>

definition db_inv :: "(int \<Rightarrow> int) \<Rightarrow> database \<Rightarrow> bool" where
  "db_inv offer d \<longleftrightarrow> orders_keyed d
     \<and> (\<forall>p n. stock_of d p = Some n \<longrightarrow> 0 \<le> n \<and> n + ordered_quantity p d = offer p)"

lemma new_order_simps [simp]:
  "o_id (new_order i req) = i" "o_product (new_order i req) = r_product req"
  "o_request (new_order i req) = r_request req" "o_quantity (new_order i req) = r_quantity req"
  "o_user (new_order i req) = r_user req" "o_status (new_order i req) = status_created"
  by (simp_all add: new_order_def)

lemma booked_stock:
  "booked i req d d' \<Longrightarrow> stock_of d' p =
     (if p = r_product req then map_option (\<lambda>n. n - r_quantity req) (stock_of d p) else stock_of d p)"
  by (auto simp: booked_def)

lemma booked_ordered:
  "booked i req d d' \<Longrightarrow> ordered_quantity p d' =
     ordered_quantity p d + (if p = r_product req then r_quantity req else 0)"
  unfolding booked_def by (auto simp: ordered_quantity_append)

lemma booked_keyed: "booked i req d d' \<Longrightarrow> orders_keyed d \<Longrightarrow> orders_keyed d'"
  by (auto simp: booked_def orders_keyed_def)

lemma sale_booked: "sale i req d d' \<Longrightarrow> booked i req d d'"
  by (simp add: sale_def)

lemma sale_had_stock: "sale i req d d' \<Longrightarrow> \<exists>n. stock_of d (r_product req) = Some n \<and> r_quantity req \<le> n"
  by (auto simp: sale_def)

lemmas sale_stock = booked_stock [OF sale_booked]
lemmas sale_ordered = booked_ordered [OF sale_booked]
lemmas sale_keyed = booked_keyed [OF sale_booked]

lemma sale_db_inv:
  assumes "sale i req d d'" "db_inv offer d"
  shows "db_inv offer d'"
proof -
  have "0 \<le> n \<and> n + ordered_quantity p d' = offer p" if "stock_of d' p = Some n" for p n
  proof (cases "p = r_product req")
    case True
    then obtain m where "stock_of d p = Some m" "r_quantity req \<le> m"
      using sale_had_stock [OF assms(1)] by auto
    moreover from this True have "n = m - r_quantity req"
      using sale_stock [OF assms(1), of p] that by simp
    ultimately have "stock_of d p = Some m" "r_quantity req \<le> m" "n = m - r_quantity req" by auto
    then show ?thesis
      using assms(2) sale_ordered [OF assms(1), of p] True by (auto simp: db_inv_def)
  next
    case False
    then show ?thesis
      using assms(2) sale_ordered [OF assms(1), of p] sale_stock [OF assms(1), of p] that
      by (auto simp: db_inv_def)
  qed
  then show ?thesis
    using sale_keyed [OF assms(1)] assms(2) by (simp add: db_inv_def)
qed

text \<open>An insert and the subtraction, in either order, are a booking.\<close>

lemma update_sub_effect:
  "update_sub p q d = (k, d') \<Longrightarrow> orders d' = orders d \<and> db_now d' = db_now d
     \<and> (\<forall>p'. stock_of d' p' = (if p' = p then map_option (\<lambda>n. n - q) (stock_of d p') else stock_of d p'))"
  by (auto simp: update_sub_def split: option.splits) (auto simp: stock_of_def)

lemma insert_update_booked:
  assumes "insert_order (new_order i req) d = (Inr u, d1)"
    and "update_sub (r_product req) (r_quantity req) d1 = (x, d2)"
  shows "booked i req d d2"
proof -
  have "stock_of d1 p = stock_of d p" for p
    using insert_order_Inr(2) [OF assms(1)] by (simp add: stock_of_def)
  then show ?thesis
    using update_sub_effect [OF assms(2)] insert_order_Inr [OF assms(1)]
    by (simp add: booked_def)
qed

lemma stock_insert_booked:
  assumes "insert_order (new_order i req) d1 = (Inr u, d2)"
    and "orders d1 = orders d" "db_now d1 = db_now d"
    and "\<forall>p. stock_of d1 p = (if p = r_product req
        then map_option (\<lambda>n. n - r_quantity req) (stock_of d p) else stock_of d p)"
  shows "booked i req d d2"
proof -
  have "stock_of d2 p = stock_of d1 p" for p
    using insert_order_Inr(2) [OF assms(1)] by (simp add: stock_of_def)
  then show ?thesis
    using insert_order_Inr [OF assms(1)] assms(2-4) by (simp add: booked_def)
qed

text \<open>The database as it was, with the order found in it, or one sale: the outcome of the writes.\<close>

lemma tx_write_cases:
  assumes "tx_write i req w = (x, w')" "stock_of (wdb w) (r_product req) = Some n" "r_quantity req \<le> n"
  shows "wredis w' = wredis w \<and> wlog w' = wlog w \<and>
    (wdb w' = wdb w \<and>
       (\<forall>ord. x = Inr ord \<longrightarrow> ord \<in> set (orders (wdb w)) \<and> o_request ord = r_request req)
     \<or> sale i req (wdb w) (wdb w') \<and> (x = Inr (new_order i req) \<or> (\<exists>e. x = Inl (net_err e))))"
proof -
  have sale: "sale i req (wdb w) d2"
    if "insert_order (new_order i req) (wdb w) = (Inr u, d1)"
      "update_sub (r_product req) (r_quantity req) d1 = (k, d2)" for u d1 k d2
    using insert_update_booked [OF that] assms(2,3) by (simp add: sale_def)
  show ?thesis
    using assms(1)
    by (auto simp: tx_write_def split: prod.splits sum.splits if_splits
        dest!: call_dests on_db_query_any select_by_request_Inr intro: sale)
qed

lemma tx_locked_cases:
  assumes "tx_locked nid env2 req w = (x, w')"
    and "stock_of (env2 (wdb w)) (r_product req) = stock_of (wdb w) (r_product req)"
  shows "wredis w' = wredis w \<and> wlog w' = wlog w \<and>
    (wdb w' \<in> {wdb w, env2 (wdb w)} \<and>
       (\<forall>ord. x = Inr ord \<longrightarrow> ord \<in> set (orders (wdb w')) \<and> o_request ord = r_request req)
     \<or> (\<exists>i. nid = Inr i \<and> sale i req (env2 (wdb w)) (wdb w') \<and>
          (x = Inr (new_order i req) \<or> (\<exists>e. x = Inl (net_err e)))))"
  using assms
  by (auto simp: tx_locked_def select_simps split: prod.splits sum.splits if_splits
      dest!: call_dests dest: tx_write_cases)

text \<open>
  Every run of \<open>PlaceOrderTx\<close>, under every schedule of faults: it leaves the stores as the other
  transactions left them, or it makes one sale on top of that. The order it answers is in the
  database, it carries the request's id, and a new one was made by a sale.
\<close>

lemma place_order_tx_cases:
  assumes "place_order_tx nid env1 env2 req w = (x, w')"
    and "stock_of (env2 (env1 (wdb w))) (r_product req) = stock_of (env1 (wdb w)) (r_product req)"
  shows "wredis w' = wredis w \<and> wlog w' = wlog w \<and>
    (wdb w' \<in> {wdb w, env1 (wdb w), env2 (env1 (wdb w))} \<and>
       (\<forall>ord. x = Inr ord \<longrightarrow> ord \<in> set (orders (wdb w')) \<and> o_request ord = r_request req)
     \<or> (\<exists>i. nid = Inr i \<and> sale i req (env2 (env1 (wdb w))) (wdb w') \<and>
          (x = Inr (new_order i req) \<or> (\<exists>e. x = Inl (net_err e)))))"
  using assms
  by (auto simp: place_order_tx_def split: prod.splits sum.splits if_splits
      dest!: call_dests select_by_request_Inr dest: tx_locked_cases)
    (use tx_locked_cases in fastforce)

section \<open>Properties\<close>

text \<open>A stored request is answered from the table, whatever else happens, and nothing is written.\<close>

lemma select_by_request_keyed:
  assumes "orders_keyed d" "ord \<in> set (orders d)"
  shows "select_by_request (o_request ord) d = Inr ord"
proof (cases "select_by_request (o_request ord) d")
  case (Inl e)
  with assms show ?thesis by (auto simp: select_simps)
next
  case (Inr ord')
  then have "ord' \<in> set (orders d)" "o_request ord' = o_request ord"
    by (auto dest: select_by_request_Inr)
  with assms have "ord' = ord" by (auto simp: orders_keyed_def distinct_map inj_on_def)
  with Inr show ?thesis by simp
qed

lemma place_order_tx_replay:
  assumes "place_order_tx nid env1 env2 req w = (x, w')"
    and "select_by_request (r_request req) (wdb w) = Inr ord"
  shows "wdb w' = wdb w \<and> (\<forall>ord'. x = Inr ord' \<longrightarrow> ord' = ord)"
  using assms
  by (auto simp: place_order_tx_def split: prod.splits sum.splits if_splits dest!: call_dests)

text \<open>What other transactions may do: keep the invariant and keep the rows of \<open>orders\<close>.\<close>

definition env_ok :: "(int \<Rightarrow> int) \<Rightarrow> (database \<Rightarrow> database) \<Rightarrow> bool" where
  "env_ok offer env \<longleftrightarrow>
     (\<forall>d. db_inv offer d \<longrightarrow> db_inv offer (env d) \<and> set (orders d) \<subseteq> set (orders (env d)))"

lemma env_ok_id [simp]: "env_ok offer (\<lambda>d. d)"
  by (simp add: env_ok_def)

lemma place_order_tx_safe:
  assumes "db_inv offer (wdb w)" "env_ok offer env1" "env_ok offer env2"
    and "stock_of (env2 (env1 (wdb w))) (r_product req) = stock_of (env1 (wdb w)) (r_product req)"
  shows "db_inv offer (wdb (snd (place_order_tx nid env1 env2 req w)))
    \<and> set (orders (wdb w)) \<subseteq> set (orders (wdb (snd (place_order_tx nid env1 env2 req w))))"
proof (cases "place_order_tx nid env1 env2 req w")
  case (Pair x w')
  have env: "db_inv offer (env1 (wdb w))" "db_inv offer (env2 (env1 (wdb w)))"
    "set (orders (wdb w)) \<subseteq> set (orders (env1 (wdb w)))"
    "set (orders (env1 (wdb w))) \<subseteq> set (orders (env2 (env1 (wdb w))))"
    using assms by (auto simp: env_ok_def)
  have "wdb w' \<in> {wdb w, env1 (wdb w), env2 (env1 (wdb w))}
      \<or> (\<exists>i. sale i req (env2 (env1 (wdb w))) (wdb w'))"
    using place_order_tx_cases [OF Pair assms(4)] by blast
  then have "db_inv offer (wdb w') \<and> set (orders (wdb w)) \<subseteq> set (orders (wdb w'))"
  proof (elim disjE exE)
    fix i assume s: "sale i req (env2 (env1 (wdb w))) (wdb w')"
    then have "set (orders (env2 (env1 (wdb w)))) \<subseteq> set (orders (wdb w'))"
      by (auto simp: sale_def booked_def)
    then show ?thesis using sale_db_inv [OF s env(2)] env(3,4) by blast
  qed (use env assms(1) in auto)
  then show ?thesis using Pair by simp
qed

text \<open>
  C12: one \<open>PlaceOrderTx\<close> call is all or nothing. Under every schedule of failing calls, and with
  other transactions committing around it, the database it leaves is the one the others left,
  or that one plus exactly one sale (one row under fresh keys, the stock lowered by the quantity
  it had). It never touches Redis, and an order it answers carries the request's id and, when it
  is not the new one, is a stored row.
\<close>

theorem place_order_tx_atomic:
  assumes "place_order_tx nid env1 env2 req w = (x, w')"
    and "stock_of (env2 (env1 (wdb w))) (r_product req) = stock_of (env1 (wdb w)) (r_product req)"
  shows "wredis w' = wredis w \<and>
    (wdb w' \<in> {wdb w, env1 (wdb w), env2 (env1 (wdb w))} \<and>
       (\<forall>ord. x = Inr ord \<longrightarrow> ord \<in> set (orders (wdb w')) \<and> o_request ord = r_request req)
     \<or> (\<exists>i. nid = Inr i \<and> sale i req (env2 (env1 (wdb w))) (wdb w') \<and>
          (x = Inr (new_order i req) \<or> (\<exists>e. x = Inl (net_err e)))))"
  using place_order_tx_cases [OF assms] by blast

text \<open>A database with one product of stock 3, a request for 2 of it, and a quiet world.\<close>

definition demo_db :: database where
  "demo_db = \<lparr>products = [1 \<mapsto> \<lparr>p_name = ''shoe'', p_stock = 3, p_version = 0\<rparr>], orders = [], db_now = 50\<rparr>"

definition demo_req :: place_req where
  "demo_req = \<lparr>r_request = ''r1'', r_product = 1, r_user = 7, r_quantity = 2\<rparr>"

definition demo_world :: world where
  "demo_world = \<lparr>wredis = \<lparr>rkeys = Map.empty, rtime = 0\<rparr>, wdb = demo_db, wlog = [], wfaults = []\<rparr>"

lemma demo_inv: "db_inv (\<lambda>p. 3) demo_db"
  by (simp add: db_inv_def demo_db_def orders_keyed_def stock_of_def ordered_quantity_def)

lemmas demo_simps = demo_db_def demo_req_def demo_world_def new_order_def status_created_def

lemmas tx_run_simps = go_simps place_order_tx_def tx_locked_def tx_write_def query_def exec_def
  select_stock_def select_by_request_def insert_order_def row_error_def utf8_length_def fits_int32_def update_sub_def set_stock_def

lemma demo_tx_run:
  "place_order_tx (Inr 9) (\<lambda>d. d) (\<lambda>d. d) demo_req demo_world =
     (Inr (new_order 9 demo_req),
      demo_world\<lparr>wdb := demo_db\<lparr>
        products := [1 \<mapsto> \<lparr>p_name = ''shoe'', p_stock = 1, p_version = 0\<rparr>],
        orders := [(new_order 9 demo_req)\<lparr>o_created := 50\<rparr>]\<rparr>\<rparr>)"
  by (simp add: tx_run_simps demo_simps)

theorem place_order_tx_atomic_witness:
  "sale 9 demo_req demo_db
     (wdb (snd (place_order_tx (Inr 9) (\<lambda>d. d) (\<lambda>d. d) demo_req demo_world)))"
  using place_order_tx_atomic [OF demo_tx_run refl]
  by (simp add: demo_tx_run) (simp add: demo_world_def demo_db_def)

text \<open>
  no oversell. If every other transaction keeps the invariant (unique keys, no negative
  stock, stock plus ordered quantity equal to what was offered) and leaves the locked row alone,
  \<open>PlaceOrderTx\<close> keeps it too, under every schedule of failing calls, and removes no order.
\<close>

theorem place_order_tx_never_oversells:
  assumes "db_inv offer (wdb w)" "env_ok offer env1" "env_ok offer env2"
    and "stock_of (env2 (env1 (wdb w))) (r_product req) = stock_of (env1 (wdb w)) (r_product req)"
  shows "db_inv offer (wdb (snd (place_order_tx nid env1 env2 req w)))
    \<and> set (orders (wdb w)) \<subseteq> set (orders (wdb (snd (place_order_tx nid env1 env2 req w))))"
  using place_order_tx_safe [OF assms] .

theorem place_order_tx_never_oversells_witness:
  "db_inv (\<lambda>p. 3) (wdb (snd (place_order_tx (Inr 9) (\<lambda>d. d) (\<lambda>d. d) demo_req demo_world)))
   \<and> stock_of (wdb (snd (place_order_tx (Inr 9) (\<lambda>d. d) (\<lambda>d. d) demo_req demo_world))) 1 = Some 1"
proof
  show "db_inv (\<lambda>p. 3) (wdb (snd (place_order_tx (Inr 9) (\<lambda>d. d) (\<lambda>d. d) demo_req demo_world)))"
    using place_order_tx_never_oversells [of "\<lambda>p. 3" demo_world "\<lambda>d. d" "\<lambda>d. d" demo_req "Inr 9"] demo_inv
    by (simp add: demo_world_def)
qed (simp add: demo_tx_run stock_of_def)

text \<open>
  idempotence. Once a call for a request has answered an order, any later call with the same
  request id writes nothing and, when it answers an order at all, answers the same one (same id,
  product, user and quantity).
\<close>

theorem place_order_tx_idempotent:
  assumes "place_order_tx nid env1 env2 req w = (Inr ord, w1)"
    and "db_inv offer (wdb w)" "env_ok offer env1" "env_ok offer env2"
    and "stock_of (env2 (env1 (wdb w))) (r_product req) = stock_of (env1 (wdb w)) (r_product req)"
    and "place_order_tx nid' env1' env2' (req'\<lparr>r_request := r_request req\<rparr>) w1 = (x, w2)"
  shows "wdb w2 = wdb w1 \<and>
    (\<forall>ord'. x = Inr ord' \<longrightarrow> ord'\<lparr>o_created := 0\<rparr> = ord\<lparr>o_created := 0\<rparr>)"
proof -
  have keyed: "orders_keyed (wdb w1)"
    using place_order_tx_safe [OF assms(2-5), of nid] assms(1) by (simp add: db_inv_def)
  obtain t where t: "ord\<lparr>o_created := t\<rparr> \<in> set (orders (wdb w1))" "o_request ord = r_request req"
  proof -
    from place_order_tx_cases [OF assms(1,5)]
    consider "ord \<in> set (orders (wdb w1))" "o_request ord = r_request req"
      | i where "sale i req (env2 (env1 (wdb w))) (wdb w1)" "ord = new_order i req"
      by auto
    then show thesis
    proof cases
      case 1
      then show thesis using that [of "o_created ord"] by simp
    next
      case 2
      then show thesis using that [of "db_now (env2 (env1 (wdb w)))"] by (auto simp: sale_def booked_def)
    qed
  qed
  then have "select_by_request (r_request (req'\<lparr>r_request := r_request req\<rparr>)) (wdb w1)
      = Inr (ord\<lparr>o_created := t\<rparr>)"
    using select_by_request_keyed [OF keyed t(1)] by simp
  from place_order_tx_replay [OF assms(6) this] show ?thesis by auto
qed

theorem place_order_tx_idempotent_witness:
  "\<exists>x w2. place_order_tx (Inr 10) (\<lambda>d. d) (\<lambda>d. d) (demo_req\<lparr>r_request := r_request demo_req\<rparr>)
       (snd (place_order_tx (Inr 9) (\<lambda>d. d) (\<lambda>d. d) demo_req demo_world)) = (Inr x, w2)
     \<and> o_id x = 9 \<and> stock_of (wdb w2) 1 = Some 1"
proof -
  let ?w1 = "snd (place_order_tx (Inr 9) (\<lambda>d. d) (\<lambda>d. d) demo_req demo_world)"
  have run: "\<exists>x. place_order_tx (Inr 10) (\<lambda>d. d) (\<lambda>d. d) (demo_req\<lparr>r_request := r_request demo_req\<rparr>) ?w1
      = (Inr x, ?w1)"
    by (simp add: demo_tx_run) (simp add: tx_run_simps demo_simps)
  then obtain x where x: "place_order_tx (Inr 10) (\<lambda>d. d) (\<lambda>d. d) (demo_req\<lparr>r_request := r_request demo_req\<rparr>) ?w1
      = (Inr x, ?w1)" by blast
  have "db_inv (\<lambda>p. 3) (wdb demo_world)" using demo_inv by (simp add: demo_world_def)
  from place_order_tx_idempotent [OF demo_tx_run this env_ok_id env_ok_id refl
      x [unfolded demo_tx_run snd_conv]]
  have "x\<lparr>o_created := 0\<rparr> = (new_order 9 demo_req)\<lparr>o_created := 0\<rparr>" by simp
  then have "o_id (x\<lparr>o_created := 0\<rparr>) = 9" by simp
  with x show ?thesis by (simp add: demo_tx_run stock_of_def)
qed

definition one_item_world :: world where
  "one_item_world = demo_world\<lparr>wdb := demo_db\<lparr>
     products := [1 \<mapsto> \<lparr>p_name = ''shoe'', p_stock = 1, p_version = 0\<rparr>]\<rparr>\<rparr>"

definition buy_one :: "string \<Rightarrow> place_req" where
  "buy_one rid = \<lparr>r_request = rid, r_product = 1, r_user = 7, r_quantity = 1\<rparr>"

text \<open>
  the naive path oversells. With one item in stock, a request that is checked while another
  request goes through between its check and its update also goes through: both are answered
  an order, two items are sold and the stored stock is \<open>-1\<close>.
\<close>

theorem place_order_naive_race_oversells:
  "\<exists>other x w'.
     (\<forall>d. other d = wdb (snd (place_order_naive 2 (\<lambda>d. d) (buy_one ''b'') (one_item_world\<lparr>wdb := d\<rparr>))))
   \<and> place_order_naive 1 other (buy_one ''a'') one_item_world = (Inr x, w')
   \<and> map o_request (orders (wdb w')) = [''b'', ''a'']
   \<and> stock_of (wdb w') 1 = Some (-1)"
  by (rule exI [of _ "\<lambda>d. wdb (snd (place_order_naive 2 (\<lambda>d. d) (buy_one ''b'')
        (one_item_world\<lparr>wdb := d\<rparr>)))"])
    (simp add: go_simps place_order_naive_def one_item_world_def demo_world_def demo_db_def
      buy_one_def query_def exec_def select_stock_def update_sub_def set_stock_def
      insert_order_def row_error_def utf8_length_def fits_int32_def new_order_def stock_of_def)

end
