(* ===== verification/Deduct.thy ===== *)
theory Deduct
  imports Orders
begin

text \<open>
  Package \<open>deduct\<close> (\<open>internal/deduct/\<close>), its first half: the keys and helpers of \<open>model.go\<close> and the
  two optimistic paths of \<open>optimistic.go\<close>. The distributed lock of \<open>lock.go\<close> is theory \<open>Lock\<close>, the
  Redis pre-deduction of \<open>prededuct.go\<close> is theory \<open>Prededuct\<close>.
\<close>

section \<open>Keys, warming, shared helpers (model.go)\<close>

definition max_cas_retries :: nat where "max_cas_retries = 10"

definition stock_key :: "int \<Rightarrow> string" where
  "stock_key p = ''seckill:stock:'' @ show_int p"

definition lock_key :: "int \<Rightarrow> string" where
  "lock_key p = ''seckill:lock:product:'' @ show_int p"

lemma stock_key_inj [simp]: "stock_key p = stock_key p' \<longleftrightarrow> p = p'"
  by (simp add: stock_key_def)

lemma lock_key_inj [simp]: "lock_key p = lock_key p' \<longleftrightarrow> p = p'"
  by (simp add: lock_key_def)

lemma stock_key_lock_key [simp]: "stock_key p \<noteq> lock_key p'" "lock_key p' \<noteq> stock_key p"
  by (simp_all add: stock_key_def lock_key_def)

definition warm_stock :: "int \<Rightarrow> world \<Rightarrow> (go_error + unit) \<times> world" where
  "warm_stock p w = (case on_db (query (select_stock p)) w of
       (Inl e, w1) \<Rightarrow> (Inl (if errors_is e SqlNoRows then OrderProductNotFound else e), w1)
     | (Inr stock, w1) \<Rightarrow> on_redis (redis_set (stock_key p) (RString (Num stock)) 0) w1)"

definition insert_order_tx :: "go_error + int \<Rightarrow> place_req \<Rightarrow> database \<Rightarrow> world
    \<Rightarrow> (go_error + order) \<times> database \<times> world" where
  "insert_order_tx nid req t w = (case nid of
       Inl e \<Rightarrow> (Inl e, t, w)
     | Inr i \<Rightarrow> (case on_tx (insert_order (new_order i req)) t w of
          (Inl e, t', w') \<Rightarrow> (Inl e, t', w')
        | (Inr _, t', w') \<Rightarrow> (Inr (new_order i req), t', w')))"

definition validate_request :: "place_req \<Rightarrow> go_error option" where
  "validate_request req = (if r_quantity req \<le> 0 then Some OrderInvalidQuantity else None)"

lemma insert_order_tx_Inr:
  "insert_order_tx nid req t w = (Inr ord, t', w') \<Longrightarrow> wredis w' = wredis w \<and> wlog w' = wlog w
     \<and> wdb w' = wdb w \<and> (\<exists>i. nid = Inr i \<and> ord = new_order i req
        \<and> insert_order (new_order i req) t = (Inr (), t'))"
  by (auto simp: insert_order_tx_def split: sum.splits prod.splits dest!: call_dests)

lemma insert_order_tx_Inl:
  "insert_order_tx nid req t w = (Inl e, t', w') \<Longrightarrow> wredis w' = wredis w \<and> wlog w' = wlog w
     \<and> wdb w' = wdb w \<and> t' = t"
  by (auto simp: insert_order_tx_def split: sum.splits prod.splits dest!: call_dests)

section \<open>Optimistic locking (optimistic.go)\<close>

definition select_stock_version :: "int \<Rightarrow> database \<Rightarrow> go_error + (int \<times> int)" where
  "select_stock_version p d = (case products d p of None \<Rightarrow> Inl SqlNoRows
     | Some row \<Rightarrow> Inr (p_stock row, p_version row))"

text \<open>
  One round of the version CAS. \<open>env\<close> is what others commit between the read and the update. The
  answer \<open>Inr None\<close> is the lost race, after which the loop goes on.
\<close>

definition cas_attempt :: "go_error + int \<Rightarrow> (database \<Rightarrow> database) \<Rightarrow> place_req \<Rightarrow> world
    \<Rightarrow> (go_error + order option) \<times> world" where
  "cas_attempt nid env req w =
     (case begin_tx w of
        (Inl e, w1) \<Rightarrow> (Inl e, w1)
      | (Inr t, w1) \<Rightarrow>
        (case on_tx (query (select_stock_version (r_product req))) t w1 of
           (Inl e, _, w2) \<Rightarrow>
             (Inl (if errors_is e SqlNoRows then OrderProductNotFound else e), w2)
         | (Inr (stock, version), _, w2) \<Rightarrow>
           (if stock < r_quantity req then (Inl OrderInsufficientStock, w2)
            else let w2' = w2\<lparr>wdb := env (wdb w2)\<rparr> in
             (case on_tx (exec (update_sub_if_version (r_product req) (r_quantity req) version))
                    (wdb w2') w2' of
                (Inl e, _, w3) \<Rightarrow> (Inl e, w3)
              | (Inr rows, t3, w3) \<Rightarrow>
                (if rows = 0 then (Inr None, w3)
                 else (case insert_order_tx nid req t3 w3 of
                     (Inl e, _, w4) \<Rightarrow> (Inl e, w4)
                   | (Inr ord, t4, w4) \<Rightarrow>
                     (case commit_tx t4 w4 of
                        (Inl e, w5) \<Rightarrow> (Inl e, w5)
                      | (Inr _, w5) \<Rightarrow> (Inr (Some ord), w5))))))))"

text \<open>The loop: \<open>n\<close> rounds are left, \<open>k\<close> is the number of the next one.\<close>

fun cas_loop :: "nat \<Rightarrow> nat \<Rightarrow> go_error + int \<Rightarrow> (nat \<Rightarrow> database \<Rightarrow> database) \<Rightarrow> place_req \<Rightarrow> world
    \<Rightarrow> ((go_error + order) \<times> nat) \<times> world" where
  "cas_loop 0 k nid env req w = ((Inl CASRetriesExhausted, max_cas_retries), w)"
| "cas_loop (Suc n) k nid env req w =
     (case cas_attempt nid (env k) req w of
        (Inl e, w') \<Rightarrow> ((Inl e, k), w')
      | (Inr (Some ord), w') \<Rightarrow> ((Inr ord, k), w')
      | (Inr None, w') \<Rightarrow> cas_loop n (Suc k) nid env req w')"

definition place_order_by_version_cas :: "go_error + int \<Rightarrow> (nat \<Rightarrow> database \<Rightarrow> database) \<Rightarrow> place_req
    \<Rightarrow> world \<Rightarrow> ((go_error + order) \<times> nat) \<times> world" where
  "place_order_by_version_cas nid env req w =
     (case validate_request req of
        Some e \<Rightarrow> ((Inl e, 0), w)
      | None \<Rightarrow> cas_loop max_cas_retries 1 nid env req w)"

definition place_order_by_conditional_update :: "go_error + int \<Rightarrow> place_req \<Rightarrow> world
    \<Rightarrow> (go_error + order) \<times> world" where
  "place_order_by_conditional_update nid req w =
     (case validate_request req of
        Some e \<Rightarrow> (Inl e, w)
      | None \<Rightarrow>
        (case begin_tx w of
           (Inl e, w1) \<Rightarrow> (Inl e, w1)
         | (Inr t, w1) \<Rightarrow>
           (case on_tx (exec (update_sub_if_enough (r_product req) (r_quantity req))) t w1 of
              (Inl e, _, w2) \<Rightarrow> (Inl e, w2)
            | (Inr rows, t2, w2) \<Rightarrow>
              (if rows = 0 then (Inl OrderInsufficientStock, w2)
               else (case insert_order_tx nid req t2 w2 of
                   (Inl e, _, w3) \<Rightarrow> (Inl e, w3)
                 | (Inr ord, t3, w3) \<Rightarrow>
                   (case commit_tx t3 w3 of
                      (Inl e, w4) \<Rightarrow> (Inl e, w4)
                    | (Inr _, w4) \<Rightarrow> (Inr ord, w4)))))))"

subsection \<open>What the two updates guarantee\<close>

lemma update_if_enough_effect:
  assumes "update_sub_if_enough p q d = (k, d')" "0 < q"
  shows "k = 0 \<and> d' = d \<and> (\<forall>n. stock_of d p = Some n \<longrightarrow> n < q)
    \<or> k = 1 \<and> (\<exists>n. stock_of d p = Some n \<and> q \<le> n) \<and> orders d' = orders d \<and> db_now d' = db_now d
      \<and> (\<forall>p'. stock_of d' p' = (if p' = p then map_option (\<lambda>n. n - q) (stock_of d p') else stock_of d p'))"
  using assms by (auto simp: update_sub_if_enough_def split: option.splits if_splits)
    (auto simp: stock_of_def)

text \<open>
  The CAS update changes a row only in the version it was read in. \<open>versioned p d d'\<close> is the rule
  that makes this a guard for the stock: whoever changes the stock of \<open>p\<close> moves its version.
\<close>

definition version_of :: "database \<Rightarrow> int \<Rightarrow> int option" where
  "version_of d p = map_option p_version (products d p)"

definition versioned :: "int \<Rightarrow> database \<Rightarrow> database \<Rightarrow> bool" where
  "versioned p d d' \<longleftrightarrow> version_of d' p = version_of d p \<longrightarrow> stock_of d' p = stock_of d p"

lemma update_if_version_effect:
  assumes "update_sub_if_version p q v d = (k, d')"
  shows "k = 0 \<and> d' = d \<and> version_of d p \<noteq> Some v
    \<or> k = 1 \<and> version_of d p = Some v \<and> version_of d' p = Some (v + 1)
      \<and> orders d' = orders d \<and> db_now d' = db_now d
      \<and> (\<forall>p'. stock_of d' p' = (if p' = p then map_option (\<lambda>n. n - q) (stock_of d p') else stock_of d p'))"
  using assms by (auto simp: update_sub_if_version_def version_of_def split: option.splits if_splits)
    (auto simp: stock_of_def set_stock_def)

lemma select_stock_version_Inr:
  "select_stock_version p d = Inr (n, v) \<longleftrightarrow> stock_of d p = Some n \<and> version_of d p = Some v"
  by (auto simp: select_stock_version_def stock_of_def version_of_def split: option.splits)

text \<open>
  One CAS round, with others that move the version whenever they move the stock: the database is
  the others', or theirs plus one sale. The race is lost only if the version moved.
\<close>

lemma cas_attempt_cases:
  assumes "cas_attempt nid env req w = (x, w')" "versioned (r_product req) (wdb w) (env (wdb w))"
  shows "wredis w' = wredis w \<and> wlog w' = wlog w \<and>
    (wdb w' \<in> {wdb w, env (wdb w)} \<and> (\<forall>ord. x \<noteq> Inr (Some ord))
     \<or> (\<exists>i. nid = Inr i \<and> sale i req (env (wdb w)) (wdb w') \<and>
          (x = Inr (Some (new_order i req)) \<or> (\<exists>e. x = Inl (net_err e)))))"
proof -
  have sale: "sale i req (env (wdb w)) t4"
    if "update_sub_if_version (r_product req) (r_quantity req) v (env (wdb w)) = (k, t3)" "0 < k"
      "insert_order (new_order i req) t3 = (Inr (), t4)"
      "stock_of (wdb w) (r_product req) = Some n" "version_of (wdb w) (r_product req) = Some v"
      "\<not> n < r_quantity req" for i v k t3 t4 n
    using update_if_version_effect [OF that(1)] that assms(2)
      stock_insert_booked [OF that(3), of "env (wdb w)"]
    by (auto simp: versioned_def sale_def)
  show ?thesis
    using assms(1)
    by (auto simp: cas_attempt_def Let_def select_stock_version_Inr
        split: prod.splits sum.splits if_splits
        dest!: call_dests insert_order_tx_Inr insert_order_tx_Inl intro: sale)
qed

lemma conditional_cases:
  assumes "place_order_by_conditional_update nid req w = (x, w')"
  shows "wredis w' = wredis w \<and> wlog w' = wlog w \<and>
    (wdb w' = wdb w \<and> (\<forall>ord. x \<noteq> Inr ord)
     \<or> (\<exists>i. nid = Inr i \<and> sale i req (wdb w) (wdb w') \<and>
          (x = Inr (new_order i req) \<or> (\<exists>e. x = Inl (net_err e)))))"
proof -
  have sale: "sale i req (wdb w) t4"
    if "update_sub_if_enough (r_product req) (r_quantity req) (wdb w) = (k, t3)" "0 < k"
      "insert_order (new_order i req) t3 = (Inr (), t4)" "\<not> r_quantity req \<le> 0" for i k t3 t4
    using update_if_enough_effect [OF that(1)] that stock_insert_booked [OF that(3), of "wdb w"]
    by (auto simp: sale_def)
  show ?thesis
    using assms
    by (auto simp: place_order_by_conditional_update_def validate_request_def
        split: prod.splits sum.splits if_splits
        dest!: call_dests insert_order_tx_Inr insert_order_tx_Inl intro: sale)
qed

subsection \<open>The retry loop\<close>

lemma cas_loop_attempts:
  "cas_loop n k nid env req w = ((x, a), w') \<Longrightarrow> n + k = Suc max_cas_retries \<Longrightarrow> 0 < k \<Longrightarrow>
   1 \<le> a \<and> a \<le> max_cas_retries"
  by (induction n k nid env req w arbitrary: x a w' rule: cas_loop.induct)
    (auto simp: max_cas_retries_def split: prod.splits sum.splits option.splits)

lemma cas_loop_safe:
  assumes "cas_loop n k nid env req w = ((x, a), w')" "db_inv offer (wdb w)"
    and "\<forall>j. env_ok offer (env j)" "\<forall>j d. versioned (r_product req) d (env j d)"
  shows "db_inv offer (wdb w') \<and> wredis w' = wredis w \<and>
    (\<forall>ord. x = Inr ord \<longrightarrow> (\<exists>i t. nid = Inr i \<and> ord = new_order i req
        \<and> ord\<lparr>o_created := t\<rparr> \<in> set (orders (wdb w'))))"
  using assms
proof (induction n k nid env req w arbitrary: x a w' rule: cas_loop.induct)
  case (2 n k nid env req w)
  obtain y w1 where att: "cas_attempt nid (env k) req w = (y, w1)" by fastforce
  have ver: "versioned (r_product req) (wdb w) (env k (wdb w))" using "2.prems"(4) by blast
  note cases = cas_attempt_cases [OF att ver]
  have env: "db_inv offer (env k (wdb w))" using "2.prems"(2,3) by (simp add: env_ok_def)
  have inv: "db_inv offer (wdb w1)"
    using cases env "2.prems"(2) sale_db_inv [of _ req _ _ offer] by auto
  have row: "\<exists>i t. nid = Inr i \<and> ord = new_order i req \<and> ord\<lparr>o_created := t\<rparr> \<in> set (orders (wdb w1))"
    if "y = Inr (Some ord)" for ord
    using cases that by (auto simp: sale_def booked_def)
  show ?case
  proof (cases "y = Inr None")
    case True
    then have "cas_loop n (Suc k) nid env req w1 = ((x, a), w')" using "2.prems"(1) att by simp
    from "2.IH" [OF att [symmetric] True refl this inv "2.prems"(3,4)] cases show ?thesis by auto
  next
    case False
    then show ?thesis
      using "2.prems"(1) att inv row cases by (auto split: sum.splits option.splits)
  qed
qed auto

text \<open>
  C23: the version CAS never oversells among paths that move the version. If what the others commit
  keeps the invariant and moves the version of the product whenever it moves its stock, a call
  keeps the invariant, leaves Redis alone, makes between 1 and \<open>MaxCASRetries\<close> attempts once the
  quantity is valid, and an order it answers is stored.
\<close>

theorem version_cas_never_oversells:
  assumes "db_inv offer (wdb w)" "0 < r_quantity req"
    and "\<forall>j. env_ok offer (env j)" "\<forall>j d. versioned (r_product req) d (env j d)"
    and "place_order_by_version_cas nid env req w = ((x, a), w')"
  shows "db_inv offer (wdb w') \<and> wredis w' = wredis w \<and> 1 \<le> a \<and> a \<le> max_cas_retries
    \<and> (\<forall>ord. x = Inr ord \<longrightarrow> (\<exists>t. ord\<lparr>o_created := t\<rparr> \<in> set (orders (wdb w'))))"
proof -
  have run: "cas_loop max_cas_retries 1 nid env req w = ((x, a), w')"
    using assms(2,5) by (simp add: place_order_by_version_cas_def validate_request_def)
  show ?thesis
    using cas_loop_safe [OF run assms(1,3,4)] cas_loop_attempts [OF run] by auto
qed

lemmas cas_run_simps = go_simps place_order_by_version_cas_def cas_attempt_def
  place_order_by_conditional_update_def insert_order_tx_def validate_request_def max_cas_retries_def
  select_stock_version_def update_sub_if_version_def update_sub_if_enough_def query_def exec_def
  set_stock_def insert_order_def row_error_def utf8_length_def fits_int32_def numeral_eq_Suc

lemma versioned_id: "versioned p d d"
  by (simp add: versioned_def)

lemma demo_cas_run:
  "\<exists>w'. place_order_by_version_cas (Inr 9) (\<lambda>_ d. d) demo_req demo_world
     = ((Inr (new_order 9 demo_req), 1), w') \<and> stock_of (wdb w') 1 = Some 1"
  by (simp add: cas_run_simps demo_simps stock_of_def)

theorem version_cas_never_oversells_witness:
  "\<exists>x w'. place_order_by_version_cas (Inr 9) (\<lambda>_ d. d) demo_req demo_world = ((Inr x, 1), w')
     \<and> db_inv (\<lambda>p. 3) (wdb w') \<and> stock_of (wdb w') 1 = Some 1"
proof -
  obtain w' where run: "place_order_by_version_cas (Inr 9) (\<lambda>_ d. d) demo_req demo_world
     = ((Inr (new_order 9 demo_req), 1), w')" and st: "stock_of (wdb w') 1 = Some 1"
    using demo_cas_run by blast
  have "db_inv (\<lambda>p. 3) (wdb demo_world)" "0 < r_quantity demo_req"
    using demo_inv by (simp_all add: demo_world_def demo_req_def)
  from version_cas_never_oversells [OF this _ _ run] run st show ?thesis
    by (simp add: versioned_id)
qed

lemma cas_attempt_lost:
  assumes "wfaults w = []" "select_stock_version (r_product req) (wdb w) = Inr (n, v)"
    "r_quantity req \<le> n" "version_of (env (wdb w)) (r_product req) = Some v'" "v' \<noteq> v"
  shows "cas_attempt nid env req w = (Inr None, w\<lparr>wdb := env (wdb w)\<rparr>)"
proof -
  obtain row where "products (env (wdb w)) (r_product req) = Some row" "p_version row = v'"
    using assms(4) by (auto simp: version_of_def)
  then show ?thesis
    using assms by (simp add: cas_attempt_def go_simps query_def exec_def update_sub_if_version_def)
qed

fun others_only :: "nat \<Rightarrow> nat \<Rightarrow> (nat \<Rightarrow> database \<Rightarrow> database) \<Rightarrow> database \<Rightarrow> database" where
  "others_only 0 k env d = d"
| "others_only (Suc n) k env d = others_only n (Suc k) env (env k d)"

lemma cas_loop_lost:
  assumes "wfaults w = []"
    and "\<forall>j d n v. select_stock_version p d = Inr (n, v) \<longrightarrow> q \<le> n \<longrightarrow>
       (\<exists>n' v'. select_stock_version p (env j d) = Inr (n', v') \<and> q \<le> n' \<and> v' \<noteq> v)"
    and "select_stock_version p (wdb w) = Inr (n0, v0)" "q \<le> n0"
    and "r_product req = p" "r_quantity req = q"
  shows "cas_loop m k nid env req w
    = ((Inl CASRetriesExhausted, max_cas_retries), w\<lparr>wdb := others_only m k env (wdb w)\<rparr>)"
  using assms
proof (induction m arbitrary: k w n0 v0)
  case (Suc m)
  obtain n' v' where e: "select_stock_version p (env k (wdb w)) = Inr (n', v')" "q \<le> n'" "v' \<noteq> v0"
    using Suc.prems(2-4) by blast
  have "cas_attempt nid (env k) req w = (Inr None, w\<lparr>wdb := env k (wdb w)\<rparr>)"
    using cas_attempt_lost [of w req n0 v0 "env k" v'] Suc.prems e
    by (simp add: select_stock_version_Inr)
  moreover have "cas_loop m (Suc k) nid env req (w\<lparr>wdb := env k (wdb w)\<rparr>)
    = ((Inl CASRetriesExhausted, max_cas_retries),
       (w\<lparr>wdb := env k (wdb w)\<rparr>)\<lparr>wdb := others_only m (Suc k) env (env k (wdb w))\<rparr>)"
    using Suc.IH [of "w\<lparr>wdb := env k (wdb w)\<rparr>" n' v' "Suc k"] Suc.prems e by simp
  ultimately show ?case by simp
qed simp

text \<open>
  C35: the loop gives up. When the calls answer and the others move the version between every read
  and update while stock is left, the call ends after exactly \<open>MaxCASRetries\<close> rounds with
  \<open>ErrCASRetriesExhausted\<close>, having only let the others' commits happen: no order of its own.
\<close>

theorem version_cas_exhausts:
  assumes "wfaults w = []" "0 < r_quantity req"
    and "\<forall>j d n v. select_stock_version (r_product req) d = Inr (n, v) \<longrightarrow> r_quantity req \<le> n \<longrightarrow>
       (\<exists>n' v'. select_stock_version (r_product req) (env j d) = Inr (n', v')
          \<and> r_quantity req \<le> n' \<and> v' \<noteq> v)"
    and "select_stock_version (r_product req) (wdb w) = Inr (n0, v0)" "r_quantity req \<le> n0"
  shows "place_order_by_version_cas nid env req w = ((Inl CASRetriesExhausted, max_cas_retries),
    w\<lparr>wdb := others_only max_cas_retries 1 env (wdb w)\<rparr>)"
  using cas_loop_lost [OF assms(1,3-5) refl refl, of max_cas_retries 1 nid] assms(2)
  by (simp add: place_order_by_version_cas_def validate_request_def)

text \<open>Others that only move the version of product 1.\<close>

definition bump_version :: "database \<Rightarrow> database" where
  "bump_version d = (case products d 1 of None \<Rightarrow> d
     | Some row \<Rightarrow> set_stock 1 (row\<lparr>p_version := p_version row + 1\<rparr>) d)"

theorem version_cas_exhausts_witness:
  "fst (place_order_by_version_cas (Inr 9) (\<lambda>_. bump_version) demo_req demo_world)
     = (Inl CASRetriesExhausted, 10)"
proof -
  have bump: "\<forall>j d n v. select_stock_version (r_product demo_req) d = Inr (n, v) \<longrightarrow>
     r_quantity demo_req \<le> n \<longrightarrow>
     (\<exists>n' v'. select_stock_version (r_product demo_req) ((\<lambda>_. bump_version) j d) = Inr (n', v')
        \<and> r_quantity demo_req \<le> n' \<and> v' \<noteq> v)"
    by (auto simp: bump_version_def select_stock_version_def demo_req_def set_stock_def
        split: option.splits)
  show ?thesis
    using version_cas_exhausts [OF _ _ bump, of demo_world 3 0 "Inr 9"]
    by (simp add: demo_world_def demo_db_def demo_req_def select_stock_version_def max_cas_retries_def)
qed

text \<open>
  the version CAS is no guard against the program's own other paths. The conditional update
  lowers the stock and leaves the version, so a CAS call whose read is followed by one of them
  still finds its version: both orders are stored and the stock of one item ends at \<open>-1\<close>.
\<close>

theorem cas_and_conditional_oversell:
  "\<exists>other x w'.
     (\<forall>d. other d = wdb (snd (place_order_by_conditional_update (Inr 2) (buy_one ''b'')
             (one_item_world\<lparr>wdb := d\<rparr>))))
   \<and> place_order_by_version_cas (Inr 1) (\<lambda>_. other) (buy_one ''a'') one_item_world = ((Inr x, 1), w')
   \<and> map o_request (orders (wdb w')) = [''b'', ''a'']
   \<and> stock_of (wdb w') 1 = Some (-1)"
  by (rule exI [of _ "\<lambda>d. wdb (snd (place_order_by_conditional_update (Inr 2) (buy_one ''b'')
        (one_item_world\<lparr>wdb := d\<rparr>)))"])
    (simp add: cas_run_simps one_item_world_def demo_world_def demo_db_def buy_one_def
      new_order_def stock_of_def)

text \<open>
  the conditional update is all or nothing and never oversells: under every schedule of
  failing calls the database is unchanged or gets exactly one sale of stock that was there, an
  answered order is that sale, and the invariant is kept.
\<close>

theorem conditional_update_atomic:
  assumes "place_order_by_conditional_update nid req w = (x, w')"
  shows "(wdb w' = wdb w \<and> (\<forall>ord. x \<noteq> Inr ord)
     \<or> (\<exists>i. nid = Inr i \<and> sale i req (wdb w) (wdb w') \<and>
          (x = Inr (new_order i req) \<or> (\<exists>e. x = Inl (net_err e)))))
    \<and> (db_inv offer (wdb w) \<longrightarrow> db_inv offer (wdb w')) \<and> wredis w' = wredis w"
proof -
  have "db_inv offer (wdb w')" if "db_inv offer (wdb w)"
    using conditional_cases [OF assms] sale_db_inv that by fastforce
  then show ?thesis using conditional_cases [OF assms] by simp
qed

theorem conditional_update_atomic_witness:
  "\<exists>x w'. place_order_by_conditional_update (Inr 9) demo_req demo_world = (Inr x, w')
     \<and> db_inv (\<lambda>p. 3) (wdb w') \<and> stock_of (wdb w') 1 = Some 1"
proof -
  obtain x w' where run: "place_order_by_conditional_update (Inr 9) demo_req demo_world = (Inr x, w')"
    and st: "stock_of (wdb w') 1 = Some 1"
    by (simp add: cas_run_simps demo_simps stock_of_def)
  moreover have "db_inv (\<lambda>p. 3) (wdb demo_world)" using demo_inv by (simp add: demo_world_def)
  ultimately show ?thesis using conditional_update_atomic [OF run, of "\<lambda>p. 3"] by auto
qed

end
