(* ===== verification/Gated_Path.thy ===== *)
theory Gated_Path
  imports Deduct
begin

text \<open>
  What \<open>PlaceOrderWithPreDeduct\<close> (\<open>internal/deduct/prededuct.go\<close>) and \<open>PlaceOrderWithBucketDeduct\<close>
  (\<open>internal/bucket/model.go\<close>) have in common: a deduction at a gate in Redis, the same transaction
  on the database, and a compensation when the transaction fails. The locale \<open>gated_path\<close> states
  what the path needs of its gate, and proves once that such a path never sells more than there
  is, beside anything else that keeps the same invariant. The two packages interpret it.
\<close>

section \<open>The transaction\<close>

text \<open>
  The transaction after the deduction: it subtracts the stock without a check (the gate was the
  check), inserts the row and commits. Each of its failures is followed by the compensation.
\<close>

definition prededuct_store :: "go_error + int \<Rightarrow> place_req \<Rightarrow> world \<Rightarrow> (go_error + order) \<times> world" where
  "prededuct_store nid req w =
     (case begin_tx w of
        (Inl e, w1) \<Rightarrow> (Inl e, w1)
      | (Inr t, w1) \<Rightarrow>
        (case on_tx (exec (update_sub (r_product req) (r_quantity req))) t w1 of
           (Inl e, _, w2) \<Rightarrow> (Inl e, w2)
         | (Inr _, t2, w2) \<Rightarrow>
           (case insert_order_tx nid req t2 w2 of
              (Inl e, _, w3) \<Rightarrow> (Inl e, w3)
            | (Inr ord, t3, w3) \<Rightarrow>
              (case commit_tx t3 w3 of
                 (Inl e, w4) \<Rightarrow> (Inl e, w4)
               | (Inr _, w4) \<Rightarrow> (Inr ord, w4)))))"

section \<open>What the transaction does\<close>

lemma insert_order_tx_clean:
  "insert_order_tx nid req t w = (x, t', w') \<Longrightarrow> clean w \<Longrightarrow> clean w' \<and> wdb w' = wdb w"
  by (auto simp: insert_order_tx_def split: sum.splits prod.splits dest: on_tx_clean)

text \<open>The store books the order or leaves the database; a commit whose answer is lost does both.\<close>

lemma prededuct_store_cases:
  assumes "prededuct_store nid req w = (x, w')"
  shows "wredis w' = wredis w \<and> wlog w' = wlog w \<and>
    (wdb w' = wdb w \<and> (\<exists>e. x = Inl e)
     \<or> (\<exists>i. nid = Inr i \<and> booked i req (wdb w) (wdb w') \<and>
          (x = Inr (new_order i req) \<or> (\<exists>e. x = Inl (net_err e)))))"
proof -
  have bk: "booked i req (wdb w) t3"
    if "update_sub (r_product req) (r_quantity req) (wdb w) = (k, t2)"
      "insert_order (new_order i req) t2 = (Inr (), t3)" for i k t2 t3
    using stock_insert_booked [OF that(2)] update_sub_effect [OF that(1)] by simp
  show ?thesis
    using assms
    by (auto simp: prededuct_store_def split: prod.splits sum.splits
        dest!: call_dests insert_order_tx_Inr insert_order_tx_Inl intro: bk)
qed

lemma prededuct_store_clean:
  assumes "prededuct_store nid req w = (x, w')" "clean w"
  shows "clean w' \<and> (\<forall>e. x = Inl e \<longrightarrow> wdb w' = wdb w)"
proof -
  obtain x1 w1 where b: "begin_tx w = (x1, w1)" by fastforce
  obtain x2 t2 w2 where u: "on_tx (exec (update_sub (r_product req) (r_quantity req))) (wdb w) w1 = (x2, t2, w2)"
    by (metis prod_cases3)
  obtain x3 t3 w3 where i: "insert_order_tx nid req t2 w2 = (x3, t3, w3)" by (metis prod_cases3)
  obtain x4 w4 where c: "commit_tx t3 w3 = (x4, w4)" by fastforce
  note b' = begin_tx_clean [OF b assms(2)]
  note u' = on_tx_clean [OF u conjunct1 [OF b']]
  note i' = insert_order_tx_clean [OF i conjunct1 [OF u']]
  note c' = commit_tx_clean [OF c conjunct1 [OF i']]
  have "x1 = Inr t \<Longrightarrow> t = wdb w" for t using begin_tx_cases [OF b] by auto
  then show ?thesis
    using assms(1) b u i c b' u' i' c'
    by (auto simp: prededuct_store_def split: sum.splits)
qed

lemma prededuct_store_calm:
  assumes "prededuct_store nid req w = (x, w')" "calm w"
  shows "calm w'"
proof -
  obtain x1 w1 where b: "begin_tx w = (x1, w1)" by fastforce
  obtain x2 t2 w2 where u: "on_tx (exec (update_sub (r_product req) (r_quantity req))) (wdb w) w1 = (x2, t2, w2)"
    by (metis prod_cases3)
  note b' = begin_tx_calm [OF b assms(2)]
  note u' = on_tx_calm [OF u conjunct2 [OF b']]
  show ?thesis
    using assms(1) b u b' u'
    by (auto simp: prededuct_store_def insert_order_tx_def split: sum.splits prod.splits
        dest: on_tx_calm commit_tx_calm)
qed

lemma prededuct_store_one_loss:
  assumes "prededuct_store nid req w = (x, w')" "one_loss w" "nid = Inr i"
    and "i \<notin> o_id ` set (orders (wdb w))" "r_request req \<notin> o_request ` set (orders (wdb w))" "row_error (new_order i req) = None"
  shows "(\<exists>e. x = Inl e) \<longrightarrow> calm w'"
proof -
  obtain x1 w1 where b: "begin_tx w = (x1, w1)" by fastforce
  obtain x2 t2 w2 where u: "on_tx (exec (update_sub (r_product req) (r_quantity req))) (wdb w) w1 = (x2, t2, w2)"
    by (metis prod_cases3)
  obtain x3 t3 w3 where i: "on_tx (insert_order (new_order i req)) t2 w2 = (x3, t3, w3)" by (metis prod_cases3)
  obtain x4 w4 where c: "commit_tx t3 w3 = (x4, w4)" by fastforce
  note b' = begin_tx_one_loss [OF b assms(2)]
  have up: "orders t = orders (wdb w)" if "update_sub (r_product req) (r_quantity req) (wdb w) = (k, t)" for k t
    using update_sub_effect [OF that] by simp
  have ins: "fst (insert_order (new_order i req) t) = Inr ()" if "orders t = orders (wdb w)" for t
    using assms(4-6) that by (simp add: insert_order_ok)
  show ?thesis
    using assms(1,3) b u i c b' on_tx_one_loss [OF u] on_tx_one_loss [OF i] commit_tx_one_loss [OF c]
    by (auto simp: prededuct_store_def insert_order_tx_def exec_def split: sum.splits prod.splits
        dest: up) (use ins up in \<open>metis fst_conv prod.collapse Inl_Inr_False\<close>)+
qed

section \<open>The path and its invariant\<close>

text \<open>
  The path, over its gate: \<open>grab\<close> answers a ticket, \<open>undo\<close> compensates with it. \<open>env\<close> is what others
  do to both stores between the deduction and the transaction.
\<close>

definition gated_run :: "(place_req \<Rightarrow> world \<Rightarrow> (go_error + 't) \<times> world)
    \<Rightarrow> (place_req \<Rightarrow> 't \<Rightarrow> world \<Rightarrow> world) \<Rightarrow> go_error + int \<Rightarrow> (world \<Rightarrow> world) \<Rightarrow> place_req \<Rightarrow> world
    \<Rightarrow> (go_error + order) \<times> world" where
  "gated_run grab undo nid env req w =
     (case validate_request req of
        Some e \<Rightarrow> (Inl e, w)
      | None \<Rightarrow>
        (case grab req w of
           (Inl e, w1) \<Rightarrow> (Inl e, w1)
         | (Inr t, w1) \<Rightarrow>
           (case prededuct_store nid req (env w1) of
              (Inl e, w2) \<Rightarrow> (Inl e, undo req t w2)
            | (Inr ord, w2) \<Rightarrow> (Inr ord, w2))))"

text \<open>
  \<open>gate_inv level offer D w\<close>: for every product, what the gate still lets through plus \<open>D\<close>, the
  quantity deducted for orders still under way, is covered by the stock of the database; and the
  database has sold no more than was offered. \<open>gate_env\<close> is what everyone who uses the stores has to
  keep, whatever else is under way.
\<close>

definition db_stock :: "world \<Rightarrow> int \<Rightarrow> int" where
  "db_stock w p = (case stock_of (wdb w) p of Some n \<Rightarrow> n | None \<Rightarrow> 0)"

definition gate_inv :: "(redis \<Rightarrow> int \<Rightarrow> int) \<Rightarrow> (int \<Rightarrow> int) \<Rightarrow> (int \<Rightarrow> int) \<Rightarrow> world \<Rightarrow> bool" where
  "gate_inv level offer D w \<longleftrightarrow> clean w \<and> db_inv offer (wdb w)
     \<and> (\<forall>p. level (wredis w) p + D p \<le> db_stock w p)"

definition gate_env :: "(redis \<Rightarrow> int \<Rightarrow> int) \<Rightarrow> (int \<Rightarrow> int) \<Rightarrow> (world \<Rightarrow> world) \<Rightarrow> bool" where
  "gate_env level offer env \<longleftrightarrow>
     (\<forall>D w. (\<forall>p. 0 \<le> D p) \<longrightarrow> gate_inv level offer D w \<longrightarrow> gate_inv level offer D (env w))"

lemma gate_env_id [simp]: "gate_env level offer (\<lambda>w. w)"
  by (simp add: gate_env_def)

lemma gate_env_run:
  "gate_env level offer f \<Longrightarrow> gate_inv level offer (\<lambda>p. 0) w \<Longrightarrow> gate_inv level offer (\<lambda>p. 0) (f w)"
  by (simp add: gate_env_def)

section \<open>The interface of a gate\<close>

locale gated_path =
  fixes level :: "redis \<Rightarrow> int \<Rightarrow> int"
    and grab :: "place_req \<Rightarrow> world \<Rightarrow> (go_error + 't) \<times> world"
    and undo :: "place_req \<Rightarrow> 't \<Rightarrow> world \<Rightarrow> world"
  assumes level_nonneg: "0 \<le> level r p"
    and grab_law: "clean w \<Longrightarrow> 0 < r_quantity req \<Longrightarrow> grab req w = (x, w') \<Longrightarrow>
      clean w' \<and> wdb w' = wdb w \<and> (\<forall>p. level (wredis w') p
        + (if p = r_product req \<and> (\<exists>t. x = Inr t) then r_quantity req else 0) \<le> level (wredis w) p)"
    and undo_law: "clean w \<Longrightarrow> 0 < r_quantity req \<Longrightarrow>
      clean (undo req t w) \<and> wdb (undo req t w) = wdb w
      \<and> (\<forall>p. level (wredis (undo req t w)) p
            \<le> level (wredis w) p + (if p = r_product req then r_quantity req else 0))"
begin

lemma grab_gate:
  assumes "grab req w = (x, w')" "0 < r_quantity req" "gate_inv level offer D w"
  shows "case x of Inl _ \<Rightarrow> gate_inv level offer D w'
     | Inr _ \<Rightarrow> gate_inv level offer (D(r_product req := D (r_product req) + r_quantity req)) w'"
proof -
  have cl: "clean w" using assms(3) by (simp add: gate_inv_def)
  note g = grab_law [OF cl assms(2,1)]
  then have db: "db_stock w' p = db_stock w p" for p by (simp add: db_stock_def)
  have "level (wredis w') p + D p + (if p = r_product req \<and> (\<exists>t. x = Inr t) then r_quantity req else 0)
      \<le> db_stock w' p" for p
  proof -
    have "level (wredis w') p + (if p = r_product req \<and> (\<exists>t. x = Inr t) then r_quantity req else 0)
        \<le> level (wredis w) p" using g by blast
    moreover have "level (wredis w) p + D p \<le> db_stock w p" using assms(3) by (simp add: gate_inv_def)
    ultimately show ?thesis using db [of p] by linarith
  qed
  note lv = this
  show ?thesis
  proof (cases x)
    case (Inl e)
    have "level (wredis w') p + D p \<le> db_stock w' p" for p using lv [of p] Inl by simp
    then show ?thesis using Inl g assms(3) by (simp add: gate_inv_def)
  next
    case (Inr t)
    have "level (wredis w') p + (D(r_product req := D (r_product req) + r_quantity req)) p \<le> db_stock w' p" for p
      using lv [of p] Inr by (cases "p = r_product req") simp_all
    then show ?thesis using Inr g assms(3) unfolding gate_inv_def by simp
  qed
qed

lemma undo_gate:
  assumes "0 < r_quantity req"
    and "gate_inv level offer (D(r_product req := D (r_product req) + r_quantity req)) w"
  shows "gate_inv level offer D (undo req t w)"
proof -
  have cl: "clean w" using assms(2) by (simp add: gate_inv_def)
  note u = undo_law [OF cl assms(1), of t]
  then have db: "db_stock (undo req t w) p = db_stock w p" for p by (simp add: db_stock_def)
  have "level (wredis (undo req t w)) p + D p \<le> db_stock (undo req t w) p" for p
  proof -
    have "level (wredis w) p + (D(r_product req := D (r_product req) + r_quantity req)) p \<le> db_stock w p"
      using assms(2) unfolding gate_inv_def by blast
    moreover have "level (wredis (undo req t w)) p
        \<le> level (wredis w) p + (if p = r_product req then r_quantity req else 0)"
      using u by blast
    ultimately show ?thesis unfolding db by (cases "p = r_product req") simp_all
  qed
  then show ?thesis using u assms(2) by (simp add: gate_inv_def)
qed

lemma store_gate:
  assumes "prededuct_store nid req w = (x, w')" "0 < r_quantity req" "\<forall>p. 0 \<le> D p"
    and "gate_inv level offer (D(r_product req := D (r_product req) + r_quantity req)) w"
  shows "case x of Inl _ \<Rightarrow> gate_inv level offer (D(r_product req := D (r_product req) + r_quantity req)) w'
     | Inr _ \<Rightarrow> gate_inv level offer D w'"
proof -
  let ?p = "r_product req" and ?q = "r_quantity req"
  have cl: "clean w" using assms(4) by (simp add: gate_inv_def)
  note pc = prededuct_store_cases [OF assms(1)] and pcl = prededuct_store_clean [OF assms(1) cl]
  show ?thesis
  proof (cases x)
    case (Inl e)
    then show ?thesis using assms(4) pc pcl by (simp add: gate_inv_def db_stock_def)
  next
    case (Inr ord)
    then obtain i where b: "booked i req (wdb w) (wdb w')" and r: "wredis w' = wredis w"
      using pc by auto
    have q: "level (wredis w) ?p + D ?p + ?q \<le> db_stock w ?p"
      using assms(4) by (auto simp: gate_inv_def dest: spec [of _ ?p])
    moreover have "0 \<le> D ?p" "0 \<le> level (wredis w) ?p" using assms(3) level_nonneg by auto
    ultimately have "?q \<le> db_stock w ?p" by linarith
    then obtain n where n: "stock_of (wdb w) ?p = Some n" "?q \<le> n"
      using assms(2) by (auto simp: db_stock_def split: option.splits)
    then have inv: "db_inv offer (wdb w')"
      using b assms(4) sale_db_inv [of i req "wdb w" "wdb w'" offer] by (simp add: sale_def gate_inv_def)
    have "level (wredis w) p + D p \<le> db_stock w' p" for p
    proof -
      have "db_stock w' p = (if p = ?p then db_stock w p - ?q else db_stock w p)"
        using booked_stock [OF b, of p] n by (simp add: db_stock_def)
      moreover have "level (wredis w) p + (D(?p := D ?p + ?q)) p \<le> db_stock w p"
        using assms(4) unfolding gate_inv_def by blast
      ultimately show ?thesis by (cases "p = ?p") simp_all
    qed
    then have "gate_inv level offer D w'"
      unfolding gate_inv_def r using pcl inv by simp
    then show ?thesis using Inr by simp
  qed
qed

lemma gated_run_env:
  assumes "gate_env level offer env"
  shows "gate_env level offer (\<lambda>w. snd (gated_run grab undo nid env req w))"
  unfolding gate_env_def
proof (intro allI impI)
  fix D w
  assume D: "\<forall>p. 0 \<le> D p" and w: "gate_inv level offer D w"
  let ?D = "D(r_product req := D (r_product req) + r_quantity req)"
  show "gate_inv level offer D (snd (gated_run grab undo nid env req w))"
  proof (cases "0 < r_quantity req")
    case False
    then show ?thesis using w by (simp add: gated_run_def validate_request_def)
  next
    case q: True
    obtain x w1 where g: "grab req w = (x, w1)" by fastforce
    note gg = grab_gate [OF g q w]
    show ?thesis
    proof (cases x)
      case (Inl e)
      then show ?thesis using q g gg by (simp add: gated_run_def validate_request_def)
    next
      case (Inr t)
      have "\<forall>p. 0 \<le> ?D p" using D q by (simp add: order_less_imp_le)
      then have e: "gate_inv level offer ?D (env w1)"
        using gg Inr assms by (simp add: gate_env_def)
      obtain y w2 where st: "prededuct_store nid req (env w1) = (y, w2)" by fastforce
      show ?thesis
        using store_gate [OF st q D e] undo_gate [OF q, of offer D w2 t] q g Inr st
        by (simp add: gated_run_def validate_request_def split: sum.splits)
    qed
  qed
qed

end

end
