(* ===== verification/Prededuct.thy ===== *)
theory Prededuct
  imports Gated_Path Stock_Gate
begin

text \<open>
  \<open>internal/deduct/prededuct.go\<close>: the stock gate in Redis. The two Lua scripts are functions on the
  keyspace, since Redis runs a script as one step; \<open>preDeductScript\<close> and \<open>rollbackScript\<close> interpret
  the interface \<open>stock_gate\<close>. \<open>PlaceOrderWithPreDeduct\<close> deducts, stores, and compensates when the
  store fails. Lua numbers are doubles: the scripts' comparisons are exact below \<open>2 ^ 53\<close>, which
  the stocks and quantities of this program stay under.
\<close>

section \<open>The scripts\<close>

definition pre_deduct_script :: "string \<Rightarrow> int \<Rightarrow> redis \<Rightarrow> (go_error + int) \<times> redis" where
  "pre_deduct_script k q r = (case rlookup r k of
       None \<Rightarrow> (Inr (-1), r)
     | Some (RString (Num stock)) \<Rightarrow> (if stock < q then (Inr (-1), r) else decrby k q r)
     | Some _ \<Rightarrow> (Inl ScriptError, r))"

definition rollback_script :: "string \<Rightarrow> int \<Rightarrow> redis \<Rightarrow> (go_error + int) \<times> redis" where
  "rollback_script k q r = incrby k q r"

interpretation redis_gate: stock_gate "pre_deduct_script k" "rollback_script k" "\<lambda>r. counter r k"
  for k :: string
proof unfold_locales
  fix s n q
  assume c: "counter s k = Some n"
  show "fst (pre_deduct_script k q s) = Inr (n - q)
      \<and> counter (snd (pre_deduct_script k q s)) k = Some (n - q)"
    if "q \<le> n" "fits_int64 (n - q)"
    using c that incrby_counter [OF c, of "- q"]
    by (simp add: pre_deduct_script_def decrby_def counter_Some_iff [THEN iffD1, OF c])
  show "pre_deduct_script k q s = (Inr (-1), s)" if "n < q"
    using c that by (simp add: pre_deduct_script_def counter_Some_iff)
  show "fst (rollback_script k q s) = Inr (n + q)
      \<and> counter (snd (rollback_script k q s)) k = Some (n + q)" if "fits_int64 (n + q)"
    using incrby_counter [OF c that] by (simp add: rollback_script_def)
qed

section \<open>PreDeduct and RollbackPreDeduct\<close>

definition pre_deduct :: "int \<Rightarrow> int \<Rightarrow> world \<Rightarrow> (go_error + int) \<times> world" where
  "pre_deduct p q w = (case on_redis (pre_deduct_script (stock_key p) q) w of
       (Inl e, w') \<Rightarrow> (Inl e, w')
     | (Inr n, w') \<Rightarrow> (if n = -1 then (Inl OrderInsufficientStock, w') else (Inr n, w')))"

definition rollback_pre_deduct :: "int \<Rightarrow> int \<Rightarrow> world \<Rightarrow> (go_error + unit) \<times> world" where
  "rollback_pre_deduct p q w = (case on_redis (rollback_script (stock_key p) q) w of
       (Inl e, w') \<Rightarrow> (Inl e, w')
     | (Inr _, w') \<Rightarrow> (Inr (), w'))"

section \<open>PlaceOrderWithPreDeduct\<close>

text \<open>\<open>env\<close> is what others do to both stores between the deduction and the transaction.\<close>

definition place_order_with_pre_deduct :: "go_error + int \<Rightarrow> (world \<Rightarrow> world) \<Rightarrow> place_req \<Rightarrow> world
    \<Rightarrow> (go_error + order) \<times> world" where
  "place_order_with_pre_deduct nid env req w =
     (case validate_request req of
        Some e \<Rightarrow> (Inl e, w)
      | None \<Rightarrow>
        (case pre_deduct (r_product req) (r_quantity req) w of
           (Inl e, w1) \<Rightarrow> (Inl e, w1)
         | (Inr _, w1) \<Rightarrow>
           (case prededuct_store nid req (env w1) of
              (Inl e, w2) \<Rightarrow> (Inl e, snd (rollback_pre_deduct (r_product req) (r_quantity req) w2))
            | (Inr ord, w2) \<Rightarrow> (Inr ord, w2))))"

section \<open>The gate of the path\<close>

lemma pre_deduct_script_cases:
  assumes "pre_deduct_script k q r = (x, r')"
  shows "r' = r \<and> (x = Inr (-1) \<or> (\<exists>e. x = Inl e))
    \<or> (\<exists>n. counter r k = Some n \<and> q \<le> n \<and> x = Inr (n - q) \<and> fits_int64 (n - q)
         \<and> r' = rmodify k (RString (Num (n - q))) r)"
  using assms
  by (auto simp: pre_deduct_script_def decrby_def incrby_def counter_Some_iff
      split: option.splits rvalue.splits payload.splits if_splits)

lemma rollback_script_cases:
  assumes "rollback_script k q r = (x, r')"
  shows "r' = r \<and> (\<exists>e. x = Inl e)
    \<or> (\<exists>m. x = Inr m \<and> (\<forall>k'. counter r' k' = (if k' = k then Some m else counter r k'))
         \<and> m = (case counter r k of Some n \<Rightarrow> n | None \<Rightarrow> 0) + q)"
  using assms counter_def [of r k]
  by (auto simp: rollback_script_def incrby_def
      split: option.splits rvalue.splits payload.splits if_splits)

text \<open>
  The gate's level is what the key still lets through. The path is the generic gated path with
  \<open>PreDeduct\<close> and \<open>RollbackPreDeduct\<close>.
\<close>

definition key_level :: "redis \<Rightarrow> int \<Rightarrow> int" where
  "key_level r p = (case counter r (stock_key p) of Some n \<Rightarrow> max 0 n | None \<Rightarrow> 0)"

lemma place_order_with_pre_deduct_gated:
  "place_order_with_pre_deduct nid env req w = gated_run
     (\<lambda>req. pre_deduct (r_product req) (r_quantity req))
     (\<lambda>req _ w. snd (rollback_pre_deduct (r_product req) (r_quantity req) w)) nid env req w"
  by (simp add: place_order_with_pre_deduct_def gated_run_def)

interpretation prededuct_path: gated_path key_level
    "\<lambda>req. pre_deduct (r_product req) (r_quantity req)"
    "\<lambda>req _ w. snd (rollback_pre_deduct (r_product req) (r_quantity req) w)"
proof unfold_locales
  fix r p show "0 \<le> key_level r p" by (simp add: key_level_def split: option.splits)
next
  fix w w' :: world and req :: place_req and x
  let ?p = "r_product req" and ?q = "r_quantity req"
  assume cl: "clean w" and q: "0 < ?q" and pd: "pre_deduct ?p ?q w = (x, w')"
  obtain y where y: "on_redis (pre_deduct_script (stock_key ?p) ?q) w = (y, w')"
    and x: "x = (case y of Inl e \<Rightarrow> Inl e | Inr n \<Rightarrow> if n = -1 then Inl OrderInsufficientStock else Inr n)"
    using pd by (auto simp: pre_deduct_def split: prod.splits sum.splits if_splits)
  note oc = on_redis_clean [OF y cl]
  have "key_level (wredis w') p + (if p = ?p \<and> (\<exists>t. x = Inr t) then ?q else 0) \<le> key_level (wredis w) p" for p
  proof (cases "wredis w' = wredis w \<and> (\<forall>n. x \<noteq> Inr n)")
    case False
    then obtain n where n: "counter (wredis w) (stock_key ?p) = Some n" "?q \<le> n" "y = Inr (n - ?q)"
      "wredis w' = rmodify (stock_key ?p) (RString (Num (n - ?q))) (wredis w)"
      using oc pre_deduct_script_cases [of "stock_key ?p" ?q "wredis w" y "wredis w'"] x by auto
    then show ?thesis using q by (auto simp: key_level_def)
  qed simp
  then show "clean w' \<and> wdb w' = wdb w \<and> (\<forall>p. key_level (wredis w') p
      + (if p = ?p \<and> (\<exists>t. x = Inr t) then ?q else 0) \<le> key_level (wredis w) p)"
    using oc by simp
next
  fix w :: world and req :: place_req and t
  let ?p = "r_product req" and ?q = "r_quantity req"
  assume cl: "clean w" and q: "0 < ?q"
  obtain y w' where y: "on_redis (rollback_script (stock_key ?p) ?q) w = (y, w')" by fastforce
  note oc = on_redis_clean [OF y cl]
  have "key_level (wredis w') p \<le> key_level (wredis w) p + (if p = ?p then ?q else 0)" for p
  proof (cases "wredis w' = wredis w")
    case False
    then obtain m where "\<forall>k'. counter (wredis w') k' = (if k' = stock_key ?p then Some m else counter (wredis w) k')"
      "m = (case counter (wredis w) (stock_key ?p) of Some n \<Rightarrow> n | None \<Rightarrow> 0) + ?q"
      using oc rollback_script_cases [of "stock_key ?p" ?q "wredis w" y "wredis w'"] by auto
    then show ?thesis using q by (auto simp: key_level_def split: option.splits)
  qed (use q in simp)
  moreover have "snd (rollback_pre_deduct ?p ?q w) = w'"
    using y by (simp add: rollback_pre_deduct_def split: sum.splits)
  ultimately show "clean (snd (rollback_pre_deduct ?p ?q w)) \<and> wdb (snd (rollback_pre_deduct ?p ?q w)) = wdb w
      \<and> (\<forall>p. key_level (wredis (snd (rollback_pre_deduct ?p ?q w))) p
            \<le> key_level (wredis w) p + (if p = ?p then ?q else 0))"
    using oc by simp
qed

text \<open>
  C1: the pre-deduction path never oversells. Take any invariant-keeping behaviour of everyone
  else between the deduction and the transaction, and any schedule of failing calls in which no
  executed call is reported as failed (several may be lost, the compensation too): the call
  itself keeps the invariant of the gate beside whatever else is under way. So it can be nested
  and interleaved with itself.
\<close>

theorem prededuct_never_oversells:
  assumes "gate_env key_level offer env"
  shows "gate_env key_level offer (\<lambda>w. snd (place_order_with_pre_deduct nid env req w))"
  unfolding place_order_with_pre_deduct_gated by (rule prededuct_path.gated_run_env [OF assms])

definition warm_world :: world where
  "warm_world = demo_world\<lparr>wredis := \<lparr>rkeys = [stock_key 1 \<mapsto> \<lparr>rval = RString (Num 3), expires = None\<rparr>],
     rtime = 0\<rparr>\<rparr>"

lemma warm_lookup: "rlookup (wredis warm_world) k = (if k = stock_key 1 then Some (RString (Num 3)) else None)"
  by (simp add: rlookup_def warm_world_def)

lemma warm_faults: "wfaults warm_world = []"
  by (simp add: warm_world_def demo_world_def)

lemma warm_gate_inv: "gate_inv key_level (\<lambda>p. 3) (\<lambda>p. 0) warm_world"
  using demo_inv
  by (auto simp: gate_inv_def warm_world_def demo_world_def clean_def key_level_def db_stock_def counter_def
      rlookup_def stock_of_def demo_db_def fits_int64_def)

text \<open>Another buyer's whole request runs between this one's deduction and its transaction.\<close>

theorem prededuct_never_oversells_witness:
  "gate_inv key_level (\<lambda>p. 3) (\<lambda>p. 0) (snd (place_order_with_pre_deduct (Inr 1)
     (\<lambda>w. snd (place_order_with_pre_deduct (Inr 2) (\<lambda>w. w) (buy_one ''b'') w)) demo_req warm_world))"
  by (rule gate_env_run [OF prededuct_never_oversells warm_gate_inv])
    (rule prededuct_never_oversells [OF gate_env_id])

section \<open>Conservation, and where it ends\<close>

lemma pre_deduct_one_loss:
  assumes "pre_deduct p q w = (x, w')" "one_loss w" "counter (wredis w) (stock_key p) = Some n"
    and "0 \<le> n" "fits_int64 n" "0 < q"
  shows "wdb w' = wdb w \<and> (calm w \<longrightarrow> calm w') \<and>
    (case x of Inl _ \<Rightarrow> wredis w' = wredis w
     | Inr _ \<Rightarrow> q \<le> n \<and> counter (wredis w') (stock_key p) = Some (n - q) \<and> one_loss w')"
proof -
  obtain y where y: "on_redis (pre_deduct_script (stock_key p) q) w = (y, w')"
    and x: "x = (case y of Inl e \<Rightarrow> Inl e | Inr n \<Rightarrow> if n = -1 then Inl OrderInsufficientStock else Inr n)"
    using assms(1) by (auto simp: pre_deduct_def split: prod.splits sum.splits if_splits)
  note ol = on_redis_one_loss [OF y assms(2)] and fr = on_redis_cases [OF y]
  have c: "calm w \<longrightarrow> calm w'" using on_redis_calm [OF y] by blast
  show ?thesis
  proof (cases "pre_deduct_script (stock_key p) q (wredis w) = (y, wredis w')")
    case True
    from pre_deduct_script_cases [OF this] ol c fr x assms(3) show ?thesis
      by (auto split: sum.splits)
  next
    case False
    with ol c fr x show ?thesis by (auto split: sum.splits)
  qed
qed

lemma rollback_calm:
  assumes "calm w" "counter (wredis w) (stock_key p) = Some m" "fits_int64 (m + q)"
  shows "counter (wredis (snd (rollback_pre_deduct p q w))) (stock_key p) = Some (m + q)
    \<and> wdb (snd (rollback_pre_deduct p q w)) = wdb w"
proof -
  obtain y w' where y: "on_redis (rollback_script (stock_key p) q) w = (y, w')" by fastforce
  from on_redis_calm [OF y assms(1)] on_redis_cases [OF y] redis_gate.give_back [OF assms(2,3)]
  show ?thesis by (auto simp: rollback_pre_deduct_def y split: sum.splits)
qed

text \<open>
  C13: conservation. When Redis and the database agree on the stock and at most one call of the
  whole operation fails (cleanly), they agree afterwards: an answered order took its quantity from
  both, an error took nothing from either. With no failing call this holds for every reason to
  refuse (a duplicate request, an identifier that could not be made, a value the columns do not take); with one failing call the
  request must be new and fit its columns, since a second refusal would need the compensation the failure may eat.
\<close>

theorem prededuct_conserves:
  assumes "one_loss w" "0 \<le> n" "fits_int64 n"
    and "counter (wredis w) (stock_key (r_product req)) = Some n"
    and "stock_of (wdb w) (r_product req) = Some n"
    and "calm w \<or> (\<exists>i. nid = Inr i \<and> i \<notin> o_id ` set (orders (wdb w))
           \<and> r_request req \<notin> o_request ` set (orders (wdb w)) \<and> row_error (new_order i req) = None)"
    and "place_order_with_pre_deduct nid (\<lambda>w. w) req w = (x, w')"
  shows "\<exists>m. counter (wredis w') (stock_key (r_product req)) = Some m
    \<and> stock_of (wdb w') (r_product req) = Some m
    \<and> (case x of Inl _ \<Rightarrow> m = n \<and> wdb w' = wdb w | Inr _ \<Rightarrow> m = n - r_quantity req \<and> 0 \<le> m)"
proof (cases "0 < r_quantity req")
  case False
  then show ?thesis
    using assms(4,5,7) by (auto simp: place_order_with_pre_deduct_def validate_request_def)
next
  case q: True
  let ?p = "r_product req" and ?q = "r_quantity req"
  obtain y w1 where pd: "pre_deduct ?p ?q w = (y, w1)" by fastforce
  note p1 = pre_deduct_one_loss [OF pd assms(1,4,2,3) q]
  show ?thesis
  proof (cases y)
    case (Inl e)
    then show ?thesis
      using assms(4,5,7) q pd p1 by (auto simp: place_order_with_pre_deduct_def validate_request_def)
  next
    case (Inr r)
    obtain z w2 where st: "prededuct_store nid req w1 = (z, w2)" by fastforce
    have c1: "counter (wredis w2) (stock_key ?p) = Some (n - ?q)" "?q \<le> n"
      using p1 Inr prededuct_store_cases [OF st] by auto
    show ?thesis
    proof (cases z)
      case (Inr ord)
      then obtain i where "booked i req (wdb w1) (wdb w2)" using prededuct_store_cases [OF st] by auto
      from booked_stock [OF this, of ?p] show ?thesis
        using assms(5,7) q pd p1 \<open>y = Inr r\<close> st Inr c1
        by (auto simp: place_order_with_pre_deduct_def validate_request_def)
    next
      case (Inl e)
      have "calm w2"
        using assms(6) p1 \<open>y = Inr r\<close> Inl prededuct_store_calm [OF st] prededuct_store_one_loss [OF st]
        by auto
      moreover have "wdb w2 = wdb w1"
        using prededuct_store_clean [OF st] one_loss_clean p1 \<open>y = Inr r\<close> Inl by auto
      moreover have "w' = snd (rollback_pre_deduct ?p ?q w2)" "x = Inl e"
        using assms(7) q pd \<open>y = Inr r\<close> st Inl
        by (auto simp: place_order_with_pre_deduct_def validate_request_def)
      ultimately show ?thesis
        using rollback_calm [of w2 ?p "n - ?q" ?q] c1 assms(3,5) p1 by auto
    qed
  qed
qed

lemmas prededuct_run_simps = place_order_with_pre_deduct_def prededuct_store_def pre_deduct_def
  rollback_pre_deduct_def pre_deduct_script_def rollback_script_def incrby_def decrby_def
  insert_order_tx_def validate_request_def on_redis_def begin_tx_def on_tx_def commit_tx_def next_fault_def
  exec_def update_sub_def set_stock_def insert_order_def row_error_def utf8_length_def fits_int32_def rlookup_def rmodify_def fits_int64_def

text \<open>The insert's reply never comes: the deduction is given back.\<close>

theorem prededuct_conserves_witness:
  "\<exists>e w'. place_order_with_pre_deduct (Inr 9) (\<lambda>w. w) demo_req
       (warm_world\<lparr>wfaults := [NoFault, NoFault, NoFault, Lost NetDeadline]\<rparr>) = (Inl e, w')
     \<and> counter (wredis w') (stock_key 1) = Some 3 \<and> stock_of (wdb w') 1 = Some 3"
proof -
  let ?w = "warm_world\<lparr>wfaults := [NoFault, NoFault, NoFault, Lost NetDeadline]\<rparr>"
  obtain w' where run: "place_order_with_pre_deduct (Inr 9) (\<lambda>w. w) demo_req ?w
      = (Inl ContextDeadlineExceeded, w')"
    by (simp add: prededuct_run_simps warm_world_def demo_simps)
  have "\<exists>m. counter (wredis w') (stock_key (r_product demo_req)) = Some m
    \<and> stock_of (wdb w') (r_product demo_req) = Some m
    \<and> (case Inl ContextDeadlineExceeded :: go_error + order of
         Inl _ \<Rightarrow> m = 3 \<and> wdb w' = wdb ?w | Inr _ \<Rightarrow> m = 3 - r_quantity demo_req \<and> 0 \<le> m)"
    by (rule prededuct_conserves [OF _ _ _ _ _ _ run])
      (simp_all add: one_loss_def warm_world_def demo_simps fits_int64_def fits_int32_def row_error_def utf8_length_def counter_def rlookup_def stock_of_def)
  then show ?thesis using run by (auto simp: demo_req_def)
qed

text \<open>
  the compensation is only right while a failed commit means no commit. When the commit of
  order \<open>a\<close> is executed and its reply is lost, the deduction is given back although the order is
  stored: Redis offers the one item again, a second request buys it, and the database ends with
  two orders for one item and a stock of \<open>-1\<close>.
\<close>

theorem prededuct_unacked_commit_oversells:
  "\<exists>e x w1 w2. place_order_with_pre_deduct (Inr 1) (\<lambda>w. w) (buy_one ''a'')
        (one_item_world\<lparr>wredis := \<lparr>rkeys = [stock_key 1 \<mapsto> \<lparr>rval = RString (Num 1), expires = None\<rparr>], rtime = 0\<rparr>,
           wfaults := [NoFault, NoFault, NoFault, NoFault, Unacked NetDeadline]\<rparr>) = (Inl e, w1)
    \<and> place_order_with_pre_deduct (Inr 2) (\<lambda>w. w) (buy_one ''b'') w1 = (Inr x, w2)
    \<and> map o_request (orders (wdb w2)) = [''a'', ''b''] \<and> stock_of (wdb w2) 1 = Some (-1)"
  by (simp add: prededuct_run_simps one_item_world_def demo_simps buy_one_def stock_of_def)

end
