(* ===== verification/Lock.thy ===== *)
theory Lock
  imports Deduct
begin

text \<open>
  \<open>internal/deduct/lock.go\<close>: the Redis lock (\<open>Acquire\<close>, \<open>Release\<close>, the watchdog) and the order path
  it protects. A token is the outcome \<open>tok\<close> of \<open>newToken\<close>; tokens of different calls are distinct
  where a property needs it (they are 16 random bytes). Durations are in milliseconds.

  The lock is also a small protocol between many callers: \<open>lock_step\<close> is the step relation in which
  callers acquire, renew and release while time passes, and mutual exclusion is its invariant.
\<close>

section \<open>The scripts and the calls\<close>

record lock =
  l_key :: string
  l_token :: string
  l_ttl :: int

record lock_options =
  lo_ttl :: int
  lo_watchdog :: bool
  lo_interval :: int

definition default_lock_options :: lock_options where
  "default_lock_options = \<lparr>lo_ttl = 3000, lo_watchdog = False, lo_interval = 1000\<rparr>"

definition release_script :: "string \<Rightarrow> string \<Rightarrow> redis \<Rightarrow> (go_error + int) \<times> redis" where
  "release_script k tok r = (case rlookup r k of
       None \<Rightarrow> (Inr 0, r)
     | Some (RString p) \<Rightarrow> (if p = Text tok then (Inr 1, rdel k r) else (Inr 0, r))
     | Some _ \<Rightarrow> (Inl ScriptError, r))"

definition renew_script :: "string \<Rightarrow> string \<Rightarrow> int \<Rightarrow> redis \<Rightarrow> (go_error + int) \<times> redis" where
  "renew_script k tok ttl r = (case rlookup r k of
       None \<Rightarrow> (Inr 0, r)
     | Some (RString p) \<Rightarrow>
         (if p = Text tok then (Inr 1, rset_px k (RString p) ttl r) else (Inr 0, r))
     | Some _ \<Rightarrow> (Inl ScriptError, r))"

definition acquire :: "go_error + string \<Rightarrow> string \<Rightarrow> int \<Rightarrow> world \<Rightarrow> (go_error + lock) \<times> world" where
  "acquire tok k ttl w = (case tok of
       Inl e \<Rightarrow> (Inl e, w)
     | Inr t \<Rightarrow> (case on_redis (redis_setnx k (RString (Text t)) ttl) w of
          (Inl e, w') \<Rightarrow> (Inl e, w')
        | (Inr ok, w') \<Rightarrow>
            (if \<not> ok then (Inl LockNotAcquired, w')
             else (Inr \<lparr>l_key = k, l_token = t, l_ttl = ttl\<rparr>, w'))))"

definition release :: "lock \<Rightarrow> world \<Rightarrow> (go_error + unit) \<times> world" where
  "release l w = (case on_redis (release_script (l_key l) (l_token l)) w of
       (Inl e, w') \<Rightarrow> (Inl e, w')
     | (Inr n, w') \<Rightarrow> (if n = 0 then (Inl LockLost, w') else (Inr (), w')))"

text \<open>
  The watchdog goroutine over the events it sees: a tick renews, and it ends at the first error or
  the first answer 0; \<open>WdDone\<close> is the closed \<open>done\<close> channel; \<open>WdWait d\<close> is time passing. The result
  says whether the goroutine still runs.
\<close>

datatype wd_event = WdTick | WdDone | WdWait nat

fun watchdog :: "lock \<Rightarrow> wd_event list \<Rightarrow> world \<Rightarrow> bool \<times> world" where
  "watchdog l [] w = (True, w)"
| "watchdog l (WdDone # es) w = (False, w)"
| "watchdog l (WdWait d # es) w =
     watchdog l es (w\<lparr>wredis := (wredis w)\<lparr>rtime := rtime (wredis w) + int d\<rparr>\<rparr>)"
| "watchdog l (WdTick # es) w =
     (case on_redis (renew_script (l_key l) (l_token l) (l_ttl l)) w of
        (Inl e, w') \<Rightarrow> (False, w')
      | (Inr n, w') \<Rightarrow> (if n = 0 then (False, w') else watchdog l es w'))"

text \<open>
  The critical section: read the stock without a row lock, check, subtract, insert, commit. \<open>env\<close>
  is everything that happens between the read and the update: other callers, time passing, and
  the ticks of this caller's own watchdog.
\<close>

definition locked_store :: "go_error + int \<Rightarrow> (world \<Rightarrow> world) \<Rightarrow> place_req \<Rightarrow> world
    \<Rightarrow> (go_error + order) \<times> world" where
  "locked_store nid env req w =
     (case begin_tx w of
        (Inl e, w1) \<Rightarrow> (Inl e, w1)
      | (Inr t, w1) \<Rightarrow>
        (case on_tx (query (select_stock (r_product req))) t w1 of
           (Inl e, _, w2) \<Rightarrow> (Inl (if errors_is e SqlNoRows then OrderProductNotFound else e), w2)
         | (Inr stock, _, w2) \<Rightarrow>
           (if stock < r_quantity req then (Inl OrderInsufficientStock, w2)
            else let w2' = env w2 in
             (case on_tx (exec (update_sub (r_product req) (r_quantity req))) (wdb w2') w2' of
                (Inl e, _, w3) \<Rightarrow> (Inl e, w3)
              | (Inr _, t3, w3) \<Rightarrow>
                (case insert_order_tx nid req t3 w3 of
                   (Inl e, _, w4) \<Rightarrow> (Inl e, w4)
                 | (Inr ord, t4, w4) \<Rightarrow>
                   (case commit_tx t4 w4 of
                      (Inl e, w5) \<Rightarrow> (Inl e, w5)
                    | (Inr _, w5) \<Rightarrow> (Inr ord, w5)))))))"

definition place_order_with_lock :: "go_error + string \<Rightarrow> go_error + int \<Rightarrow> (world \<Rightarrow> world)
    \<Rightarrow> lock_options \<Rightarrow> place_req \<Rightarrow> world \<Rightarrow> (go_error + order) \<times> world" where
  "place_order_with_lock tok nid env opts req w =
     (case validate_request req of
        Some e \<Rightarrow> (Inl e, w)
      | None \<Rightarrow>
        (case acquire tok (lock_key (r_product req)) (lo_ttl opts) w of
           (Inl e, w1) \<Rightarrow> (Inl e, w1)
         | (Inr l, w1) \<Rightarrow>
           (case locked_store nid env req w1 of (x, w2) \<Rightarrow> (x, snd (release l w2)))))"

section \<open>Facts about the calls\<close>

lemma release_script_cases:
  "release_script k tok r = (x, r') \<Longrightarrow>
     r' = r \<and> x \<noteq> Inr 1 \<or> rlookup r k = Some (RString (Text tok)) \<and> x = Inr 1 \<and> r' = rdel k r"
  by (auto simp: release_script_def split: option.splits rvalue.splits if_splits)

lemma acquire_cases:
  assumes "acquire tok k ttl w = (x, w')"
  shows "wdb w' = wdb w \<and> wlog w' = wlog w \<and>
    (wredis w' = wredis w \<and> (\<exists>e. x = Inl e)
     \<or> (\<exists>t. tok = Inr t \<and> rlookup (wredis w) k = None
          \<and> wredis w' = snd (redis_setnx k (RString (Text t)) ttl (wredis w))
          \<and> (x = Inr \<lparr>l_key = k, l_token = t, l_ttl = ttl\<rparr> \<or> (\<exists>e. x = Inl (net_err e)))))"
proof (cases tok)
  case (Inl e)
  then show ?thesis using assms by (auto simp: acquire_def)
next
  case (Inr t)
  obtain y where y: "on_redis (redis_setnx k (RString (Text t)) ttl) w = (y, w')"
    and x: "x = (case y of Inl e \<Rightarrow> Inl e
       | Inr ok \<Rightarrow> if ok then Inr \<lparr>l_key = k, l_token = t, l_ttl = ttl\<rparr> else Inl LockNotAcquired)"
    using assms Inr by (auto simp: acquire_def split: prod.splits sum.splits if_splits)
  note oc = on_redis_cases [OF y]
  show ?thesis
  proof (cases "rlookup (wredis w) k")
    case None
    then have "fst (redis_setnx k (RString (Text t)) ttl (wredis w)) = Inr True"
      by (simp add: redis_setnx_def)
    with oc x None Inr show ?thesis by auto
  next
    case (Some v)
    then have "redis_setnx k (RString (Text t)) ttl (wredis w) = (Inr False, wredis w)"
      by (simp add: redis_setnx_def)
    with oc x show ?thesis by auto
  qed
qed

lemma release_frame: "wdb (snd (release l w)) = wdb w \<and> wlog (snd (release l w)) = wlog w"
proof -
  obtain y w' where y: "on_redis (release_script (l_key l) (l_token l)) w = (y, w')" by fastforce
  from on_redis_cases [OF y] show ?thesis by (simp add: release_def y split: sum.splits)
qed

lemma locked_store_cases:
  assumes "locked_store nid env req w = (x, w')" 
    and "\<forall>w2. wdb w2 = wdb w \<longrightarrow> stock_of (wdb (env w2)) (r_product req) = stock_of (wdb w) (r_product req)"
  shows "(\<exists>w2. wdb w2 = wdb w \<and>
     (wdb w' \<in> {wdb w, wdb (env w2)} \<and> (\<forall>ord. x \<noteq> Inr ord)
     \<or> (\<exists>i. nid = Inr i \<and> sale i req (wdb (env w2)) (wdb w') \<and>
          (x = Inr (new_order i req) \<or> (\<exists>e. x = Inl (net_err e))))))"
proof -
  obtain x1 w1 where b: "begin_tx w = (x1, w1)" by fastforce
  note b' = begin_tx_cases [OF b]
  obtain x2 t2 w2 where r: "on_tx (query (select_stock (r_product req))) (wdb w) w1 = (x2, t2, w2)"
    by (metis prod_cases3)
  note r' = on_tx_cases [OF r]
  have sale: "sale i req (wdb (env w2)) t4"
    if "update_sub (r_product req) (r_quantity req) (wdb (env w2)) = (k, t3)"
      "insert_order (new_order i req) t3 = (Inr (), t4)"
      "stock_of (wdb w) (r_product req) = Some n" "\<not> n < r_quantity req" for i k t3 t4 n
    using stock_insert_booked [OF that(2)] update_sub_effect [OF that(1)] that assms(2) b' r'
    by (auto simp: sale_def)
  have st: "stock_of (wdb w) (r_product req) = Some n" if "x2 = Inr n" for n
    using r' that by (auto simp: query_def select_stock_Inr [symmetric])
  have "wdb w1 = wdb w" "wdb w2 = wdb w" "x1 = Inr t \<Longrightarrow> t = wdb w" for t using b' r' by auto
  then show ?thesis
    using assms(1) b r
    by (intro exI [of _ w2])
      (auto simp: locked_store_def Let_def split: prod.splits sum.splits if_splits
        dest!: on_tx_exec_Inr on_tx_exec_Inl commit_tx_Inr commit_tx_Inl
          insert_order_tx_Inr insert_order_tx_Inl intro: sale [OF _ _ st])
qed

section \<open>The lock as a protocol\<close>

text \<open>
  Acquisitions are numbered; number \<open>i\<close> uses token \<open>tok i\<close>. \<open>ls_inside i\<close> is the lock its caller was
  given and the end of the lease it believes in (the time of its last acknowledged acquire or renewal plus
  the TTL) while it is between \<open>Acquire\<close> and \<open>Release\<close>. A step is one call of \<open>acquire\<close>, \<open>watchdog\<close> (one
  tick) or \<open>release\<close>, on any key, with whatever fault the schedule has for it; time passing; or anything
  else that leaves Redis as it is (a critical section in the database, a new schedule of faults).
\<close>

record lock_sys =
  ls_world :: world
  ls_inside :: "nat \<rightharpoonup> lock \<times> int"

definition ls_now :: "lock_sys \<Rightarrow> int" where
  "ls_now s = rtime (wredis (ls_world s))"

inductive lock_step :: "(nat \<Rightarrow> string) \<Rightarrow> lock_sys \<Rightarrow> lock_sys \<Rightarrow> bool"
  for tok :: "nat \<Rightarrow> string" where
  step_acquire: "0 < ttl \<Longrightarrow> ls_inside s i = None \<Longrightarrow> acquire (Inr (tok i)) k ttl (ls_world s) = (Inr l, w') \<Longrightarrow>
     lock_step tok s \<lparr>ls_world = w', ls_inside = (ls_inside s)(i \<mapsto> (l, ls_now s + l_ttl l))\<rparr>"
| step_not_acquired: "0 < ttl \<Longrightarrow> acquire (Inr (tok i)) k ttl (ls_world s) = (Inl e, w') \<Longrightarrow>
     lock_step tok s (s\<lparr>ls_world := w'\<rparr>)"
| step_tick: "ls_inside s i = Some (l, e) \<Longrightarrow> watchdog l [WdTick] (ls_world s) = (alive, w') \<Longrightarrow>
     lock_step tok s \<lparr>ls_world = w', ls_inside =
        (if alive then (ls_inside s)(i \<mapsto> (l, ls_now s + l_ttl l)) else ls_inside s)\<rparr>"
| step_release: "ls_inside s i = Some (l, e) \<Longrightarrow> release l (ls_world s) = (x, w') \<Longrightarrow>
     lock_step tok s \<lparr>ls_world = w', ls_inside = (ls_inside s)(i := None)\<rparr>"
| step_time: "0 \<le> d \<Longrightarrow> wredis w' = (wredis (ls_world s))\<lparr>rtime := ls_now s + d\<rparr> \<Longrightarrow>
     lock_step tok s (s\<lparr>ls_world := w'\<rparr>)"

inductive_cases lock_stepE: "lock_step tok s s'"

definition lock_start :: "lock_sys \<Rightarrow> bool" where
  "lock_start s \<longleftrightarrow> ls_inside s = Map.empty"

text \<open>
  The invariant of one lease: its lock carries its own token, and while it has not run out Redis holds
  that token, for at least as long as its caller believes (a renewal whose answer was lost makes it longer).
\<close>

definition lease_ok :: "string \<Rightarrow> redis \<Rightarrow> lock \<times> int \<Rightarrow> bool" where
  "lease_ok t r le \<longleftrightarrow> l_token (fst le) = t \<and> 0 < l_ttl (fst le) \<and> snd le \<le> rtime r + l_ttl (fst le) \<and>
     (rtime r < snd le \<longrightarrow> (\<exists>e'. snd le \<le> e' \<and>
        rkeys r (l_key (fst le)) = Some \<lparr>rval = RString (Text t), expires = Some e'\<rparr>))"

definition lease_inv :: "(nat \<Rightarrow> string) \<Rightarrow> lock_sys \<Rightarrow> bool" where
  "lease_inv tok s \<longleftrightarrow> (\<forall>i le. ls_inside s i = Some le \<longrightarrow> lease_ok (tok i) (wredis (ls_world s)) le)"

lemma lease_invD: "lease_inv tok s \<Longrightarrow> ls_inside s i = Some le \<Longrightarrow> lease_ok (tok i) (wredis (ls_world s)) le"
  by (cases le) (simp add: lease_inv_def)

lemma lease_lookup:
  "lease_ok t r (l, e) \<Longrightarrow> rtime r < e \<Longrightarrow> rlookup r (l_key l) = Some (RString (Text t))"
  by (auto simp: lease_ok_def rlookup_def)

text \<open>A write to a key disturbs no lease but those on that key; a lease that ran out minds nothing.\<close>

lemma lease_ok_frame:
  assumes "lease_ok t r (l, e)" "rtime r' = rtime r" "rtime r < e \<Longrightarrow> rkeys r' (l_key l) = rkeys r (l_key l)"
  shows "lease_ok t r' (l, e)"
  using assms by (auto simp: lease_ok_def)

lemma lease_ok_set:
  "l_token l = t \<Longrightarrow> 0 < l_ttl l \<Longrightarrow> e \<le> rtime r + l_ttl l \<Longrightarrow>
     lease_ok t (rset_px (l_key l) (RString (Text t)) (l_ttl l) r) (l, e)"
  by (simp add: lease_ok_def rset_px_def)

text \<open>What a tick of the watchdog does, whatever happens to its call.\<close>

lemma watchdog_tick_cases:
  assumes "watchdog l [WdTick] w = (alive, w')"
  shows "(wredis w' = wredis w \<and> \<not> alive)
    \<or> (rlookup (wredis w) (l_key l) = Some (RString (Text (l_token l)))
       \<and> wredis w' = rset_px (l_key l) (RString (Text (l_token l))) (l_ttl l) (wredis w))"
proof -
  obtain y where y: "on_redis (renew_script (l_key l) (l_token l) (l_ttl l)) w = (y, w')"
    and alive: "alive = (case y of Inl e \<Rightarrow> False | Inr n \<Rightarrow> n \<noteq> 0)"
    using assms by (auto split: prod.splits sum.splits if_splits)
  note oc = on_redis_cases [OF y]
  show ?thesis
  proof (cases "rlookup (wredis w) (l_key l) = Some (RString (Text (l_token l)))")
    case True
    then have "renew_script (l_key l) (l_token l) (l_ttl l) (wredis w)
        = (Inr 1, rset_px (l_key l) (RString (Text (l_token l))) (l_ttl l) (wredis w))"
      by (simp add: renew_script_def)
    with oc alive True show ?thesis by auto
  next
    case False
    then have "snd (renew_script (l_key l) (l_token l) (l_ttl l) (wredis w)) = wredis w"
      "fst (renew_script (l_key l) (l_token l) (l_ttl l) (wredis w)) \<in> {Inr 0, Inl ScriptError}"
      by (auto simp: renew_script_def split: option.splits rvalue.splits)
    with oc alive show ?thesis by (elim insertE conjE disjE exE) simp_all
  qed
qed

lemma release_redis:
  assumes "release l w = (x, w')"
  shows "wredis w' = wredis w
    \<or> rlookup (wredis w) (l_key l) = Some (RString (Text (l_token l))) \<and> wredis w' = rdel (l_key l) (wredis w)"
proof -
  obtain y where y: "on_redis (release_script (l_key l) (l_token l)) w = (y, w')"
    using assms by (auto simp: release_def split: prod.splits sum.splits if_splits)
  obtain z r' where r: "release_script (l_key l) (l_token l) (wredis w) = (z, r')" by (rule prod.exhaust)
  from on_redis_cases [OF y] release_script_cases [OF r] r show ?thesis by auto
qed

text \<open>Two unexpired leases on one key are the same lease.\<close>

lemma lease_unique:
  assumes "lease_inv tok s" "inj tok" "ls_inside s i = Some (l, e)" "ls_now s < e"
    and "rlookup (wredis (ls_world s)) (l_key l) = Some (RString (Text (tok j)))"
  shows "i = j"
proof -
  have "lease_ok (tok i) (wredis (ls_world s)) (l, e)" by (rule lease_invD [OF assms(1,3)])
  from lease_lookup [OF this] assms(2,4,5) show ?thesis by (simp add: ls_now_def inj_eq)
qed

lemma lease_other:
  assumes "lease_inv tok s" "ls_inside s j = Some (l, e)" "rtime r' = ls_now s"
    and "\<And>k'. k' \<noteq> k \<Longrightarrow> rkeys r' k' = rkeys (wredis (ls_world s)) k'"
    and "l_key l = k \<Longrightarrow> ls_now s < e \<Longrightarrow> False"
  shows "lease_ok (tok j) r' (l, e)"
proof (rule lease_ok_frame [OF lease_invD [OF assms(1,2)]])
  show "rtime r' = rtime (wredis (ls_world s))" using assms(3) by (simp add: ls_now_def)
  assume "rtime (wredis (ls_world s)) < e"
  then have "l_key l \<noteq> k" using assms(5) by (auto simp: ls_now_def)
  then show "rkeys r' (l_key l) = rkeys (wredis (ls_world s)) (l_key l)" by (rule assms(4))
qed

lemma lease_acquire:
  assumes "lease_inv tok s" "rlookup (wredis (ls_world s)) k = None"
    and "wredis w' = snd (redis_setnx k (RString (Text t)) ttl (wredis (ls_world s)))" "0 < ttl"
    and "ls_inside s j = Some (l, e)"
  shows "lease_ok (tok j) (wredis w') (l, e)"
proof (rule lease_other [OF assms(1,5), where k = k])
  have r: "wredis w' = rset_px k (RString (Text t)) ttl (wredis (ls_world s))"
    using assms(2-4) by (simp add: redis_setnx_def)
  show "rtime (wredis w') = ls_now s" by (simp add: r ls_now_def)
  show "rkeys (wredis w') k' = rkeys (wredis (ls_world s)) k'" if "k' \<noteq> k" for k'
    using that by (simp add: r rset_px_def)
  assume "l_key l = k" "ls_now s < e"
  with lease_lookup [OF lease_invD [OF assms(1,5)]] assms(2) show False by (simp add: ls_now_def)
qed

lemma lease_step:
  assumes "lock_step tok s s'" "inj tok" "lease_inv tok s"
  shows "lease_inv tok s'"
  using assms(1)
proof (cases rule: lock_step.cases)
  case (step_acquire ttl i k l w')
  note ac = acquire_cases [OF step_acquire(4)]
  from ac have l: "l = \<lparr>l_key = k, l_token = tok i, l_ttl = ttl\<rparr>" "rlookup (wredis (ls_world s)) k = None"
    "wredis w' = snd (redis_setnx k (RString (Text (tok i))) ttl (wredis (ls_world s)))" by auto
  have "wredis w' = rset_px k (RString (Text (tok i))) ttl (wredis (ls_world s))"
    using l(2,3) step_acquire(2) by (simp add: redis_setnx_def)
  then have own: "lease_ok (tok i) (wredis w') (l, ls_now s + l_ttl l)"
    using lease_ok_set [of l "tok i" "ls_now s + l_ttl l" "wredis (ls_world s)"] step_acquire(2)
    by (simp add: l(1) ls_now_def)
  have other: "lease_ok (tok j) (wredis w') le" if "ls_inside s j = Some le" for j le
    using lease_acquire [OF assms(3) l(2,3) step_acquire(2), of j "fst le" "snd le"] that by simp
  show ?thesis using own other step_acquire(1) by (simp add: lease_inv_def)
next
  case (step_not_acquired ttl i k e w')
  have "lease_ok (tok j) (wredis w') le" if j: "ls_inside s j = Some le" for j le
  proof (cases "wredis w' = wredis (ls_world s)")
    case True
    then show ?thesis using lease_invD [OF assms(3) j] by simp
  next
    case False
    with acquire_cases [OF step_not_acquired(3)] have "rlookup (wredis (ls_world s)) k = None"
      "wredis w' = snd (redis_setnx k (RString (Text (tok i))) ttl (wredis (ls_world s)))" by auto
    from lease_acquire [OF assms(3) this step_not_acquired(2), of j "fst le" "snd le"] j show ?thesis by simp
  qed
  then show ?thesis using step_not_acquired(1) by (simp add: lease_inv_def)
next
  case (step_tick i l e alive w')
  note own = lease_invD [OF assms(3) step_tick(2)]
  have lt: "l_token l = tok i" "0 < l_ttl l" "e \<le> ls_now s + l_ttl l"
    using own by (simp_all add: lease_ok_def ls_now_def)
  from watchdog_tick_cases [OF step_tick(3)] show ?thesis
  proof (elim disjE conjE)
    assume "wredis w' = wredis (ls_world s)" "\<not> alive"
    then show ?thesis using assms(3) step_tick(1) by (simp add: lease_inv_def)
  next
    assume lk: "rlookup (wredis (ls_world s)) (l_key l) = Some (RString (Text (l_token l)))"
      and r: "wredis w' = rset_px (l_key l) (RString (Text (l_token l))) (l_ttl l) (wredis (ls_world s))"
    have i: "lease_ok (tok i) (wredis w') (l, e')" if "e' \<le> ls_now s + l_ttl l" for e'
      using lease_ok_set [OF lt(1,2), of e' "wredis (ls_world s)"] that by (simp add: r lt(1) ls_now_def)
    have j: "lease_ok (tok j) (wredis w') (l', e')" if "ls_inside s j = Some (l', e')" "j \<noteq> i" for j l' e'
    proof (rule lease_other [OF assms(3) that(1), where k = "l_key l"])
      show "rkeys (wredis w') k' = rkeys (wredis (ls_world s)) k'" if "k' \<noteq> l_key l" for k'
        using that by (simp add: r rset_px_def)
      assume "l_key l' = l_key l" "ls_now s < e'"
      with lease_unique [OF assms(3,2) that(1), of i] lk lt(1) that(2) show False by simp
    qed (simp add: r ls_now_def)
    show ?thesis
      unfolding lease_inv_def
    proof (intro allI impI)
      fix j le assume h: "ls_inside s' j = Some le"
      show "lease_ok (tok j) (wredis (ls_world s')) le"
      proof (cases "j = i")
        case True
        then show ?thesis using h i lt(3) step_tick(1,2) by (auto split: if_splits)
      next
        case False
        then show ?thesis using h j [of j "fst le" "snd le"] step_tick(1) by (auto split: if_splits)
      qed
    qed
  qed
next
  case (step_release i l e x w')
  have lt: "l_token l = tok i" using lease_invD [OF assms(3) step_release(2)] by (simp add: lease_ok_def)
  have "lease_ok (tok j) (wredis w') (l', e')" if "ls_inside s j = Some (l', e')" "j \<noteq> i" for j l' e'
  proof (cases "wredis w' = wredis (ls_world s)")
    case True
    then show ?thesis using lease_invD [OF assms(3) that(1)] by simp
  next
    case False
    with release_redis [OF step_release(3)] have lk: "rlookup (wredis (ls_world s)) (l_key l) = Some (RString (Text (l_token l)))"
      and r: "wredis w' = rdel (l_key l) (wredis (ls_world s))" by auto
    show ?thesis
    proof (rule lease_other [OF assms(3) that(1), where k = "l_key l"])
      show "rkeys (wredis w') k' = rkeys (wredis (ls_world s)) k'" if "k' \<noteq> l_key l" for k'
        using that by (simp add: r rdel_def)
      assume "l_key l' = l_key l" "ls_now s < e'"
      with lease_unique [OF assms(3,2) that(1), of i] lk lt that(2) show False by simp
    qed (simp add: r ls_now_def)
  qed
  then show ?thesis using step_release(1) by (simp add: lease_inv_def)
next
  case (step_time d w')
  then show ?thesis using assms(3) by (force simp: lease_inv_def lease_ok_def ls_now_def)
qed

lemma lease_reachable:
  assumes "(lock_step tok)\<^sup>*\<^sup>* s s'" "lock_start s" "inj tok"
  shows "lease_inv tok s'"
  using assms(1)
proof (induction rule: rtranclp_induct)
  case base
  then show ?case using assms(2) by (simp add: lock_start_def lease_inv_def)
next
  case (step s1 s2)
  then show ?case using lease_step assms(3) by blast
qed

section \<open>Properties\<close>

text \<open>
  C17: mutual exclusion. However many callers call \<open>Acquire\<close>, tick their watchdog and call \<open>Release\<close>, on
  any keys, with any positive TTLs, in any order, with any amounts of time between and with calls that are
  refused, lost before they ran or unanswered after they ran, at most one of them holds a lease on a key
  that has not run out: tokens being distinct, the unexpired leases on the key of \<open>i\<close> are \<open>i\<close>'s alone, and
  Redis holds \<open>i\<close>'s token there. (A lease ends one TTL after the acquire or the renewal that was last
  answered; a caller whose lease ran out may still be inside: the lock does not stop it.)
\<close>

theorem lock_mutual_exclusion:
  assumes "(lock_step tok)\<^sup>*\<^sup>* s s'" "lock_start s" "inj tok"
    and "ls_inside s' i = Some (l, e)" "ls_now s' < e"
  shows "{j. \<exists>l' e'. ls_inside s' j = Some (l', e') \<and> l_key l' = l_key l \<and> ls_now s' < e'} = {i}
    \<and> rlookup (wredis (ls_world s')) (l_key l) = Some (RString (Text (tok i)))"
proof -
  note inv = lease_reachable [OF assms(1-3)]
  have lk: "rlookup (wredis (ls_world s')) (l_key l) = Some (RString (Text (tok i)))"
    using lease_lookup [OF lease_invD [OF inv assms(4)]] assms(5) by (simp add: ls_now_def)
  then have "j = i" if "ls_inside s' j = Some (l', e')" "l_key l' = l_key l" "ls_now s' < e'" for j l' e'
    using lease_unique [OF inv assms(3) that(1,3), of i] that(2) by simp
  then show ?thesis using assms(4,5) lk by blast
qed

text \<open>
  Caller 0 acquires for 3000 ms and stays inside 3000 ms; caller 1's first acquire is lost, its second one
  succeeds: both are inside.
\<close>

definition lock_of :: "nat \<Rightarrow> lock" where
  "lock_of i = \<lparr>l_key = lock_key 1, l_token = show_nat i, l_ttl = 3000\<rparr>"

definition lock_start_demo :: lock_sys where
  "lock_start_demo = \<lparr>ls_world = demo_world\<lparr>wredis := \<lparr>rkeys = Map.empty, rtime = 0\<rparr>,
     wfaults := [NoFault, Lost NetDeadline]\<rparr>, ls_inside = Map.empty\<rparr>"

definition lock_both_inside :: lock_sys where
  "lock_both_inside = \<lparr>ls_world = demo_world\<lparr>wredis := \<lparr>rkeys = [lock_key 1 \<mapsto>
       \<lparr>rval = RString (Text (show_nat 1)), expires = Some 6000\<rparr>], rtime = 3000\<rparr>, wfaults := []\<rparr>,
     ls_inside = [0 \<mapsto> (lock_of 0, 3000), 1 \<mapsto> (lock_of 1, 6000)]\<rparr>"

lemma lock_both_inside_reachable: "(lock_step show_nat)\<^sup>*\<^sup>* lock_start_demo lock_both_inside"
proof -
  let ?k = "lock_key 1"
  let ?w = "\<lambda>t fs. demo_world\<lparr>wredis := \<lparr>rkeys = [?k \<mapsto> \<lparr>rval = RString (Text (show_nat 0)), expires = Some 3000\<rparr>],
      rtime = t\<rparr>, wfaults := fs\<rparr>"
  let ?s = "\<lambda>t fs. \<lparr>ls_world = ?w t fs, ls_inside = [0 \<mapsto> (lock_of 0, 3000)]\<rparr>"
  note run = lock_start_demo_def lock_both_inside_def lock_of_def acquire_def on_redis_def next_fault_def
    redis_setnx_def rlookup_def rset_px_def ls_now_def
  have a: "lock_step show_nat lock_start_demo (?s 0 [Lost NetDeadline])"
    using step_acquire [of 3000 lock_start_demo 0 show_nat ?k "lock_of 0" "?w 0 [Lost NetDeadline]"]
    by (simp add: run)
  have b: "lock_step show_nat (?s 0 [Lost NetDeadline]) (?s 0 [])"
    using step_not_acquired [of 3000 show_nat 1 ?k "?s 0 [Lost NetDeadline]" "net_err NetDeadline" "?w 0 []"]
    by (simp add: run)
  have c: "lock_step show_nat (?s 0 []) (?s 3000 [])"
    using step_time [of 3000 "?w 3000 []" "?s 0 []" show_nat] by (simp add: run)
  have d: "lock_step show_nat (?s 3000 []) lock_both_inside"
    using step_acquire [of 3000 "?s 3000 []" 1 show_nat ?k "lock_of 1" "ls_world lock_both_inside"]
    by (simp add: run)
  note r = converse_rtranclp_into_rtranclp
  show ?thesis by (rule r [of "lock_step show_nat", OF a r [OF b r [OF c r_into_rtranclp [of "lock_step show_nat", OF d]]]])
qed

theorem lock_mutual_exclusion_witness:
  "{j. \<exists>l' e'. ls_inside lock_both_inside j = Some (l', e') \<and> l_key l' = lock_key 1
      \<and> ls_now lock_both_inside < e'} = {1}
   \<and> dom (ls_inside lock_both_inside) = {0, 1}"
proof
  have "ls_inside lock_both_inside 1 = Some (lock_of 1, 6000)" by (simp add: lock_both_inside_def)
  from lock_mutual_exclusion [OF lock_both_inside_reachable _ _ this]
  show "{j. \<exists>l' e'. ls_inside lock_both_inside j = Some (l', e') \<and> l_key l' = lock_key 1
      \<and> ls_now lock_both_inside < e'} = {1}"
    by (simp add: lock_start_def lock_start_demo_def inj_def ls_now_def lock_both_inside_def lock_of_def)
qed (auto simp: lock_both_inside_def split: if_splits)

text \<open>
  a release deletes its own lock or nothing. Whatever happens to the call, every key but its
  own is left alone, its own key only changes if it held this caller's token and then it is gone,
  and the call answers success only in that case.
\<close>

theorem release_only_own:
  assumes "release l w = (x, w')"
  shows "(wredis w' = wredis w
      \<or> rlookup (wredis w) (l_key l) = Some (RString (Text (l_token l))) \<and> wredis w' = rdel (l_key l) (wredis w))
    \<and> (x = Inr () \<longrightarrow> rlookup (wredis w) (l_key l) = Some (RString (Text (l_token l)))
        \<and> rlookup (wredis w') (l_key l) = None)
    \<and> wdb w' = wdb w"
proof -
  obtain y where y: "on_redis (release_script (l_key l) (l_token l)) w = (y, w')"
    and x: "x = (case y of Inl e \<Rightarrow> Inl e | Inr n \<Rightarrow> if n = 0 then Inl LockLost else Inr ())"
    using assms by (auto simp: release_def split: prod.splits sum.splits if_splits)
  note oc = on_redis_cases [OF y]
  show ?thesis
  proof (cases "rlookup (wredis w) (l_key l) = Some (RString (Text (l_token l)))")
    case True
    then have "release_script (l_key l) (l_token l) (wredis w) = (Inr 1, rdel (l_key l) (wredis w))"
      by (simp add: release_script_def)
    with oc x True show ?thesis by auto
  next
    case False
    then have "snd (release_script (l_key l) (l_token l) (wredis w)) = wredis w"
      "fst (release_script (l_key l) (l_token l) (wredis w)) \<in> {Inr 0, Inl ScriptError}"
      by (auto simp: release_script_def split: option.splits rvalue.splits)
    with oc x show ?thesis by (elim insertE conjE disjE exE) simp_all
  qed
qed

definition other_lock_world :: world where
  "other_lock_world = demo_world\<lparr>wredis := \<lparr>rkeys = [lock_key 1 \<mapsto>
     \<lparr>rval = RString (Text ''tok-b''), expires = Some 6000\<rparr>], rtime = 3000\<rparr>\<rparr>"

theorem release_only_own_witness:
  "fst (release \<lparr>l_key = lock_key 1, l_token = ''tok-a'', l_ttl = 3000\<rparr> other_lock_world) = Inl LockLost
   \<and> wredis (snd (release \<lparr>l_key = lock_key 1, l_token = ''tok-a'', l_ttl = 3000\<rparr> other_lock_world))
     = wredis other_lock_world"
proof -
  let ?l = "\<lparr>l_key = lock_key 1, l_token = ''tok-a'', l_ttl = 3000\<rparr>"
  have "fst (release ?l other_lock_world) = Inl LockLost"
    by (simp add: release_def on_redis_def next_fault_def release_script_def other_lock_world_def
        rlookup_def demo_world_def)
  then obtain w' where run: "release ?l other_lock_world = (Inl LockLost, w')"
    by (cases "release ?l other_lock_world") auto
  from release_only_own [OF run] run show ?thesis
    by (simp add: other_lock_world_def rlookup_def)
qed

text \<open>
  a live watchdog keeps the lock. If the interval is shorter than the TTL and the renewals are
  answered, then after any number of ticks the key still holds the caller's token with a full TTL
  ahead and the watchdog still runs.
\<close>

theorem watchdog_keeps_lock:
  assumes "calm w" "int d < l_ttl l"
    and "rkeys (wredis w) (l_key l)
      = Some \<lparr>rval = RString (Text (l_token l)), expires = Some (rtime (wredis w) + l_ttl l)\<rparr>"
  shows "\<exists>w'. watchdog l (concat (replicate n [WdWait d, WdTick])) w = (True, w') \<and> calm w'
    \<and> rtime (wredis w') = rtime (wredis w) + int n * int d
    \<and> rkeys (wredis w') (l_key l)
      = Some \<lparr>rval = RString (Text (l_token l)), expires = Some (rtime (wredis w') + l_ttl l)\<rparr>"
  using assms
proof (induction n arbitrary: w)
  case (Suc n)
  define w1 where "w1 = w\<lparr>wredis := (wredis w)\<lparr>rtime := rtime (wredis w) + int d\<rparr>\<rparr>"
  have c1: "calm w1" using Suc.prems(1) by (simp add: w1_def)
  have "rlookup (wredis w1) (l_key l) = Some (RString (Text (l_token l)))"
    using Suc.prems(2,3) by (simp add: w1_def rlookup_def)
  then have rn: "renew_script (l_key l) (l_token l) (l_ttl l) (wredis w1)
      = (Inr 1, rset_px (l_key l) (RString (Text (l_token l))) (l_ttl l) (wredis w1))"
    by (simp add: renew_script_def)
  obtain y w2 where y: "on_redis (renew_script (l_key l) (l_token l) (l_ttl l)) w1 = (y, w2)" by fastforce
  have w2: "y = Inr 1" "wredis w2 = rset_px (l_key l) (RString (Text (l_token l))) (l_ttl l) (wredis w1)"
    "calm w2"
    using on_redis_calm [OF y c1] rn by auto
  have k: "rkeys (wredis w2) (l_key l)
      = Some \<lparr>rval = RString (Text (l_token l)), expires = Some (rtime (wredis w2) + l_ttl l)\<rparr>"
    by (simp add: w2 rset_px_def)
  have "rtime (wredis w2) = rtime (wredis w) + int d" by (simp add: w2 w1_def)
  moreover have "watchdog l (concat (replicate (Suc n) [WdWait d, WdTick])) w
      = watchdog l (concat (replicate n [WdWait d, WdTick])) w2"
    using y w2(1) by (simp flip: w1_def)
  ultimately show ?case
    using Suc.IH [OF w2(3) Suc.prems(2) k] by (simp add: distrib_right add.assoc)
qed auto

theorem watchdog_keeps_lock_witness:
  "\<exists>w'. watchdog \<lparr>l_key = lock_key 1, l_token = ''tok-b'', l_ttl = 3000\<rparr>
      (concat (replicate 5 [WdWait 1000, WdTick])) other_lock_world = (True, w')
     \<and> rtime (wredis w') = 8000
     \<and> rlookup (wredis w') (lock_key 1) = Some (RString (Text ''tok-b''))"
proof -
  have "calm other_lock_world" by (simp add: calm_def other_lock_world_def demo_world_def)
  from watchdog_keeps_lock [OF this, of 1000 "\<lparr>l_key = lock_key 1, l_token = ''tok-b'', l_ttl = 3000\<rparr>" 5]
  show ?thesis by (auto simp: other_lock_world_def rlookup_def)
qed

lemma place_order_with_lock_cases:
  assumes "place_order_with_lock tok nid env opts req w = (x, w')"
    and "\<forall>w2. wdb w2 = wdb w \<longrightarrow> stock_of (wdb (env w2)) (r_product req) = stock_of (wdb w) (r_product req)"
  shows "\<exists>w2. wdb w2 = wdb w \<and>
     (wdb w' \<in> {wdb w, wdb (env w2)} \<and> (\<forall>ord. x \<noteq> Inr ord)
     \<or> (\<exists>i. nid = Inr i \<and> sale i req (wdb (env w2)) (wdb w') \<and>
          (x = Inr (new_order i req) \<or> (\<exists>e. x = Inl (net_err e)))))"
proof (cases "validate_request req")
  case (Some e)
  then show ?thesis using assms(1) by (auto simp: place_order_with_lock_def)
next
  case None
  obtain y w1 where a: "acquire tok (lock_key (r_product req)) (lo_ttl opts) w = (y, w1)" by fastforce
  have db: "wdb w1 = wdb w" using acquire_cases [OF a] by simp
  show ?thesis
  proof (cases y)
    case (Inl e)
    then show ?thesis using assms(1) a None db by (auto simp: place_order_with_lock_def)
  next
    case (Inr l)
    obtain z w2 where s: "locked_store nid env req w1 = (z, w2)" by fastforce
    have "x = z" "wdb w' = wdb w2"
      using assms(1) a None Inr s release_frame [of l w2] by (auto simp: place_order_with_lock_def)
    with locked_store_cases [OF s] assms(2) db show ?thesis by simp
  qed
qed

text \<open>
  C33: while nobody else moves the product's stock inside the critical section, the locked path is
  all or nothing under every schedule of failing calls. Without the lock nothing happens: when \<open>Acquire\<close>
  fails or is refused, the caller gets that error, and the world is the one \<open>Acquire\<close> left, with the
  database untouched. With it the database is left as the others left it, or gets exactly one sale of
  stock that was there.
\<close>

theorem lock_sale_atomic:
  assumes "place_order_with_lock tok nid env opts req w = (x, w')"
    and "\<forall>w2. wdb w2 = wdb w \<longrightarrow> stock_of (wdb (env w2)) (r_product req) = stock_of (wdb w) (r_product req)"
  shows "(\<forall>e w1. validate_request req = None \<and> acquire tok (lock_key (r_product req)) (lo_ttl opts) w = (Inl e, w1)
      \<longrightarrow> x = Inl e \<and> w' = w1 \<and> wdb w' = wdb w)
    \<and> (\<forall>e. validate_request req = Some e \<longrightarrow> x = Inl e \<and> w' = w)
    \<and> (\<exists>w2. wdb w2 = wdb w \<and>
     (wdb w' \<in> {wdb w, wdb (env w2)} \<and> (\<forall>ord. x \<noteq> Inr ord)
     \<or> (\<exists>i. nid = Inr i \<and> sale i req (wdb (env w2)) (wdb w') \<and>
          (x = Inr (new_order i req) \<or> (\<exists>e. x = Inl (net_err e))))))"
proof -
  have failed: "x = Inl e \<and> w' = w1 \<and> wdb w' = wdb w"
    if "validate_request req = None \<and> acquire tok (lock_key (r_product req)) (lo_ttl opts) w = (Inl e, w1)" for e w1
    using assms(1) that acquire_cases [of tok "lock_key (r_product req)" "lo_ttl opts" w "Inl e" w1]
    by (simp add: place_order_with_lock_def)
  have invalid: "x = Inl e \<and> w' = w" if "validate_request req = Some e" for e
    using assms(1) that by (simp add: place_order_with_lock_def)
  show ?thesis
    by (rule conjI [OF _ conjI [OF _ place_order_with_lock_cases [OF assms]]])
      (intro allI impI, rule failed invalid, assumption)+
qed

lemmas lock_run_simps = place_order_with_lock_def locked_store_def acquire_def release_def
  release_script_def redis_setnx_def insert_order_tx_def validate_request_def go_simps
  query_def exec_def select_stock_def update_sub_def set_stock_def insert_order_def row_error_def utf8_length_def fits_int32_def Let_def
  rlookup_def rset_px_def rdel_def default_lock_options_def

theorem lock_sale_atomic_witness:
  "sale 9 demo_req demo_db (wdb (snd (place_order_with_lock (Inr ''tok-a'') (Inr 9) (\<lambda>w. w)
      default_lock_options demo_req demo_world)))"
proof -
  have "fst (place_order_with_lock (Inr ''tok-a'') (Inr 9) (\<lambda>w. w) default_lock_options demo_req demo_world)
      = Inr (new_order 9 demo_req)"
    by (simp add: lock_run_simps demo_simps)
  then obtain w' where run: "place_order_with_lock (Inr ''tok-a'') (Inr 9) (\<lambda>w. w) default_lock_options
      demo_req demo_world = (Inr (new_order 9 demo_req), w')"
    by (metis prod.collapse)
  from lock_sale_atomic [OF run] run show ?thesis by (auto simp: demo_world_def)
qed

text \<open>
  the TTL is the limit of the guarantee. With the default options (TTL 3000 ms, no watchdog), a
  critical section that takes 3000 ms lets a second caller acquire and complete inside it: the one
  item in stock is sold twice and the stock ends at \<open>-1\<close>.
\<close>

theorem lock_ttl_oversells:
  "\<exists>other x w'.
     (\<forall>w. other w = snd (place_order_with_lock (Inr ''tok-b'') (Inr 2) (\<lambda>w. w) default_lock_options
         (buy_one ''b'') (w\<lparr>wredis := (wredis w)\<lparr>rtime := rtime (wredis w) + 3000\<rparr>\<rparr>)))
   \<and> place_order_with_lock (Inr ''tok-a'') (Inr 1) other default_lock_options (buy_one ''a'') one_item_world
       = (Inr x, w')
   \<and> map o_request (orders (wdb w')) = [''b'', ''a''] \<and> stock_of (wdb w') 1 = Some (-1)"
  by (rule exI [of _ "\<lambda>w. snd (place_order_with_lock (Inr ''tok-b'') (Inr 2) (\<lambda>w. w) default_lock_options
         (buy_one ''b'') (w\<lparr>wredis := (wredis w)\<lparr>rtime := rtime (wredis w) + 3000\<rparr>\<rparr>))"])
    (simp add: lock_run_simps one_item_world_def demo_simps buy_one_def stock_of_def)

end
