(* ===== verification/Bucket.thy ===== *)
theory Bucket
  imports Prededuct "HOL-Library.Signed_Division"
begin

text \<open>
  Package \<open>bucket\<close> (\<open>internal/bucket/\<close>): the stock of one product split over \<open>BucketCount\<close> keys. A
  request starts at a bucket chosen by the FNV-1a hash of its request id, probes at most
  \<open>MaxProbes\<close> further ones, and a compensation goes to the bucket that was hit. Every bucket key is
  a \<open>stock_gate\<close>; the whole path is a \<open>gated_path\<close> whose level is the sum over the buckets.
  Code that divides by \<open>BucketCount\<close> can panic, so its results are \<open>go\<close> values.
\<close>

section \<open>Keys and scripts (model.go)\<close>

record bucket_config =
  bucket_count :: int
  max_probes :: int

definition default_bucket_config :: bucket_config where
  "default_bucket_config = \<lparr>bucket_count = 8, max_probes = 2\<rparr>"

definition bucket_key :: "int \<Rightarrow> int \<Rightarrow> string" where
  "bucket_key p b = ''seckill:stock:'' @ show_int p @ '':b'' @ show_int b"

record deduct_result =
  dr_bucket :: int
  dr_remaining :: int
  dr_probes :: int

text \<open>The two scripts have the text of the single-key ones.\<close>

definition deduct_bucket_script :: "string \<Rightarrow> int \<Rightarrow> redis \<Rightarrow> (go_error + int) \<times> redis" where
  "deduct_bucket_script k q r = (case rlookup r k of
       None \<Rightarrow> (Inr (-1), r)
     | Some (RString (Num stock)) \<Rightarrow> (if stock < q then (Inr (-1), r) else decrby k q r)
     | Some _ \<Rightarrow> (Inl ScriptError, r))"

definition rollback_bucket_script :: "string \<Rightarrow> int \<Rightarrow> redis \<Rightarrow> (go_error + int) \<times> redis" where
  "rollback_bucket_script k q r = incrby k q r"

lemma bucket_scripts: "deduct_bucket_script = pre_deduct_script" "rollback_bucket_script = rollback_script"
  by (intro ext; simp add: deduct_bucket_script_def pre_deduct_script_def
      rollback_bucket_script_def rollback_script_def)+

lemma bucket_key_inj [simp]: "bucket_key p b = bucket_key p' b' \<longleftrightarrow> p = p' \<and> b = b'"
proof
  assume "bucket_key p b = bucket_key p' b'"
  then have "show_int p @ CHR '':'' # (CHR ''b'' # show_int b) = show_int p' @ CHR '':'' # (CHR ''b'' # show_int b')"
    by (simp add: bucket_key_def)
  from show_int_colon_split [OF this] show "p = p' \<and> b = b'" by simp
qed simp

lemma bucket_key_stock_key [simp]: "bucket_key p b \<noteq> stock_key p'" "stock_key p' \<noteq> bucket_key p b"
proof -
  have "CHR '':'' \<in> set (drop 14 (bucket_key p b))" "CHR '':'' \<notin> set (drop 14 (stock_key p'))"
    by (simp_all add: bucket_key_def stock_key_def)
  then show "bucket_key p b \<noteq> stock_key p'" "stock_key p' \<noteq> bucket_key p b" by auto
qed

interpretation bucket_gate: stock_gate "deduct_bucket_script (bucket_key p b)"
    "rollback_bucket_script (bucket_key p b)" "\<lambda>r. counter r (bucket_key p b)" for p b :: int
  unfolding bucket_scripts by (rule redis_gate.stock_gate_axioms)

section \<open>Which bucket (p1\_bucket.go)\<close>

text \<open>\<open>hash/fnv\<close>'s 32-bit FNV-1a, on 32-bit words, over the bytes of the request id.\<close>

definition fnv32a :: "string \<Rightarrow> 32 word" where
  "fnv32a s = foldl (\<lambda>h c. (xor h (of_char c)) * 16777619) 2166136261 s"

definition start_bucket :: "string \<Rightarrow> int \<Rightarrow> int go" where
  "start_bucket rid n =
     (if n \<le> 0 then Ret 0
      else if (word_of_int n :: 32 word) = 0 then Panic
      else Ret (uint (fnv32a rid mod word_of_int n)))"

definition deduct_one_bucket :: "int \<Rightarrow> int \<Rightarrow> int \<Rightarrow> world \<Rightarrow> (go_error + int) \<times> world" where
  "deduct_one_bucket p b q w = (case on_redis (deduct_bucket_script (bucket_key p b) q) w of
       (Inl e, w') \<Rightarrow> (Inl e, w')
     | (Inr n, w') \<Rightarrow> (if n = -1 then (Inl OrderInsufficientStock, w') else (Inr n, w')))"

text \<open>
  The loop: of \<open>budget\<close> probes \<open>m\<close> are left and \<open>i\<close> were made. Go's \<open>%\<close> truncates, so it is \<open>smod\<close>. The
  budget \<open>1 + MaxProbes\<close> wraps to 64 bits, so for the largest \<open>MaxProbes\<close> the loop does not run. (\<open>start + i\<close>
  is not wrapped: it would take more than \<open>2^62\<close> probes to reach the bound.)
\<close>

definition probe_budget :: "bucket_config \<Rightarrow> int" where
  "probe_budget cfg = to_int64 (1 + max_probes cfg)"

fun probe_loop :: "nat \<Rightarrow> int \<Rightarrow> int \<Rightarrow> bucket_config \<Rightarrow> int \<Rightarrow> int \<Rightarrow> world
    \<Rightarrow> ((deduct_result \<times> go_error option) \<times> world) go" where
  "probe_loop 0 i start cfg p q w =
     Ret ((\<lparr>dr_bucket = -1, dr_remaining = 0, dr_probes = probe_budget cfg\<rparr>,
           Some OrderInsufficientStock), w)"
| "probe_loop (Suc m) i start cfg p q w =
     (if bucket_count cfg = 0 then Panic
      else (let b = (start + i) smod bucket_count cfg in
        (case deduct_one_bucket p b q w of
           (Inr n, w') \<Rightarrow> Ret ((\<lparr>dr_bucket = b, dr_remaining = n, dr_probes = i + 1\<rparr>, None), w')
         | (Inl e, w') \<Rightarrow>
             (if \<not> errors_is e OrderInsufficientStock
              then Ret ((\<lparr>dr_bucket = -1, dr_remaining = 0, dr_probes = i + 1\<rparr>, Some e), w')
              else probe_loop m (i + 1) start cfg p q w'))))"

definition deduct_with_probe :: "bucket_config \<Rightarrow> int \<Rightarrow> string \<Rightarrow> int \<Rightarrow> world
    \<Rightarrow> ((deduct_result \<times> go_error option) \<times> world) go" where
  "deduct_with_probe cfg p rid q w = (case start_bucket rid (bucket_count cfg) of
       Panic \<Rightarrow> Panic
     | Ret start \<Rightarrow> probe_loop (nat (probe_budget cfg)) 0 start cfg p q w)"

definition rollback_to_bucket :: "int \<Rightarrow> int \<Rightarrow> int \<Rightarrow> world \<Rightarrow> (go_error + unit) \<times> world" where
  "rollback_to_bucket p b q w =
     (if b < 0 then (Inr (), w)
      else (case on_redis (rollback_bucket_script (bucket_key p b) q) w of
          (Inl e, w') \<Rightarrow> (Inl e, w')
        | (Inr _, w') \<Rightarrow> (Inr (), w')))"

text \<open>
  \<open>PlaceOrderWithBucketDeduct\<close>. Its transaction is, statement by statement, the one of
  \<open>PlaceOrderWithPreDeduct\<close> (subtract, take an identifier, insert, commit).
\<close>

definition place_order_with_bucket_deduct :: "go_error + int \<Rightarrow> (world \<Rightarrow> world) \<Rightarrow> bucket_config
    \<Rightarrow> place_req \<Rightarrow> world \<Rightarrow> ((go_error + order) \<times> world) go" where
  "place_order_with_bucket_deduct nid env cfg req w =
     (if r_quantity req \<le> 0 then Ret (Inl OrderInvalidQuantity, w)
      else (case deduct_with_probe cfg (r_product req) (r_request req) (r_quantity req) w of
        Panic \<Rightarrow> Panic
      | Ret ((res, Some e), w1) \<Rightarrow> Ret (Inl e, w1)
      | Ret ((res, None), w1) \<Rightarrow>
          (case prededuct_store nid req (env w1) of
             (Inl e, w2) \<Rightarrow>
               Ret (Inl e, snd (rollback_to_bucket (r_product req) (dr_bucket res) (r_quantity req) w2))
           | (Inr ord, w2) \<Rightarrow> Ret (Inr ord, w2))))"

section \<open>Spreading the stock and reading it back (p2\_spread.go)\<close>

text \<open>\<open>MSET\<close> and \<open>MGET\<close> over the bucket keys; \<open>MGET\<close> without a key is refused by the server.\<close>

definition redis_mset :: "(string \<times> int) list \<Rightarrow> redis \<Rightarrow> (go_error + unit) \<times> redis" where
  "redis_mset kvs r = (Inr (), foldl (\<lambda>r (k, v). rset k (RString (Num v)) r) r kvs)"

definition redis_mget :: "string list \<Rightarrow> redis \<Rightarrow> (go_error + payload option list) \<times> redis" where
  "redis_mget ks r =
     (if ks = [] then Inl ScriptError
      else Inr (map (\<lambda>k. case rlookup r k of Some (RString v) \<Rightarrow> Some v | _ \<Rightarrow> None) ks), r)"

text \<open>
  \<open>make([]T, n)\<close> with elements of \<open>bytes\<close> bytes panics for a negative length and for one beyond the address
  space the runtime allocates from (\<open>2^48\<close> bytes on 64-bit Linux).
\<close>

definition make_panics :: "int \<Rightarrow> int \<Rightarrow> bool" where
  "make_panics bytes n \<longleftrightarrow> n < 0 \<or> 2 ^ 48 < bytes * n"

definition planned_stock :: "int \<Rightarrow> int \<Rightarrow> int list" where
  "planned_stock stk n = map (\<lambda>b. if int b < stk smod n then stk sdiv n + 1 else stk sdiv n) [0..<nat n]"

definition bucket_keys :: "int \<Rightarrow> int \<Rightarrow> string list" where
  "bucket_keys p n = map (\<lambda>b. bucket_key p (int b)) [0..<nat n]"

definition spread_stock :: "int \<Rightarrow> bucket_config \<Rightarrow> world \<Rightarrow> ((go_error + int list) \<times> world) go" where
  "spread_stock p cfg w = (case on_db (query (select_stock p)) w of
       (Inl e, w1) \<Rightarrow> Ret (Inl e, w1)
     | (Inr stk, w1) \<Rightarrow>
        (if bucket_count cfg = 0 \<or> make_panics 8 (bucket_count cfg) then Panic
         else (let plan = planned_stock stk (bucket_count cfg) in
           (case on_redis (redis_mset (zip (bucket_keys p (bucket_count cfg)) plan)) w1 of
              (Inl e, w2) \<Rightarrow> Ret (Inl e, w2)
            | (Inr _, w2) \<Rightarrow> Ret (Inr plan, w2)))))"

text \<open>\<open>strconv.ParseInt\<close> fails on a value that is no number.\<close>

fun parse_buckets :: "payload option list \<Rightarrow> go_error + int list" where
  "parse_buckets [] = Inr []"
| "parse_buckets (None # vs) = map_sum id (\<lambda>ns. 0 # ns) (parse_buckets vs)"
| "parse_buckets (Some (Num n) # vs) = map_sum id (\<lambda>ns. n # ns) (parse_buckets vs)"
| "parse_buckets (Some _ # vs) = Inl DecodeError"

definition total_remaining :: "int \<Rightarrow> bucket_config \<Rightarrow> world \<Rightarrow> ((go_error + int \<times> int list) \<times> world) go" where
  "total_remaining p cfg w =
     (if make_panics 16 (bucket_count cfg) then Panic
      else (case on_redis (redis_mget (bucket_keys p (bucket_count cfg))) w of
          (Inl e, w1) \<Rightarrow> Ret (Inl e, w1)
        | (Inr vals, w1) \<Rightarrow>
           (case parse_buckets vals of
              Inl e \<Rightarrow> Ret (Inl e, w1)
            | Inr ns \<Rightarrow> Ret (Inr (to_int64 (sum_list ns), ns), w1))))"

section \<open>Choosing and probing\<close>

lemma start_bucket_range:
  assumes "start_bucket rid n = Ret b" "0 < n"
  shows "0 \<le> b \<and> b < n"
proof -
  let ?m = "word_of_int n :: 32 word"
  have m: "?m \<noteq> 0" and b: "b = uint (fnv32a rid mod ?m)"
    using assms by (auto simp: start_bucket_def split: if_splits)
  have "0 < uint ?m" using m by (simp add: order_less_le uint_0_iff)
  then have "b < uint ?m" by (simp add: b uint_mod)
  moreover have "uint ?m \<le> n"
    using assms(2) by (simp add: uint_word_of_int zmod_le_nonneg_dividend)
  ultimately show ?thesis by (simp add: b)
qed

lemma start_bucket_Ret: "n < 2 ^ 32 \<Longrightarrow> \<exists>b. start_bucket rid n = Ret b"
  by (cases "0 < n") (auto simp: start_bucket_def word_of_int_eq_0_iff zdvd_not_zless)

lemma smod_nonneg: "0 \<le> a \<Longrightarrow> 0 < n \<Longrightarrow> a smod n = a mod (n::int)"
  by (simp add: signed_modulo_int_def signed_divide_int_def minus_div_mult_eq_mod sgn_if)

lemma smod_range: "0 \<le> a \<Longrightarrow> n \<noteq> 0 \<Longrightarrow> 0 \<le> a smod n \<and> a smod n < \<bar>n\<bar>" for a n :: int
  using smod_nonneg [of a "\<bar>n\<bar>"]
  by (cases "0 < n") (auto simp: signed_modulo_int_def signed_divide_int_def sgn_if abs_if
      intro!: pos_mod_sign)

lemma sdiv_nonneg: "0 \<le> a \<Longrightarrow> 0 < n \<Longrightarrow> a sdiv n = a div (n::int)"
  by (simp add: signed_divide_int_def sgn_if)

text \<open>What one probe does: hit (and exactly that key falls by the quantity), short, or failed.\<close>

lemma deduct_one_bucket_cases:
  assumes "deduct_one_bucket p b q w = (x, w')" "clean w"
  shows "clean w' \<and> wdb w' = wdb w \<and>
    ((\<exists>e. x = Inl e) \<and> wredis w' = wredis w
     \<or> (\<exists>n. x = Inr (n - q) \<and> counter (wredis w) (bucket_key p b) = Some n \<and> q \<le> n
          \<and> wredis w' = rmodify (bucket_key p b) (RString (Num (n - q))) (wredis w)))"
proof -
  obtain y where y: "on_redis (deduct_bucket_script (bucket_key p b) q) w = (y, w')"
    and x: "x = (case y of Inl e \<Rightarrow> Inl e | Inr n \<Rightarrow> if n = -1 then Inl OrderInsufficientStock else Inr n)"
    using assms(1) by (auto simp: deduct_one_bucket_def split: prod.splits sum.splits if_splits)
  note oc = on_redis_clean [OF y assms(2)]
  show ?thesis
  proof (cases "deduct_bucket_script (bucket_key p b) q (wredis w) = (y, wredis w')")
    case True
    from pre_deduct_script_cases [OF this [unfolded bucket_scripts]] oc x show ?thesis
      by (elim disjE conjE exE) auto
  next
    case False
    with oc x show ?thesis by auto
  qed
qed

lemma deduct_one_bucket_calm:
  assumes "deduct_one_bucket p b q w = (x, w')" "calm w" "counter (wredis w) (bucket_key p b) = Some n"
    "0 \<le> n" "fits_int64 n" "0 < q"
  shows "calm w' \<and> (x = (if q \<le> n then Inr (n - q) else Inl OrderInsufficientStock))
    \<and> (n < q \<longrightarrow> wredis w' = wredis w)"
proof -
  obtain y where y: "on_redis (deduct_bucket_script (bucket_key p b) q) w = (y, w')"
    and x: "x = (case y of Inl e \<Rightarrow> Inl e | Inr n \<Rightarrow> if n = -1 then Inl OrderInsufficientStock else Inr n)"
    using assms(1) by (auto simp: deduct_one_bucket_def split: prod.splits sum.splits if_splits)
  have oc: "deduct_bucket_script (bucket_key p b) q (wredis w) = (y, wredis w')" "calm w'"
    using on_redis_calm [OF y assms(2)] by auto
  show ?thesis
  proof (cases "q \<le> n")
    case True
    have "fits_int64 (n - q)" using assms(4-6) True by (simp add: fits_int64_def)
    with bucket_gate.take_enough [OF assms(3) True] oc x True assms(6) show ?thesis by simp
  next
    case False
    with bucket_gate.take_short [OF assms(3), of q] oc x show ?thesis by simp
  qed
qed

text \<open>
  The loop: with room for \<open>m\<close> more probes it returns, makes at least one and at most \<open>m\<close> of them
  when \<open>m\<close> is positive, changes exactly the bucket it names on a hit and nothing otherwise.
\<close>

lemma probe_loop_cases:
  assumes "probe_loop m i start cfg p q w = Ret ((res, err), w')" "clean w" "0 \<le> start" "0 \<le> i"
  shows "clean w' \<and> wdb w' = wdb w \<and>
    (case err of
       None \<Rightarrow> i < dr_probes res \<and> dr_probes res \<le> i + int m
         \<and> dr_bucket res = (start + dr_probes res - 1) smod bucket_count cfg
         \<and> 0 \<le> dr_bucket res \<and> dr_bucket res < \<bar>bucket_count cfg\<bar>
         \<and> (\<exists>n. counter (wredis w) (bucket_key p (dr_bucket res)) = Some n \<and> q \<le> n
              \<and> dr_remaining res = n - q
              \<and> wredis w' = rmodify (bucket_key p (dr_bucket res)) (RString (Num (n - q))) (wredis w))
     | Some e \<Rightarrow> dr_bucket res = -1 \<and> wredis w' = wredis w
         \<and> (dr_probes res = probe_budget cfg \<or> i < dr_probes res \<and> dr_probes res \<le> i + int m))"
  using assms
proof (induction m arbitrary: i w)
  case (Suc m)
  let ?b = "(start + i) smod bucket_count cfg"
  have n: "bucket_count cfg \<noteq> 0" using Suc.prems(1) by auto
  have rng: "0 \<le> ?b \<and> ?b < \<bar>bucket_count cfg\<bar>" using smod_range [OF _ n, of "start + i"] Suc.prems by simp
  obtain x w1 where d: "deduct_one_bucket p ?b q w = (x, w1)" by fastforce
  note dc = deduct_one_bucket_cases [OF d Suc.prems(2)]
  show ?case
  proof (cases x)
    case (Inr r)
    then have "res = \<lparr>dr_bucket = ?b, dr_remaining = r, dr_probes = i + 1\<rparr>" "err = None" "w' = w1"
      using Suc.prems(1) d n by auto
    then show ?thesis using dc Inr rng by auto
  next
    case (Inl e)
    show ?thesis
    proof (cases "errors_is e OrderInsufficientStock")
      case False
      then show ?thesis using Suc.prems(1) d n Inl dc by auto
    next
      case True
      then have "probe_loop m (i + 1) start cfg p q w1 = Ret ((res, err), w')"
        using Suc.prems(1) d n Inl by simp
      from Suc.IH [OF this] dc Inl Suc.prems(3,4) show ?thesis
        by (auto split: option.splits)
    qed
  qed
qed auto

lemma probe_loop_returns: "bucket_count cfg \<noteq> 0 \<Longrightarrow> \<exists>z. probe_loop m i start cfg p q w = Ret z"
  by (induction m i start cfg p q w rule: probe_loop.induct)
    (auto simp: Let_def split: prod.splits sum.splits)

lemma probe_budget_id: "0 \<le> max_probes cfg \<Longrightarrow> max_probes cfg < 2 ^ 63 - 1 \<Longrightarrow> probe_budget cfg = 1 + max_probes cfg"
  by (simp add: probe_budget_def to_int64_id fits_int64_def)

lemma start_bucket_nonneg: "start_bucket rid n = Ret b \<Longrightarrow> 0 \<le> b"
  by (auto simp: start_bucket_def split: if_splits)

lemma deduct_with_probe_cases:
  assumes "deduct_with_probe cfg p rid q w = Ret ((res, err), w')" "clean w"
  obtains start where "start_bucket rid (bucket_count cfg) = Ret start"
    "probe_loop (nat (probe_budget cfg)) 0 start cfg p q w = Ret ((res, err), w')" "0 \<le> start"
  using assms start_bucket_nonneg by (auto simp: deduct_with_probe_def split: go.splits)

text \<open>With answered calls and known buckets, the loop hits the first bucket that has enough.\<close>

lemma probe_loop_complete:
  assumes "calm w" "0 < bucket_count cfg" "0 < q" "0 \<le> start" "0 \<le> i"
    and "\<And>b. 0 \<le> b \<Longrightarrow> b < bucket_count cfg \<Longrightarrow>
      counter (wredis w) (bucket_key p b) = Some (ns b) \<and> 0 \<le> ns b \<and> fits_int64 (ns b)"
  shows "\<exists>res err w'. probe_loop m i start cfg p q w = Ret ((res, err), w')
    \<and> (err = None \<longleftrightarrow> (\<exists>j < m. q \<le> ns ((start + i + int j) mod bucket_count cfg)))
    \<and> (err = None \<or> err = Some OrderInsufficientStock)"
  using assms
proof (induction m arbitrary: i w)
  case (Suc m)
  let ?b = "(start + i) mod bucket_count cfg"
  have b: "(start + i) smod bucket_count cfg = ?b" "0 \<le> ?b" "?b < bucket_count cfg"
    using Suc.prems smod_nonneg [of "start + i" "bucket_count cfg"] by auto
  obtain x w1 where d: "deduct_one_bucket p ?b q w = (x, w1)" by fastforce
  have c: "counter (wredis w) (bucket_key p ?b) = Some (ns ?b)" "0 \<le> ns ?b" "fits_int64 (ns ?b)"
    using Suc.prems(6) [OF b(2,3)] by auto
  note dc = deduct_one_bucket_calm [OF d Suc.prems(1) c Suc.prems(3)]
  show ?case
  proof (cases "q \<le> ns ?b")
    case True
    then have "probe_loop (Suc m) i start cfg p q w
        = Ret ((\<lparr>dr_bucket = ?b, dr_remaining = ns ?b - q, dr_probes = i + 1\<rparr>, None), w1)"
      using dc d b Suc.prems(2) by (simp add: Let_def)
    moreover have "\<exists>j < Suc m. q \<le> ns ((start + i + int j) mod bucket_count cfg)"
      using True by (intro exI [of _ 0]) simp
    ultimately show ?thesis by blast
  next
    case False
    then have x: "x = Inl OrderInsufficientStock" "calm w1" "wredis w1 = wredis w" using dc by auto
    have "\<exists>res err w'. probe_loop m (i + 1) start cfg p q w1 = Ret ((res, err), w')
      \<and> (err = None \<longleftrightarrow> (\<exists>j < m. q \<le> ns ((start + (i + 1) + int j) mod bucket_count cfg)))
      \<and> (err = None \<or> err = Some OrderInsufficientStock)"
      using Suc.prems x by (intro Suc.IH) auto
    moreover have "(\<exists>j < Suc m. q \<le> ns ((start + i + int j) mod bucket_count cfg))
        \<longleftrightarrow> (\<exists>j < m. q \<le> ns ((start + (i + 1) + int j) mod bucket_count cfg))"
      using False by (simp add: Ex_less_Suc2 ac_simps)
    ultimately show ?thesis using x(1) d b Suc.prems(2) by simp
  qed
qed simp

section \<open>The path as a gated path\<close>

definition bucket_level :: "bucket_config \<Rightarrow> redis \<Rightarrow> int \<Rightarrow> int" where
  "bucket_level cfg r p = (\<Sum>b<nat \<bar>bucket_count cfg\<bar>.
     case counter r (bucket_key p (int b)) of Some n \<Rightarrow> max 0 n | None \<Rightarrow> 0)"

definition bucket_grab :: "bucket_config \<Rightarrow> place_req \<Rightarrow> world \<Rightarrow> (go_error + int) \<times> world" where
  "bucket_grab cfg req w =
     (case deduct_with_probe cfg (r_product req) (r_request req) (r_quantity req) w of
        Panic \<Rightarrow> (Inl (Opaque ''panic''), w)
      | Ret ((res, Some e), w1) \<Rightarrow> (Inl e, w1)
      | Ret ((res, None), w1) \<Rightarrow> (Inr (dr_bucket res), w1))"

definition bucket_undo :: "place_req \<Rightarrow> int \<Rightarrow> world \<Rightarrow> world" where
  "bucket_undo req b w = snd (rollback_to_bucket (r_product req) b (r_quantity req) w)"

text \<open>
  The configurations that panic: a count whose low 32 bits are 0 in \<open>StartBucket\<close>, the count 0 at the first probe.
\<close>

definition bucket_panics :: "bucket_config \<Rightarrow> bool" where
  "bucket_panics cfg \<longleftrightarrow> bucket_count cfg = 0 \<and> 0 < probe_budget cfg
     \<or> 0 < bucket_count cfg \<and> 2 ^ 32 dvd bucket_count cfg"

lemma deduct_with_probe_Panic: "deduct_with_probe cfg p rid q w = Panic \<longleftrightarrow> bucket_panics cfg"
proof (cases "bucket_count cfg = 0")
  case True
  then show ?thesis
    by (cases "nat (probe_budget cfg)") (auto simp: deduct_with_probe_def start_bucket_def bucket_panics_def)
next
  case False
  from probe_loop_returns [OF this] have pl: "probe_loop m i start cfg p q w \<noteq> Panic" for m i start
    by (metis go.distinct(1))
  from False pl show ?thesis
    by (auto simp: deduct_with_probe_def start_bucket_def bucket_panics_def word_of_int_eq_0_iff split: go.splits)
qed

lemma place_order_with_bucket_deduct_gated:
  "place_order_with_bucket_deduct nid env cfg req w =
     (if 0 < r_quantity req \<and> bucket_panics cfg then Panic
      else Ret (gated_run (bucket_grab cfg) bucket_undo nid env req w))"
proof (cases "0 < r_quantity req \<and> \<not> bucket_panics cfg")
  case True
  then obtain res err w1 where "deduct_with_probe cfg (r_product req) (r_request req) (r_quantity req) w
      = Ret ((res, err), w1)"
    using deduct_with_probe_Panic [of cfg "r_product req" "r_request req" "r_quantity req" w]
    by (cases "deduct_with_probe cfg (r_product req) (r_request req) (r_quantity req) w") auto
  then show ?thesis using True
    by (cases err) (auto simp: place_order_with_bucket_deduct_def gated_run_def bucket_grab_def
        bucket_undo_def validate_request_def split: prod.splits sum.splits)
next
  case False
  then show ?thesis
    using deduct_with_probe_Panic [of cfg "r_product req" "r_request req" "r_quantity req" w]
    by (auto simp: place_order_with_bucket_deduct_def gated_run_def validate_request_def)
qed

lemma bucket_level_rmodify:
  assumes "\<forall>k. counter r' k = (if k = bucket_key p b then Some m else counter r k)"
    and "0 \<le> b" "b < \<bar>bucket_count cfg\<bar>"
  shows "bucket_level cfg r' p' = bucket_level cfg r p' + (if p' = p then max 0 m
      - (case counter r (bucket_key p b) of Some n \<Rightarrow> max 0 n | None \<Rightarrow> 0) else 0)"
proof (cases "p' = p")
  case False
  then show ?thesis using assms(1) by (simp add: bucket_level_def)
next
  case True
  let ?N = "{..<nat \<bar>bucket_count cfg\<bar>}"
  have b: "nat b \<in> ?N" "int (nat b) = b" using assms(2,3) by auto
  let ?f = "\<lambda>r b. case counter r (bucket_key p (int b)) of Some n \<Rightarrow> max 0 n | None \<Rightarrow> 0"
  have "sum (?f r') (?N - {nat b}) = sum (?f r) (?N - {nat b})"
    using assms(1) b(2) by (intro sum.cong) auto
  then have "sum (?f r') ?N = max 0 m + (sum (?f r) ?N - ?f r (nat b))"
    using sum.remove [of ?N "nat b" "?f r'"] sum.remove [of ?N "nat b" "?f r"] assms(1) b by simp
  then show ?thesis using True b(2) by (simp add: bucket_level_def)
qed

lemma bucket_level_outside:
  assumes "\<forall>k. counter r' k = (if k = bucket_key p b then Some m else counter r k)"
    and "\<bar>bucket_count cfg\<bar> \<le> b"
  shows "bucket_level cfg r' p' = bucket_level cfg r p'"
  using assms by (auto simp: bucket_level_def intro!: sum.cong)

interpretation bucket_path: gated_path "bucket_level cfg" "bucket_grab cfg" bucket_undo for cfg
proof unfold_locales
  fix r p show "0 \<le> bucket_level cfg r p"
    by (auto simp: bucket_level_def intro!: sum_nonneg split: option.splits)
next
  fix w w' :: world and req :: place_req and x
  let ?p = "r_product req" and ?q = "r_quantity req"
  assume cl: "clean w" and q: "0 < ?q" and g: "bucket_grab cfg req w = (x, w')"
  show "clean w' \<and> wdb w' = wdb w \<and> (\<forall>p. bucket_level cfg (wredis w') p
      + (if p = ?p \<and> (\<exists>t. x = Inr t) then ?q else 0) \<le> bucket_level cfg (wredis w) p)"
  proof (cases "deduct_with_probe cfg ?p (r_request req) ?q w")
    case Panic
    then show ?thesis using g cl by (auto simp: bucket_grab_def)
  next
    case (Ret z)
    obtain res err w1 where z: "z = ((res, err), w1)" by (metis surj_pair)
    obtain start where "probe_loop (nat (probe_budget cfg)) 0 start cfg ?p ?q w = Ret ((res, err), w1)" "0 \<le> start"
      using deduct_with_probe_cases [OF Ret [unfolded z] cl] by blast
    note pl = probe_loop_cases [OF this(1) cl this(2)]
    show ?thesis
    proof (cases err)
      case (Some e)
      then show ?thesis using pl g Ret z by (auto simp: bucket_grab_def)
    next
      case None
      then obtain n where n: "counter (wredis w) (bucket_key ?p (dr_bucket res)) = Some n" "?q \<le> n"
        "wredis w1 = rmodify (bucket_key ?p (dr_bucket res)) (RString (Num (n - ?q))) (wredis w)"
        "0 \<le> dr_bucket res" "dr_bucket res < \<bar>bucket_count cfg\<bar>"
        using pl by auto
      have "bucket_level cfg (wredis w1) p = bucket_level cfg (wredis w) p + (if p = ?p then - ?q else 0)" for p
        using bucket_level_rmodify [of "wredis w1" ?p "dr_bucket res" "n - ?q" "wredis w" cfg p] n q by simp
      then show ?thesis using pl g Ret z None by (auto simp: bucket_grab_def)
    qed
  qed
next
  fix w :: world and req :: place_req and b
  let ?p = "r_product req" and ?q = "r_quantity req" and ?w' = "bucket_undo req b w"
  assume cl: "clean w" and q: "0 < ?q"
  show "clean ?w' \<and> wdb ?w' = wdb w \<and> (\<forall>p. bucket_level cfg (wredis ?w') p
      \<le> bucket_level cfg (wredis w) p + (if p = ?p then ?q else 0))"
  proof (cases "b < 0")
    case True
    then show ?thesis using cl q by (simp add: bucket_undo_def rollback_to_bucket_def)
  next
    case False
    obtain y w1 where y: "on_redis (rollback_bucket_script (bucket_key ?p b) ?q) w = (y, w1)" by fastforce
    note oc = on_redis_clean [OF y cl]
    have w1: "?w' = w1" using y False by (simp add: bucket_undo_def rollback_to_bucket_def split: sum.splits)
    have "bucket_level cfg (wredis w1) p \<le> bucket_level cfg (wredis w) p + (if p = ?p then ?q else 0)" for p
    proof (cases "wredis w1 = wredis w")
      case False
      then have "rollback_script (bucket_key ?p b) ?q (wredis w) = (y, wredis w1)"
        using oc by (auto simp: bucket_scripts)
      from rollback_script_cases [OF this] False obtain m where
        m: "\<forall>k'. counter (wredis w1) k' = (if k' = bucket_key ?p b then Some m else counter (wredis w) k')"
        "m = (case counter (wredis w) (bucket_key ?p b) of Some n \<Rightarrow> n | None \<Rightarrow> 0) + ?q"
        by auto
      show ?thesis
      proof (cases "b < \<bar>bucket_count cfg\<bar>")
        case True
        with bucket_level_rmodify [OF m(1) _ True, of p] \<open>\<not> b < 0\<close> m(2) q show ?thesis
          by (auto split: option.splits)
      next
        case False
        with bucket_level_outside [OF m(1), of cfg p] q show ?thesis by simp
      qed
    qed (use q in simp)
    then show ?thesis using oc w1 by simp
  qed
qed

section \<open>The spread\<close>

lemma sum_spread:
  "sum_list (map (\<lambda>b. if int b < r then c + 1 else c) [0..<N]) = int N * c + min (max 0 r) (int N)"
  by (induction N) (auto simp: algebra_simps)

lemma planned_stock_facts:
  assumes "0 \<le> n" "0 < cnt"
  shows "length (planned_stock n cnt) = nat cnt" "sum_list (planned_stock n cnt) = n"
    "v \<in> set (planned_stock n cnt) \<Longrightarrow> n div cnt \<le> v \<and> v \<le> n div cnt + 1"
proof -
  show "length (planned_stock n cnt) = nat cnt" by (simp add: planned_stock_def)
  have ds: "n smod cnt = n mod cnt" "n sdiv cnt = n div cnt"
    using assms smod_nonneg sdiv_nonneg by auto
  have "0 \<le> n mod cnt" "n mod cnt < cnt" using assms(2) by simp_all
  then have "sum_list (planned_stock n cnt) = cnt * (n div cnt) + n mod cnt"
    unfolding planned_stock_def ds sum_spread using assms(2) by simp
  then show "sum_list (planned_stock n cnt) = n" by simp
  show "v \<in> set (planned_stock n cnt) \<Longrightarrow> n div cnt \<le> v \<and> v \<le> n div cnt + 1"
    by (auto simp: planned_stock_def ds split: if_splits)
qed

lemma mset_lookup:
  "rlookup (snd (redis_mset kvs r)) k = (case map_of (rev kvs) k of
     Some v \<Rightarrow> Some (RString (Num v)) | None \<Rightarrow> rlookup r k)"
  by (induction kvs rule: rev_induct) (auto simp: redis_mset_def split: prod.splits)

lemma bucket_keys_distinct: "distinct (bucket_keys p cnt)"
  by (simp add: bucket_keys_def distinct_map inj_on_def)

lemma mset_bucket:
  assumes "length plan = nat cnt" "b < nat cnt"
  shows "rlookup (snd (redis_mset (zip (bucket_keys p cnt) plan) r)) (bucket_key p (int b))
    = Some (RString (Num (plan ! b)))"
proof -
  have "(bucket_key p (int b), plan ! b) \<in> set (zip (bucket_keys p cnt) plan)"
    using assms by (auto simp: in_set_zip bucket_keys_def intro!: exI [of _ b])
  then have "map_of (rev (zip (bucket_keys p cnt) plan)) (bucket_key p (int b)) = Some (plan ! b)"
    using assms bucket_keys_distinct [of p cnt]
    by (intro map_of_is_SomeI) (simp_all add: rev_map [symmetric], simp add: bucket_keys_def)
  then show ?thesis by (simp add: mset_lookup)
qed

lemma parse_buckets_nums: "parse_buckets (map (Some \<circ> Num) ns) = Inr ns"
  by (induction ns) auto

lemma spread_state:
  assumes "length plan = nat cnt" "0 < cnt" "r' = snd (redis_mset (zip (bucket_keys p cnt) plan) r)"
  shows "fst (redis_mget (bucket_keys p cnt) r') = Inr (map (Some \<circ> Num) plan)"
    "bucket_count cfg = cnt \<Longrightarrow> \<forall>v \<in> set plan. 0 \<le> v \<Longrightarrow> bucket_level cfg r' p = sum_list plan"
proof -
  have lk: "rlookup r' (bucket_key p (int b)) = Some (RString (Num (plan ! b)))" if "b < nat cnt" for b
    using mset_bucket [OF assms(1) that] assms(3) by simp
  have "map (\<lambda>k. case rlookup r' k of Some (RString v) \<Rightarrow> Some v | _ \<Rightarrow> None) (bucket_keys p cnt)
      = map (Some \<circ> Num) plan"
    by (rule nth_equalityI) (auto simp: bucket_keys_def assms(1) lk)
  then show "fst (redis_mget (bucket_keys p cnt) r') = Inr (map (Some \<circ> Num) plan)"
    using assms(2) by (simp add: redis_mget_def bucket_keys_def)
  assume c: "bucket_count cfg = cnt" and nn: "\<forall>v \<in> set plan. 0 \<le> v"
  have "bucket_level cfg r' p = (\<Sum>b<nat \<bar>cnt\<bar>. case counter r' (bucket_key p (int b)) of
      Some n \<Rightarrow> max 0 n | None \<Rightarrow> 0)"
    by (simp add: bucket_level_def c)
  also have "\<dots> = (\<Sum>b<length plan. plan ! b)"
    using lk nn assms(1,2) by (auto simp: counter_def intro!: sum.cong)
  also have "\<dots> = sum_list plan" by (simp add: sum_list_sum_nth atLeast0LessThan)
  finally show "bucket_level cfg r' p = sum_list plan" .
qed

section \<open>Properties\<close>

text \<open>
  probing is bounded and honest. Whatever the schedule of (cleanly) failing calls, a deduction
  on positive \<open>BucketCount\<close> visits between 1 and \<open>1 + MaxProbes\<close> buckets; a success names an existing
  bucket, the one at the distance it probed, and exactly that key fell by the quantity it had; a
  failure names bucket \<open>-1\<close> and changed nothing.
\<close>

theorem deduct_with_probe_bounded:
  assumes "deduct_with_probe cfg p rid q w = Ret ((res, err), w')" "clean w"
    and "0 < bucket_count cfg" "0 \<le> max_probes cfg" "max_probes cfg < 2 ^ 63 - 1"
  shows "wdb w' = wdb w \<and> 1 \<le> dr_probes res \<and> dr_probes res \<le> 1 + max_probes cfg \<and>
    (case err of
       None \<Rightarrow> 0 \<le> dr_bucket res \<and> dr_bucket res < bucket_count cfg
         \<and> (\<exists>start. start_bucket rid (bucket_count cfg) = Ret start
              \<and> dr_bucket res = (start + dr_probes res - 1) mod bucket_count cfg)
         \<and> (\<exists>n. counter (wredis w) (bucket_key p (dr_bucket res)) = Some n \<and> q \<le> n
              \<and> dr_remaining res = n - q
              \<and> wredis w' = rmodify (bucket_key p (dr_bucket res)) (RString (Num (n - q))) (wredis w))
     | Some e \<Rightarrow> dr_bucket res = -1 \<and> wredis w' = wredis w)"
proof -
  obtain start where st: "start_bucket rid (bucket_count cfg) = Ret start" "0 \<le> start"
    and pl: "probe_loop (nat (1 + max_probes cfg)) 0 start cfg p q w = Ret ((res, err), w')"
    using deduct_with_probe_cases [OF assms(1,2)] probe_budget_id [OF assms(4,5)] by metis
  note c = probe_loop_cases [OF pl assms(2) st(2)]
  show ?thesis
  proof (cases err)
    case (Some e)
    then show ?thesis using c assms(4) probe_budget_id [OF assms(4,5)] by auto
  next
    case None
    then have "0 \<le> start + dr_probes res - 1" using c st(2) by auto
    from smod_nonneg [OF this assms(3)] st(1) c None assms(3,4) show ?thesis by auto
  qed
qed

text \<open>Bucket \<open>0\<close> holds two items and bucket \<open>1\<close> one, and no further probe is allowed.\<close>

definition two_buckets :: bucket_config where
  "two_buckets = \<lparr>bucket_count = 2, max_probes = 0\<rparr>"

definition bucket_world :: world where
  "bucket_world = demo_world\<lparr>wredis := \<lparr>rkeys = [bucket_key 1 0 \<mapsto> \<lparr>rval = RString (Num 2), expires = None\<rparr>,
     bucket_key 1 1 \<mapsto> \<lparr>rval = RString (Num 1), expires = None\<rparr>], rtime = 0\<rparr>\<rparr>"

lemma start_bucket_demo: "start_bucket ''r1'' 2 = Ret 0" "start_bucket ''r2'' 2 = Ret 1"
  by (simp_all add: start_bucket_def fnv32a_def)

lemma bucket_world_calm [simp]: "calm bucket_world" "clean bucket_world"
  by (simp_all add: calm_def clean_def bucket_world_def demo_world_def)

lemma bucket_world_counter:
  "counter (wredis bucket_world) (bucket_key 1 0) = Some 2"
  "counter (wredis bucket_world) (bucket_key 1 1) = Some 1"
  by (simp_all add: counter_def rlookup_def bucket_world_def)

theorem deduct_with_probe_bounded_witness:
  "\<exists>res w'. deduct_with_probe two_buckets 1 ''r1'' 2 bucket_world = Ret ((res, None), w')
     \<and> dr_bucket res = 0 \<and> dr_probes res = 1 \<and> dr_remaining res = 0"
proof -
  have "\<exists>res w'. deduct_with_probe two_buckets 1 ''r1'' 2 bucket_world = Ret ((res, None), w')"
    by (simp add: deduct_with_probe_def probe_budget_id two_buckets_def start_bucket_demo deduct_one_bucket_def Let_def
        bucket_world_def demo_world_def go_simps deduct_bucket_script_def rlookup_def decrby_def incrby_def
        fits_int64_def signed_modulo_int_def signed_divide_int_def)
  then obtain res w' where run: "deduct_with_probe two_buckets 1 ''r1'' 2 bucket_world = Ret ((res, None), w')"
    by blast
  note b = deduct_with_probe_bounded [OF run bucket_world_calm(2)]
  from b have "dr_probes res = 1" by (simp add: two_buckets_def)
  with b run show ?thesis
    by (auto simp: two_buckets_def start_bucket_demo bucket_world_counter)
qed

text \<open>
  probing finds stock within its reach. With answered calls, a deduction from known buckets
  succeeds exactly when one of the \<open>1 + MaxProbes\<close> buckets from the start bucket on has enough; so
  stock outside that window is refused although it is there.
\<close>

theorem deduct_with_probe_complete:
  assumes "calm w" "0 < bucket_count cfg" "bucket_count cfg < 2 ^ 32" "0 < q" "0 \<le> max_probes cfg"
    and "max_probes cfg < 2 ^ 63 - 1"
    and "\<And>b. 0 \<le> b \<Longrightarrow> b < bucket_count cfg \<Longrightarrow>
      counter (wredis w) (bucket_key p b) = Some (ns b) \<and> 0 \<le> ns b \<and> fits_int64 (ns b)"
  shows "\<exists>start res err w'. start_bucket rid (bucket_count cfg) = Ret start
    \<and> deduct_with_probe cfg p rid q w = Ret ((res, err), w')
    \<and> (err = None \<longleftrightarrow> (\<exists>j \<le> nat (max_probes cfg). q \<le> ns ((start + int j) mod bucket_count cfg)))
    \<and> (err = None \<or> err = Some OrderInsufficientStock)"
proof -
  obtain start where st: "start_bucket rid (bucket_count cfg) = Ret start"
    using start_bucket_Ret [OF assms(3), of rid] by blast
  have m: "nat (1 + max_probes cfg) = Suc (nat (max_probes cfg))" using assms(5) by simp
  from probe_loop_complete [OF assms(1,2,4) start_bucket_nonneg [OF st], of 0 p ns "nat (1 + max_probes cfg)"]
    assms(7) st show ?thesis
    by (simp add: deduct_with_probe_def probe_budget_id [OF assms(5,6)] m less_Suc_eq_le)
qed

text \<open>Three items are left in all, two of them in bucket 0: the request that starts at bucket 1 is refused.\<close>

theorem deduct_with_probe_complete_witness:
  "\<exists>res w'. deduct_with_probe two_buckets 1 ''r2'' 2 bucket_world = Ret ((res, Some OrderInsufficientStock), w')
     \<and> bucket_level two_buckets (wredis bucket_world) 1 = 3"
proof -
  have "\<exists>start res err w'. start_bucket ''r2'' (bucket_count two_buckets) = Ret start
    \<and> deduct_with_probe two_buckets 1 ''r2'' 2 bucket_world = Ret ((res, err), w')
    \<and> (err = None \<longleftrightarrow> (\<exists>j \<le> nat (max_probes two_buckets).
         2 \<le> (\<lambda>b::int. if b = 0 then 2 else (1::int)) ((start + int j) mod bucket_count two_buckets)))
    \<and> (err = None \<or> err = Some OrderInsufficientStock)"
  proof (rule deduct_with_probe_complete)
    fix b :: int assume "0 \<le> b" "b < bucket_count two_buckets"
    then have "b = 0 \<or> b = 1" by (auto simp: two_buckets_def)
    then show "counter (wredis bucket_world) (bucket_key 1 b) = Some (if b = 0 then 2 else 1)
        \<and> 0 \<le> (if b = 0 then 2 else (1::int)) \<and> fits_int64 (if b = 0 then 2 else 1)"
      using bucket_world_counter by (auto simp: fits_int64_def)
  qed (simp_all add: two_buckets_def)
  then show ?thesis
    using bucket_world_counter
    by (auto simp: two_buckets_def start_bucket_demo bucket_level_def numeral_2_eq_2)
qed

text \<open>
  C9: the bucket path never oversells. A call with a positive quantity panics exactly for the configurations
  whose count is 0 (when the budget allows a probe) or a positive multiple of \<open>2^32\<close>; for every other one, negative
  counts and budgets that wrapped included, a call keeps the gate invariant whose level is the sum over the buckets,
  beside anyone else who keeps it, under every schedule of cleanly failing calls.
\<close>

theorem bucket_never_oversells:
  assumes "gate_env (bucket_level cfg) offer env"
  shows "\<exists>f. gate_env (bucket_level cfg) offer (\<lambda>w. snd (f w))
    \<and> (\<forall>w. place_order_with_bucket_deduct nid env cfg req w =
        (if 0 < r_quantity req \<and> (bucket_count cfg = 0 \<and> 0 < to_int64 (1 + max_probes cfg)
             \<or> 0 < bucket_count cfg \<and> 2 ^ 32 dvd bucket_count cfg)
         then Panic else Ret (f w)))"
  using bucket_path.gated_run_env [OF assms, of nid req] place_order_with_bucket_deduct_gated
  unfolding bucket_panics_def probe_budget_def by blast

lemma bucket_world_inv: "gate_inv (bucket_level two_buckets) (\<lambda>p. 3) (\<lambda>p. 0) bucket_world"
proof -
  have "bucket_level two_buckets (wredis bucket_world) p \<le> db_stock bucket_world p" for p
    using bucket_world_counter
    by (auto simp: bucket_level_def two_buckets_def numeral_2_eq_2 db_stock_def stock_of_def
        bucket_world_def demo_simps counter_def rlookup_def)
  then show ?thesis using demo_inv by (simp add: gate_inv_def bucket_world_def demo_world_def clean_def)
qed

theorem bucket_never_oversells_witness:
  "\<exists>x w'. place_order_with_bucket_deduct (Inr 9) (\<lambda>w. w) two_buckets demo_req bucket_world = Ret (x, w')
     \<and> db_inv (\<lambda>p. 3) (wdb w')"
proof -
  have "\<not> 2 ^ 32 dvd bucket_count two_buckets" "bucket_count two_buckets \<noteq> 0" by (simp_all add: two_buckets_def)
  then obtain f where f: "gate_env (bucket_level two_buckets) (\<lambda>p. 3) (\<lambda>w. snd (f w))"
      "\<forall>w. place_order_with_bucket_deduct (Inr 9) (\<lambda>w. w) two_buckets demo_req w = Ret (f w)"
    using bucket_never_oversells [OF gate_env_id, of two_buckets "\<lambda>p. 3" "Inr 9" demo_req] by auto
  from gate_env_run [OF f(1) bucket_world_inv] f(2) show ?thesis
    by (cases "f bucket_world") (simp add: gate_inv_def)
qed

text \<open>
  C34: spreading and reading back are inverse. When the calls answer, the product exists with a stock of at
  least 0 and the positive count is one Go can allocate the slices for, \<open>SpreadStock\<close> returns one
  quantity per bucket, each the rounded-down or rounded-up share, adding up to the stock of the
  database; the buckets then hold exactly that stock, whatever they held before, and
  \<open>TotalRemaining\<close> reads back the sum and the same list.
\<close>

theorem spread_stock_roundtrip:
  assumes "calm w" "0 < bucket_count cfg" "\<not> make_panics 16 (bucket_count cfg)" "stock_of (wdb w) p = Some n" "0 \<le> n" "fits_int64 n"
  shows "\<exists>plan w1 w2. spread_stock p cfg w = Ret (Inr plan, w1)
    \<and> length plan = nat (bucket_count cfg) \<and> sum_list plan = n
    \<and> (\<forall>v \<in> set plan. n div bucket_count cfg \<le> v \<and> v \<le> n div bucket_count cfg + 1)
    \<and> bucket_level cfg (wredis w1) p = n \<and> wdb w1 = wdb w
    \<and> total_remaining p cfg w1 = Ret (Inr (n, plan), w2)"
proof -
  let ?plan = "planned_stock n (bucket_count cfg)"
  note pf = planned_stock_facts [OF assms(5,2)]
  have mk: "\<not> make_panics 8 (bucket_count cfg)" using assms(2,3) by (simp add: make_panics_def)
  obtain x0 w0 where s: "on_db (query (select_stock p)) w = (x0, w0)" by fastforce
  have x0: "x0 = Inr n" "wdb w0 = wdb w" "calm w0"
    using on_db_calm [OF s assms(1)] assms(4) by (auto simp: query_def select_stock_Inr [symmetric])
  obtain x1 w1 where m: "on_redis (redis_mset (zip (bucket_keys p (bucket_count cfg)) ?plan)) w0 = (x1, w1)"
    by fastforce
  have x1: "x1 = Inr ()" "wredis w1 = snd (redis_mset (zip (bucket_keys p (bucket_count cfg)) ?plan) (wredis w0))"
    "calm w1" "wdb w1 = wdb w"
    using on_redis_calm [OF m x0(3)] on_redis_cases [OF m] x0 by (auto simp: redis_mset_def)
  obtain x2 w2 where g: "on_redis (redis_mget (bucket_keys p (bucket_count cfg))) w1 = (x2, w2)" by fastforce
  have nn: "\<forall>v \<in> set ?plan. 0 \<le> v"
    using pf(3) assms(2,5) by (meson order_trans pos_imp_zdiv_nonneg_iff)
  note st = spread_state [OF pf(1) assms(2) x1(2)]
  have x2: "x2 = Inr (map (Some \<circ> Num) ?plan)" using on_redis_calm [OF g x1(3)] st(1) by auto
  have "total_remaining p cfg w1 = Ret (Inr (n, ?plan), w2)"
    using g x2 assms(3,6) pf(2) by (simp add: total_remaining_def parse_buckets_nums to_int64_id)
  moreover have "spread_stock p cfg w = Ret (Inr ?plan, w1)"
    using s x0 m x1 assms(2) mk by (simp add: spread_stock_def Let_def)
  ultimately show ?thesis
    using pf st(2) [OF refl nn] x1(4)
    by (intro exI [of _ ?plan] exI [of _ w1] exI [of _ w2]) simp
qed

theorem spread_stock_roundtrip_witness:
  "\<exists>plan w1. spread_stock 1 two_buckets bucket_world = Ret (Inr plan, w1) \<and> sum_list plan = 3
     \<and> bucket_level two_buckets (wredis w1) 1 = 3"
proof -
  have "stock_of (wdb bucket_world) 1 = Some 3"
    by (simp add: bucket_world_def demo_world_def demo_db_def stock_of_def)
  from spread_stock_roundtrip [OF bucket_world_calm(1) _ _ this, of two_buckets] show ?thesis
    by (auto simp: two_buckets_def fits_int64_def make_panics_def)
qed

text \<open>
  \<open>BucketCount = 0\<close>. \<open>StartBucket\<close> degrades to bucket 0 as its comment promises, but its caller
  divides by the count: every deduction that makes a probe panics, and so does \<open>SpreadStock\<close> once it
  has read the stock.
\<close>

theorem bucket_count_zero_panics:
  assumes "bucket_count cfg = 0" "0 \<le> max_probes cfg" "max_probes cfg < 2 ^ 63 - 1"
  shows "start_bucket rid (bucket_count cfg) = Ret 0"
    "deduct_with_probe cfg p rid q w = Panic"
    "fst (on_db (query (select_stock p)) w) = Inr n \<Longrightarrow> spread_stock p cfg w = Panic"
proof -
  show "start_bucket rid (bucket_count cfg) = Ret 0" by (simp add: start_bucket_def assms(1))
  have "0 < probe_budget cfg" using assms(2) by (simp add: probe_budget_id [OF assms(2,3)])
  then show "deduct_with_probe cfg p rid q w = Panic"
    by (simp add: deduct_with_probe_Panic bucket_panics_def assms(1))
  show "fst (on_db (query (select_stock p)) w) = Inr n \<Longrightarrow> spread_stock p cfg w = Panic"
    by (auto simp: spread_stock_def assms(1) split: prod.splits)
qed

theorem bucket_count_zero_panics_witness:
  "deduct_with_probe \<lparr>bucket_count = 0, max_probes = 2\<rparr> 1 ''r1'' 1 bucket_world = Panic"
  by (rule bucket_count_zero_panics) simp_all

end
