(* ===== verification/Mq.thy ===== *)
theory Mq
  imports Prededuct
begin

text \<open>
  Package \<open>mq\<close> (\<open>internal/mq/\<close>) and the consumer loop of \<open>cmd/api/main.go\<close>: the event
  \<open>order.created\<close> and its JSON, the accepting half \<open>EnqueueOrder\<close> (deduct, produce, compensate), the
  consuming half \<open>PlaceRecord\<close>, the retry policy with its dead-letter topic, and the loop that
  processes a polled batch and commits offsets. A JSON document is kept as a value; what the
  source relies on of \<open>encoding/json\<close> is written out: a missing field is the zero value, a field of
  another type is an error, \<open>null\<close> leaves the zero struct.
\<close>

section \<open>The event and its JSON (model.go)\<close>

definition order_created_topic :: string where "order_created_topic = ''order.created''"
definition order_created_dlt :: string where "order_created_dlt = ''order.created.DLT''"

record order_created =
  oc_request :: string
  oc_product :: int
  oc_user :: int
  oc_quantity :: int
  oc_accepted :: int

text \<open>
  Reading one field of an object into a string, an \<open>int64\<close> or a time, as \<open>encoding/json\<close> does: every member
  whose name is the field's after case folding (ASCII letters, and the long s and the Kelvin sign, which fold
  to letters) is stored in turn, so later ones win; \<open>null\<close> stores nothing; a value of another type is an error
  of the whole object.
\<close>

definition ascii_lower :: "char \<Rightarrow> char" where
  "ascii_lower c = (let n = (of_char c :: nat) in if 65 \<le> n \<and> n \<le> 90 then char_of (n + 32) else c)"

fun json_fold :: "string \<Rightarrow> string" where
  "json_fold [] = []"
| "json_fold (c # s) =
     (if c = CHR 0xC5 \<and> take 1 s = [CHR 0xBF] then CHR ''s'' # json_fold (drop 1 s)
      else if c = CHR 0xE2 \<and> take 2 s = [CHR 0x84, CHR 0xAA] then CHR ''k'' # json_fold (drop 2 s)
      else ascii_lower c # json_fold s)"

fun json_values :: "string \<Rightarrow> (string \<times> json) list \<Rightarrow> json list" where
  "json_values k [] = []"
| "json_values k ((n, v) # fs) =
     (if json_fold n = json_fold k then v # json_values k fs else json_values k fs)"

fun json_store :: "(json \<Rightarrow> 'a option) \<Rightarrow> 'a \<Rightarrow> json list \<Rightarrow> go_error + 'a" where
  "json_store get x [] = Inr x"
| "json_store get x (v # vs) = (if v = JNull then json_store get x vs
     else (case get v of None \<Rightarrow> Inl DecodeError | Some y \<Rightarrow> json_store get y vs))"

definition json_text :: "string \<Rightarrow> (string \<times> json) list \<Rightarrow> go_error + string" where
  "json_text k fs = json_store (\<lambda>v. case v of JText s \<Rightarrow> Some s | _ \<Rightarrow> None) '''' (json_values k fs)"

definition json_num :: "string \<Rightarrow> (string \<times> json) list \<Rightarrow> go_error + int" where
  "json_num k fs = json_store (\<lambda>v. case v of JNum n \<Rightarrow> if fits_int64 n then Some n else None | _ \<Rightarrow> None) 0 (json_values k fs)"

definition json_time :: "string \<Rightarrow> (string \<times> json) list \<Rightarrow> go_error + int" where
  "json_time k fs = json_store (\<lambda>v. case v of JTime t \<Rightarrow> Some t | _ \<Rightarrow> None) 0 (json_values k fs)"

declare json_fold.simps [simp del]

text \<open>The names the source declares are in lower case.\<close>

lemma json_names [simp]:
  "json_fold ''request_id'' = ''request_id''" "json_fold ''product_id'' = ''product_id''"
  "json_fold ''user_id'' = ''user_id''" "json_fold ''quantity'' = ''quantity''"
  "json_fold ''accepted_at'' = ''accepted_at''" "json_fold ''created_at'' = ''created_at''"
  "json_fold ''state'' = ''state''" "json_fold ''id'' = ''id''" "json_fold ''name'' = ''name''"
  "json_fold ''stock'' = ''stock''"
  by (simp_all add: json_fold.simps ascii_lower_def)

text \<open>A member named with a capital letter or with the long s is read; an exact but mistyped one spoils the object.\<close>

lemma json_name_folds:
  "json_text ''request_id'' [(''Request_ID'', JText ''r1'')] = Inr ''r1''"
  "json_text ''state'' [(''state'', JText ''pending''), (CHR 0xC5 # CHR 0xBF # ''tate'', JText ''s'')] = Inr ''s''"
  "json_num ''quantity'' [(''quantity'', JText ''2''), (''quantity'', JNum 2), (''quantity'', JNull)] = Inl DecodeError"
  by (simp_all add: json_fold.simps ascii_lower_def char_of_def bit_Suc_0_iff json_text_def json_num_def)

definition encode_order_created :: "place_req \<Rightarrow> int \<Rightarrow> payload" where
  "encode_order_created req accepted = Doc (JObj
     [(''request_id'', JText (r_request req)), (''product_id'', JNum (r_product req)),
      (''user_id'', JNum (r_user req)), (''quantity'', JNum (r_quantity req)),
      (''accepted_at'', JTime accepted)])"

definition decode_order_created :: "payload \<Rightarrow> go_error + order_created" where
  "decode_order_created v = (case v of
       Doc JNull \<Rightarrow> Inr \<lparr>oc_request = '''', oc_product = 0, oc_user = 0, oc_quantity = 0, oc_accepted = 0\<rparr>
     | Doc (JObj fs) \<Rightarrow>
         (case (json_text ''request_id'' fs, json_num ''product_id'' fs, json_num ''user_id'' fs,
                json_num ''quantity'' fs, json_time ''accepted_at'' fs) of
            (Inr r, Inr p, Inr u, Inr q, Inr t) \<Rightarrow>
              Inr \<lparr>oc_request = r, oc_product = p, oc_user = u, oc_quantity = q, oc_accepted = t\<rparr>
          | _ \<Rightarrow> Inl (Wrapped DecodeError))
     | _ \<Rightarrow> Inl (Wrapped DecodeError))"

definition request_of_event :: "order_created \<Rightarrow> place_req" where
  "request_of_event ev = \<lparr>r_request = oc_request ev, r_product = oc_product ev,
     r_user = oc_user ev, r_quantity = oc_quantity ev\<rparr>"

definition request_from_record :: "payload \<Rightarrow> go_error + place_req" where
  "request_from_record v = map_sum id request_of_event (decode_order_created v)"

section \<open>Records and the producer\<close>

text \<open>A consumed record also has its position.\<close>

record consumed = krecord +
  k_partition :: int
  k_offset :: int

text \<open>\<open>ProduceSync\<close>: append, with the same three outcomes as any remote call.\<close>

definition produce_sync :: "krecord \<Rightarrow> world \<Rightarrow> (go_error + unit) \<times> world" where
  "produce_sync rec w = (case next_fault w of
       (NoFault, w1) \<Rightarrow> (Inr (), w1\<lparr>wlog := wlog w1 @ [rec]\<rparr>)
     | (Lost e, w1) \<Rightarrow> (Inl (net_err e), w1)
     | (Unacked e, w1) \<Rightarrow> (Inl (net_err e), w1\<lparr>wlog := wlog w1 @ [rec]\<rparr>))"

lemma produce_sync_cases:
  assumes "produce_sync rec w = (x, w')"
  shows "wredis w' = wredis w \<and> wdb w' = wdb w \<and>
    (x = Inr () \<and> wlog w' = wlog w @ [rec]
     \<or> (\<exists>e. x = Inl (net_err e)) \<and> wlog w' \<in> {wlog w, wlog w @ [rec]})"
  using assms by (auto simp: produce_sync_def split: prod.splits fault.splits dest!: next_fault_frame)

lemma produce_sync_clean:
  "produce_sync rec w = (x, w') \<Longrightarrow> clean w \<Longrightarrow> clean w'
     \<and> (x = Inr () \<and> wlog w' = wlog w @ [rec] \<or> (\<exists>e. x = Inl (net_err e)) \<and> wlog w' = wlog w)"
  by (cases "next_fault w")
    (auto simp: produce_sync_def split: fault.splits dest: clean_fault next_fault_frame)

lemma produce_sync_one_loss:
  "produce_sync rec w = (x, w') \<Longrightarrow> one_loss w \<Longrightarrow>
     x = Inr () \<and> one_loss w' \<or> (\<exists>e. x = Inl (net_err e)) \<and> calm w'"
  by (cases "next_fault w")
    (auto simp: produce_sync_def split: fault.splits dest: one_loss_fault next_fault_frame)

lemma produce_sync_calm: "produce_sync rec w = (x, w') \<Longrightarrow> calm w \<Longrightarrow> x = Inr () \<and> calm w'"
  by (cases "next_fault w")
    (auto simp: produce_sync_def split: fault.splits dest: calm_fault next_fault_frame)

section \<open>Accepting: EnqueueOrder (p1\_async.go)\<close>

record accepted_order =
  ao_request :: string
  ao_status :: int
  ao_accepted :: int

definition order_record :: "string \<Rightarrow> place_req \<Rightarrow> int \<Rightarrow> krecord" where
  "order_record topic req now = \<lparr>k_topic = topic, k_key = show_int (r_product req),
     k_value = encode_order_created req now, k_headers = []\<rparr>"

text \<open>The compensation runs on its own context; its error is dropped. \<open>now\<close> is \<open>time.Now()\<close>.\<close>

definition enqueue_order :: "string \<Rightarrow> int \<Rightarrow> place_req \<Rightarrow> world \<Rightarrow> (go_error + accepted_order) \<times> world" where
  "enqueue_order topic now req w =
     (case pre_deduct (r_product req) (r_quantity req) w of
        (Inl e, w1) \<Rightarrow> (Inl e, w1)
      | (Inr _, w1) \<Rightarrow>
        (case produce_sync (order_record topic req now) w1 of
           (Inl e, w2) \<Rightarrow> (Inl e, snd (rollback_pre_deduct (r_product req) (r_quantity req) w2))
         | (Inr _, w2) \<Rightarrow> (Inr \<lparr>ao_request = r_request req, ao_status = 202, ao_accepted = now\<rparr>, w2)))"

section \<open>Consuming: PlaceRecord (p1\_async.go)\<close>

definition place_record :: "go_error + int \<Rightarrow> consumed \<Rightarrow> world \<Rightarrow> (go_error + order) \<times> world" where
  "place_record nid rec w = (case request_from_record (k_value rec) of
       Inl e \<Rightarrow> (Inl e, w)
     | Inr req \<Rightarrow> place_order_tx nid (\<lambda>d. d) (\<lambda>d. d) req w)"

section \<open>Retrying: ProcessWithRetry (p3\_retry.go)\<close>

record retry_policy =
  rp_max :: int
  rp_base :: int

record retry_result =
  rr_attempts :: int
  rr_backoffs :: "int list"
  rr_dead :: bool

text \<open>\<open>cause.Error()\<close> is a parameter: the text of an error is the libraries' business.\<close>

definition dlt_headers :: "(go_error \<Rightarrow> string) \<Rightarrow> consumed \<Rightarrow> go_error \<Rightarrow> int \<Rightarrow> (string \<times> string) list" where
  "dlt_headers text rec cause attempts =
     [(''failure-reason'', text cause), (''retry-count'', show_int attempts),
      (''original-topic'', k_topic rec), (''original-partition'', show_int (k_partition rec)),
      (''original-offset'', show_int (k_offset rec))]"

definition dlt_record :: "(go_error \<Rightarrow> string) \<Rightarrow> string \<Rightarrow> consumed \<Rightarrow> go_error \<Rightarrow> int \<Rightarrow> krecord" where
  "dlt_record text dlt rec cause attempts = \<lparr>k_topic = dlt, k_key = k_key rec, k_value = k_value rec,
     k_headers = dlt_headers text rec cause attempts\<rparr>"

text \<open>\<open>HeaderMap\<close> lets a later header of the same key win. Through it a dead letter names the delivery it came from.\<close>

definition header_map :: "krecord \<Rightarrow> string \<rightharpoonup> string" where
  "header_map rec = fold (\<lambda>(k, v) m. m(k \<mapsto> v)) (k_headers rec) Map.empty"

lemma header_map_append:
  "header_map (rec\<lparr>k_headers := hs @ [(k, v)]\<rparr>) = (header_map (rec\<lparr>k_headers := hs\<rparr>))(k \<mapsto> v)"
  by (simp add: header_map_def)

lemma dead_letter_headers:
  "header_map (dlt_record text dlt rec e a) ''retry-count'' = Some (show_int a)"
  "header_map (dlt_record text dlt rec e a) ''failure-reason'' = Some (text e)"
  "header_map (dlt_record text dlt rec e a) ''original-topic'' = Some (k_topic rec)"
  "header_map (dlt_record text dlt rec e a) ''original-partition'' = Some (show_int (k_partition rec))"
  "header_map (dlt_record text dlt rec e a) ''original-offset'' = Some (show_int (k_offset rec))"
  by (simp_all add: header_map_def dlt_record_def dlt_headers_def)

lemma dead_letter_identifies:
  assumes "dlt_record text dlt rec e a = dlt_record text dlt rec' e' a'"
  shows "k_topic rec = k_topic rec' \<and> k_partition rec = k_partition rec' \<and> k_offset rec = k_offset rec'
    \<and> k_value rec = k_value rec' \<and> a = a'"
  using assms by (simp add: dlt_record_def dlt_headers_def)

text \<open>
  The loop: \<open>m\<close> further attempts are allowed after number \<open>a\<close>. \<open>cancelled a\<close> says that the context
  ends during the wait after attempt \<open>a\<close>, and with which error. The handler is given the attempt's
  number, for the state its closure has of its own (the identifier generator). The result is the order (none
  when dead-lettered), the statistics and the error.
\<close>

fun retry_loop :: "(go_error \<Rightarrow> string) \<Rightarrow> string \<Rightarrow> (nat \<Rightarrow> go_error option)
    \<Rightarrow> (nat \<Rightarrow> consumed \<Rightarrow> world \<Rightarrow> (go_error + order) \<times> world) \<Rightarrow> int \<Rightarrow> consumed
    \<Rightarrow> nat \<Rightarrow> nat \<Rightarrow> int list \<Rightarrow> world
    \<Rightarrow> (order option \<times> retry_result \<times> go_error option) \<times> world" where
  "retry_loop text dlt cancelled handler base rec m a bs w =
     (case handler a rec w of
        (Inr ord, w1) \<Rightarrow> ((Some ord, \<lparr>rr_attempts = int a, rr_backoffs = bs, rr_dead = False\<rparr>, None), w1)
      | (Inl e, w1) \<Rightarrow>
        (case m of
           0 \<Rightarrow>
             (case produce_sync (dlt_record text dlt rec e (int a)) w1 of
                (Inl pe, w2) \<Rightarrow> ((None, \<lparr>rr_attempts = int a, rr_backoffs = bs, rr_dead = False\<rparr>, Some pe), w2)
              | (Inr _, w2) \<Rightarrow> ((None, \<lparr>rr_attempts = int a, rr_backoffs = bs, rr_dead = True\<rparr>, None), w2))
         | Suc m' \<Rightarrow>
             (let bs' = bs @ [to_int64 (push_bit (a - 1) base)] in
              (case cancelled a of
                 Some c \<Rightarrow> ((None, \<lparr>rr_attempts = int a, rr_backoffs = bs', rr_dead = False\<rparr>, Some c), w1)
               | None \<Rightarrow> retry_loop text dlt cancelled handler base rec m' (Suc a) bs' w1))))"

declare retry_loop.simps [simp del]

text \<open>With \<open>MaxAttempts \<le> 0\<close> the loop is skipped and \<open>lastErr.Error()\<close> dereferences nil.\<close>

definition process_with_retry :: "(go_error \<Rightarrow> string) \<Rightarrow> string \<Rightarrow> (nat \<Rightarrow> go_error option)
    \<Rightarrow> (nat \<Rightarrow> consumed \<Rightarrow> world \<Rightarrow> (go_error + order) \<times> world) \<Rightarrow> retry_policy \<Rightarrow> consumed \<Rightarrow> world
    \<Rightarrow> ((order option \<times> retry_result \<times> go_error option) \<times> world) go" where
  "process_with_retry text dlt cancelled handler pol rec w =
     (if rp_max pol \<le> 0 then Panic
      else Ret (retry_loop text dlt cancelled handler (rp_base pol) rec (nat (rp_max pol) - 1) 1 [] w))"

section \<open>The consumer loop (cmd/api/main.go)\<close>

text \<open>
  One polled batch. \<open>env i\<close> bundles what the outside decides for record \<open>i\<close> of the batch: the
  identifiers of its attempts, the cancellation of its context. \<open>committed\<close> maps a partition to
  the next offset its group would resume from; committing is a remote call, and a record whose
  processing failed is skipped with \<open>continue\<close>.
\<close>

record consumer_env =
  ce_ids :: "nat \<Rightarrow> go_error + int"
  ce_cancelled :: "nat \<Rightarrow> go_error option"

definition main_retry_policy :: retry_policy where
  "main_retry_policy = \<lparr>rp_max = 3, rp_base = 100000000\<rparr>"

definition commit_processed :: "consumed \<Rightarrow> world \<times> (int \<rightharpoonup> int) \<Rightarrow> (go_error + unit) \<times> world \<times> (int \<rightharpoonup> int)" where
  "commit_processed rec s = (case next_fault (fst s) of
       (NoFault, w1) \<Rightarrow> (Inr (), w1, (snd s)(k_partition rec \<mapsto> k_offset rec + 1))
     | (Lost e, w1) \<Rightarrow> (Inl (net_err e), w1, snd s)
     | (Unacked e, w1) \<Rightarrow> (Inl (net_err e), w1, (snd s)(k_partition rec \<mapsto> k_offset rec + 1)))"

definition consume_record :: "(go_error \<Rightarrow> string) \<Rightarrow> string \<Rightarrow> consumer_env \<Rightarrow> consumed
    \<Rightarrow> world \<times> (int \<rightharpoonup> int) \<Rightarrow> world \<times> (int \<rightharpoonup> int)" where
  "consume_record text dlt env rec s =
     (case process_with_retry text dlt (ce_cancelled env)
             (\<lambda>a. place_record (ce_ids env a)) main_retry_policy rec (fst s) of
        Panic \<Rightarrow> s
      | Ret ((_, _, Some e), w1) \<Rightarrow> (w1, snd s)
      | Ret ((_, _, None), w1) \<Rightarrow> snd (commit_processed rec (w1, snd s)))"

fun consume_batch :: "(go_error \<Rightarrow> string) \<Rightarrow> string \<Rightarrow> (nat \<Rightarrow> consumer_env) \<Rightarrow> nat \<Rightarrow> consumed list
    \<Rightarrow> world \<times> (int \<rightharpoonup> int) \<Rightarrow> world \<times> (int \<rightharpoonup> int)" where
  "consume_batch text dlt env i [] s = s"
| "consume_batch text dlt env i (rec # recs) s =
     consume_batch text dlt env (Suc i) recs (consume_record text dlt (env i) rec s)"

section \<open>Facts\<close>

lemma request_roundtrip:
  assumes "fits_int64 (r_product req)" "fits_int64 (r_user req)" "fits_int64 (r_quantity req)"
  shows "request_from_record (encode_order_created req now) = Inr req"
  using assms
  by (simp add: request_from_record_def decode_order_created_def encode_order_created_def
      json_text_def json_num_def json_time_def request_of_event_def)

lemma retry_loop_outcome:
  assumes "retry_loop text dlt cancelled handler base rec m a bs w = ((placed, res, err), w')"
    and "bs = map (\<lambda>i. to_int64 (push_bit i base)) [0..<a - 1]" "0 < a" "N = int (a + m)"
  shows "int a \<le> rr_attempts res \<and> rr_attempts res \<le> N
    \<and> rr_backoffs res = map (\<lambda>i. to_int64 (push_bit i base)) [0..<length (rr_backoffs res)]
    \<and> (\<exists>x wk w0. handler (nat (rr_attempts res)) rec wk = (x, w0) \<and>
        (case x of
           Inr ord \<Rightarrow> placed = Some ord \<and> err = None \<and> \<not> rr_dead res \<and> w' = w0
             \<and> length (rr_backoffs res) = nat (rr_attempts res) - 1
         | Inl e \<Rightarrow> placed = None \<and>
             (rr_attempts res = N \<and> rr_dead res = (err = None)
                \<and> length (rr_backoffs res) = nat (rr_attempts res) - 1
                \<and> produce_sync (dlt_record text dlt rec e (rr_attempts res)) w0
                  = (case err of None \<Rightarrow> Inr () | Some pe \<Rightarrow> Inl pe, w')
              \<or> rr_attempts res < N \<and> \<not> rr_dead res \<and> err \<noteq> None
                \<and> err = cancelled (nat (rr_attempts res)) \<and> w' = w0)))"
  using assms
proof (induction m arbitrary: a bs w)
  case 0
  obtain x w1 where h: "handler a rec w = (x, w1)" by fastforce
  show ?case
    using "0.prems" h
    by (intro conjI exI [of _ x] exI [of _ w] exI [of _ w1])
      (auto simp: retry_loop.simps [of _ _ _ _ _ _ 0] split: sum.splits prod.splits)
next
  case (Suc m)
  obtain x w1 where h: "handler a rec w = (x, w1)" by fastforce
  let ?bs = "bs @ [to_int64 (push_bit (a - 1) base)]"
  have bs: "?bs = map (\<lambda>i. to_int64 (push_bit i base)) [0..<Suc a - 1]"
    using Suc.prems(2,3) by (cases a) auto
  show ?case
  proof (cases "\<exists>e. x = Inl e \<and> cancelled a = None")
    case True
    then have "retry_loop text dlt cancelled handler base rec m (Suc a) ?bs w1 = ((placed, res, err), w')"
      using Suc.prems(1) h by (auto simp: retry_loop.simps [of _ _ _ _ _ _ "Suc m"] Let_def)
    from Suc.IH [OF this bs] Suc.prems(4) show ?thesis by simp
  next
    case False
    then show ?thesis
      using Suc.prems h bs
      by (intro conjI exI [of _ x] exI [of _ w] exI [of _ w1])
        (auto simp: retry_loop.simps [of _ _ _ _ _ _ "Suc m"] Let_def split: sum.splits option.splits)
  qed
qed

text \<open>A processed record is settled: its order is stored, or it is in the dead-letter topic.\<close>

definition settled :: "string \<Rightarrow> consumed \<Rightarrow> world \<Rightarrow> bool" where
  "settled dlt rec w \<longleftrightarrow>
     (case request_from_record (k_value rec) of
        Inl _ \<Rightarrow> False | Inr req \<Rightarrow> r_request req \<in> o_request ` set (orders (wdb w)))
     \<or> (\<exists>d \<in> set (wlog w). k_topic d = dlt \<and> k_key d = k_key rec \<and> k_value d = k_value rec)"

lemma place_record_Inr:
  assumes "place_record nid rec w = (Inr ord, w')"
  shows "\<exists>req. request_from_record (k_value rec) = Inr req \<and> o_request ord = r_request req
    \<and> r_request req \<in> o_request ` set (orders (wdb w')) \<and> wlog w' = wlog w \<and> wredis w' = wredis w"
proof -
  obtain req where r: "request_from_record (k_value rec) = Inr req"
    and run: "place_order_tx nid (\<lambda>d. d) (\<lambda>d. d) req w = (Inr ord, w')"
    using assms by (auto simp: place_record_def split: sum.splits)
  from place_order_tx_cases [OF run refl] r show ?thesis
    by (force simp: sale_def booked_def)
qed

lemma settled_mono:
  "settled dlt rec w \<Longrightarrow> set (orders (wdb w)) \<subseteq> set (orders (wdb w')) \<Longrightarrow> set (wlog w) \<subseteq> set (wlog w')
    \<Longrightarrow> settled dlt rec w'"
  by (fastforce simp: settled_def split: sum.splits)

lemma consume_record_commits:
  assumes "consume_record text dlt env rec s = (w', c')" "c' \<noteq> snd s"
  shows "settled dlt rec w' \<and> c' = (snd s)(k_partition rec \<mapsto> k_offset rec + 1)"
proof -
  obtain placed res err w1 where run: "retry_loop text dlt (ce_cancelled env)
      (\<lambda>a. place_record (ce_ids env a)) 100000000 rec 2 1 [] (fst s) = ((placed, res, err), w1)"
    by (cases "retry_loop text dlt (ce_cancelled env)
      (\<lambda>a. place_record (ce_ids env a)) 100000000 rec 2 1 [] (fst s)") auto
  have err: "err = None" and fin: "(w', c') = snd (commit_processed rec (w1, snd s))"
    using assms run
    by (auto simp: consume_record_def process_with_retry_def main_retry_policy_def split: option.splits)
  have frame: "wdb w' = wdb w1 \<and> wlog w' = wlog w1 \<and> c' \<in> {snd s, (snd s)(k_partition rec \<mapsto> k_offset rec + 1)}"
    using fin by (auto simp: commit_processed_def split: prod.splits fault.splits dest!: next_fault_frame)
  obtain x wk w0 where h: "place_record (ce_ids env (nat (rr_attempts res))) rec wk = (x, w0)"
    and out: "case x of
        Inr ord \<Rightarrow> placed = Some ord \<and> err = None \<and> \<not> rr_dead res \<and> w1 = w0
          \<and> length (rr_backoffs res) = nat (rr_attempts res) - 1
      | Inl e \<Rightarrow> placed = None \<and>
          (rr_attempts res = 3 \<and> rr_dead res = (err = None)
             \<and> length (rr_backoffs res) = nat (rr_attempts res) - 1
             \<and> produce_sync (dlt_record text dlt rec e (rr_attempts res)) w0
               = (case err of None \<Rightarrow> Inr () | Some pe \<Rightarrow> Inl pe, w1)
           \<or> rr_attempts res < 3 \<and> \<not> rr_dead res \<and> err \<noteq> None
             \<and> err = ce_cancelled env (nat (rr_attempts res)) \<and> w1 = w0)"
    using retry_loop_outcome [OF run, of 3] by auto
  have "settled dlt rec w1"
  proof (cases x)
    case (Inr ord)
    with h out place_record_Inr [of "ce_ids env (nat (rr_attempts res))" rec wk ord w0] show ?thesis
      by (auto simp: settled_def)
  next
    case (Inl e)
    then have "produce_sync (dlt_record text dlt rec e 3) w0 = (Inr (), w1)" using out err by auto
    from produce_sync_cases [OF this] show ?thesis
      by (auto simp: settled_def dlt_record_def)
  qed
  then show ?thesis using frame assms(2) settled_mono [of dlt rec w1 w'] by auto
qed

section \<open>Properties\<close>

text \<open>
  C16: accepting is all or nothing. For a positive quantity and a schedule with at most one failing
  call (a clean failure), \<open>EnqueueOrder\<close> either answers 202, having appended the one event that
  carries the request and taken its quantity from the gate, or answers an error and leaves both
  the topic and the gate's stock as they were. It never touches the database.
\<close>

theorem enqueue_all_or_nothing:
  assumes "enqueue_order topic now req w = (x, w')" "one_loss w" "0 < r_quantity req"
    and "counter (wredis w) (stock_key (r_product req)) = Some n" "0 \<le> n" "fits_int64 n"
  shows "wdb w' = wdb w \<and>
    (case x of
       Inl _ \<Rightarrow> wlog w' = wlog w \<and> counter (wredis w') (stock_key (r_product req)) = Some n
     | Inr a \<Rightarrow> ao_request a = r_request req \<and> ao_status a = 202
         \<and> wlog w' = wlog w @ [order_record topic req now]
         \<and> counter (wredis w') (stock_key (r_product req)) = Some (n - r_quantity req) \<and> r_quantity req \<le> n)"
proof -
  let ?p = "r_product req" and ?q = "r_quantity req"
  obtain y w1 where pd: "pre_deduct ?p ?q w = (y, w1)" by fastforce
  note p1 = pre_deduct_one_loss [OF pd assms(2,4,5,6,3)]
  have log1: "wlog w1 = wlog w"
    using pd by (auto simp: pre_deduct_def split: prod.splits sum.splits if_splits dest!: on_redis_cases)
  show ?thesis
  proof (cases y)
    case (Inl e)
    then show ?thesis using assms(1,4) pd p1 log1 by (auto simp: enqueue_order_def)
  next
    case (Inr r)
    then have c1: "?q \<le> n" "counter (wredis w1) (stock_key ?p) = Some (n - ?q)" "one_loss w1" using p1 by auto
    obtain z w2 where pr: "produce_sync (order_record topic req now) w1 = (z, w2)" by fastforce
    note pc = produce_sync_cases [OF pr] and po = produce_sync_one_loss [OF pr c1(3)]
      and pcl = produce_sync_clean [OF pr one_loss_clean [OF c1(3)]]
    show ?thesis
    proof (cases z)
      case (Inr u)
      then show ?thesis
        using assms(1) pd \<open>y = Inr r\<close> pr pc c1 p1 log1 by (auto simp: enqueue_order_def)
    next
      case (Inl e)
      then have "calm w2" "counter (wredis w2) (stock_key ?p) = Some (n - ?q)" "fits_int64 (n - ?q + ?q)"
        using po pc c1 assms(6) by auto
      note rb = rollback_calm [OF this]
      obtain u w3 where rr: "rollback_pre_deduct ?p ?q w2 = (u, w3)" by fastforce
      then have "wlog w3 = wlog w2"
        by (auto simp: rollback_pre_deduct_def split: prod.splits sum.splits dest!: on_redis_cases)
      then show ?thesis
        using assms(1) pd \<open>y = Inr r\<close> pr Inl rb rr pcl pc p1 log1 by (auto simp: enqueue_order_def)
    qed
  qed
qed

lemmas mq_run_simps = enqueue_order_def pre_deduct_def rollback_pre_deduct_def pre_deduct_script_def
  rollback_script_def incrby_def decrby_def produce_sync_def on_redis_def next_fault_def rlookup_def
  rmodify_def fits_int64_def order_record_def

text \<open>The broker is unreachable: the two items come back.\<close>

theorem enqueue_all_or_nothing_witness:
  "\<exists>e w'. enqueue_order order_created_topic 100 demo_req (warm_world\<lparr>wfaults := [NoFault, Lost NetDeadline]\<rparr>)
       = (Inl e, w')
     \<and> wlog w' = [] \<and> counter (wredis w') (stock_key 1) = Some 3"
proof -
  let ?w = "warm_world\<lparr>wfaults := [NoFault, Lost NetDeadline]\<rparr>"
  obtain w' where run: "enqueue_order order_created_topic 100 demo_req ?w = (Inl ContextDeadlineExceeded, w')"
    by (simp add: mq_run_simps warm_world_def demo_simps)
  have "wdb w' = wdb ?w \<and> (case Inl ContextDeadlineExceeded :: go_error + accepted_order of
       Inl _ \<Rightarrow> wlog w' = wlog ?w \<and> counter (wredis w') (stock_key (r_product demo_req)) = Some 3
     | Inr a \<Rightarrow> ao_request a = r_request demo_req \<and> ao_status a = 202
         \<and> wlog w' = wlog ?w @ [order_record order_created_topic demo_req 100]
         \<and> counter (wredis w') (stock_key (r_product demo_req)) = Some (3 - r_quantity demo_req)
         \<and> r_quantity demo_req \<le> 3)"
    by (rule enqueue_all_or_nothing [OF run])
      (simp_all add: one_loss_def warm_world_def demo_simps fits_int64_def counter_def rlookup_def)
  then show ?thesis using run by (simp add: demo_req_def warm_world_def demo_world_def)
qed

text \<open>
  the accepting path has no quantity check. A request for \<open>-5\<close> items passes the script's
  comparison, is answered 202 and raises the stock of the gate from 3 to 8.
\<close>

theorem enqueue_negative_quantity_adds_stock:
  "\<exists>a w'. enqueue_order order_created_topic 100 (demo_req\<lparr>r_quantity := -5\<rparr>) warm_world = (Inr a, w')
     \<and> ao_status a = 202 \<and> counter (wredis w') (stock_key 1) = Some 8"
  by (simp add: mq_run_simps warm_world_def demo_simps counter_def)

text \<open>
  C29: what a retried record ends as. With a positive \<open>MaxAttempts\<close> the call always returns, after
  between 1 and \<open>MaxAttempts\<close> attempts whose waits double from \<open>BaseBackoff\<close> (as 64-bit values); it
  ends with the order of the last attempt, or after a failed last attempt by producing the
  dead-letter record with that attempt's error and number, or because the context ended during a
  wait. Only a produced dead-letter record is reported as dead-lettered.
\<close>

theorem process_with_retry_outcome:
  assumes "0 < rp_max pol"
  shows "\<exists>placed res err w'.
    process_with_retry text dlt cancelled handler pol rec w = Ret ((placed, res, err), w')
    \<and> 1 \<le> rr_attempts res \<and> rr_attempts res \<le> rp_max pol
    \<and> rr_backoffs res = map (\<lambda>i. to_int64 (push_bit i (rp_base pol))) [0..<length (rr_backoffs res)]
    \<and> (\<exists>x wk w0. handler (nat (rr_attempts res)) rec wk = (x, w0) \<and>
        (case x of
           Inr ord \<Rightarrow> placed = Some ord \<and> err = None \<and> \<not> rr_dead res \<and> w' = w0
             \<and> length (rr_backoffs res) = nat (rr_attempts res) - 1
         | Inl e \<Rightarrow> placed = None \<and>
             (rr_attempts res = rp_max pol \<and> rr_dead res = (err = None)
                \<and> length (rr_backoffs res) = nat (rr_attempts res) - 1
                \<and> produce_sync (dlt_record text dlt rec e (rr_attempts res)) w0
                  = (case err of None \<Rightarrow> Inr () | Some pe \<Rightarrow> Inl pe, w')
              \<or> rr_attempts res < rp_max pol \<and> \<not> rr_dead res \<and> err \<noteq> None
                \<and> err = cancelled (nat (rr_attempts res)) \<and> w' = w0)))"
proof -
  obtain placed res err w' where run:
    "retry_loop text dlt cancelled handler (rp_base pol) rec (nat (rp_max pol) - 1) 1 [] w = ((placed, res, err), w')"
    by (cases "retry_loop text dlt cancelled handler (rp_base pol) rec (nat (rp_max pol) - 1) 1 [] w") auto
  have N: "rp_max pol = int (1 + (nat (rp_max pol) - 1))" using assms by simp
  have "process_with_retry text dlt cancelled handler pol rec w = Ret ((placed, res, err), w')"
    using assms run by (simp add: process_with_retry_def)
  then show ?thesis
    using retry_loop_outcome [OF run _ _ N]
    by (intro exI [of _ placed] exI [of _ res] exI [of _ err] exI [of _ w']) simp
qed

definition demo_record :: "string \<Rightarrow> int \<Rightarrow> consumed" where
  "demo_record rid off = \<lparr>k_topic = order_created_topic, k_key = ''1'',
     k_value = encode_order_created (demo_req\<lparr>r_request := rid\<rparr>) 100, k_headers = [],
     k_partition = 0, k_offset = off\<rparr>"

text \<open>A handler that always fails: three attempts, two waits, one dead-letter record.\<close>

theorem process_with_retry_outcome_witness:
  "\<exists>res w'. process_with_retry (\<lambda>_. ''boom'') order_created_dlt (\<lambda>_. None)
       (\<lambda>_ _ w. (Inl NoRecord, w)) main_retry_policy (demo_record ''r1'' 0) demo_world
     = Ret ((None, res, None), w') \<and> rr_dead res \<and> rr_attempts res = 3
     \<and> rr_backoffs res = [100000000, 200000000]"
proof -
  have "0 < rp_max main_retry_policy" by (simp add: main_retry_policy_def)
  from process_with_retry_outcome [OF this, of "\<lambda>_. ''boom''" order_created_dlt "\<lambda>_. None"
      "\<lambda>_ _ w. (Inl NoRecord, w)" "demo_record ''r1'' 0" demo_world]
  obtain placed res err w' w0 where run: "process_with_retry (\<lambda>_. ''boom'') order_created_dlt (\<lambda>_. None)
       (\<lambda>_ _ w. (Inl NoRecord, w)) main_retry_policy (demo_record ''r1'' 0) demo_world = Ret ((placed, res, err), w')"
    and out: "placed = None" "rr_attempts res = 3" "rr_dead res = (err = None)" "length (rr_backoffs res) = 2"
      "rr_backoffs res = map (\<lambda>i. to_int64 (push_bit i 100000000)) [0..<length (rr_backoffs res)]"
    by (auto simp: main_retry_policy_def)
  have "err = None"
    using run by (simp add: process_with_retry_def main_retry_policy_def retry_loop.simps numeral_2_eq_2
        produce_sync_def demo_world_def next_fault_def)
  then show ?thesis
    using run out by (simp add: numeral_2_eq_2 to_int64_def signed_take_bit_int_eq_self)
qed

text \<open>
  C30: no offset is committed ahead of its own record. When processing a record moves the committed
  offset at all, it moves it to that record's offset plus one, and the record is settled: its
  order is stored, or the same key and value are in the dead-letter topic.
\<close>

theorem commit_only_settled:
  assumes "consume_record text dlt env rec s = (w', c')" "c' \<noteq> snd s"
  shows "settled dlt rec w' \<and> c' = (snd s)(k_partition rec \<mapsto> k_offset rec + 1)"
  using consume_record_commits [OF assms] .

definition good_env :: consumer_env where
  "good_env = \<lparr>ce_ids = (\<lambda>a. Inr 9), ce_cancelled = (\<lambda>a. None)\<rparr>"

lemmas consume_run_simps = consume_record_def process_with_retry_def main_retry_policy_def retry_loop.simps
  place_record_def request_from_record_def decode_order_created_def encode_order_created_def
  json_text_def json_num_def json_time_def request_of_event_def fits_int64_def place_order_tx_def
  tx_locked_def tx_write_def query_def exec_def select_stock_def select_by_request_def insert_order_def row_error_def utf8_length_def fits_int32_def
  update_sub_def set_stock_def on_tx_def on_db_def begin_tx_def commit_tx_def next_fault_def
  commit_processed_def produce_sync_def good_env_def

theorem commit_only_settled_witness:
  "\<exists>w'. consume_record (\<lambda>_. ''boom'') order_created_dlt good_env (demo_record ''r1'' 4) (demo_world, Map.empty)
       = (w', [0 \<mapsto> 5]) \<and> settled order_created_dlt (demo_record ''r1'' 4) w'"
proof -
  obtain w' where run: "consume_record (\<lambda>_. ''boom'') order_created_dlt good_env (demo_record ''r1'' 4)
      (demo_world, Map.empty) = (w', [0 \<mapsto> 5])"
    by (simp add: consume_run_simps demo_record_def demo_simps)
  from commit_only_settled [OF run] run show ?thesis by auto
qed

text \<open>
  but a later record's commit passes over a failed one. The first record of a batch fails all
  its attempts and its dead-letter write fails too, so the loop goes on without committing; the
  next record of the partition succeeds and its commit moves the group past both. The first
  order is neither stored nor dead-lettered, and will not be delivered again.
\<close>

theorem consumer_skips_failed_record:
  "\<exists>w' c'. consume_batch (\<lambda>_. ''boom'') order_created_dlt
        (\<lambda>i. if i = 0 then good_env\<lparr>ce_ids := (\<lambda>a. Inl (ClockBackwards 5))\<rparr> else good_env) 0
        [demo_record ''r1'' 0, demo_record ''r2'' 1]
        (demo_world\<lparr>wfaults := replicate 9 NoFault @ [Lost NetDeadline]\<rparr>, Map.empty) = (w', c')
     \<and> c' 0 = Some 2 \<and> \<not> settled order_created_dlt (demo_record ''r1'' 0) w'
     \<and> settled order_created_dlt (demo_record ''r2'' 1) w'"
  by (simp add: consume_run_simps demo_record_def demo_simps settled_def numeral_eq_Suc
      order_created_topic_def order_created_dlt_def)

text \<open>
  redelivery is harmless. Once a record was placed, consuming the same record again (another
  partition, offset or identifier) changes nothing in the database, whatever fails on the way.
\<close>

theorem redelivery_harmless:
  assumes "place_record nid rec w = (Inr ord, w1)" "k_value rec' = k_value rec"
    and "place_record nid' rec' w1 = (x, w2)"
  shows "wdb w2 = wdb w1 \<and> (\<forall>ord'. x = Inr ord' \<longrightarrow> o_request ord' = o_request ord)"
proof -
  obtain req where r: "request_from_record (k_value rec) = Inr req" "o_request ord = r_request req"
      "r_request req \<in> o_request ` set (orders (wdb w1))"
    using place_record_Inr [OF assms(1)] by blast
  then have run: "place_order_tx nid' (\<lambda>d. d) (\<lambda>d. d) req w1 = (x, w2)"
    using assms(2,3) by (simp add: place_record_def)
  obtain o' where o': "select_by_request (r_request req) (wdb w1) = Inr o'"
    using r(3) select_by_request_Inl [of "r_request req" "wdb w1"]
    by (cases "select_by_request (r_request req) (wdb w1)") auto
  from place_order_tx_replay [OF run o'] select_by_request_Inr [OF o'] r(2) show ?thesis by auto
qed

theorem redelivery_harmless_witness:
  "\<exists>ord w1 x w2. place_record (Inr 9) (demo_record ''r1'' 0) demo_world = (Inr ord, w1)
     \<and> place_record (Inr 10) (demo_record ''r1'' 1) w1 = (x, w2) \<and> wdb w2 = wdb w1
     \<and> stock_of (wdb w2) 1 = Some 1"
proof -
  obtain ord w1 where run: "place_record (Inr 9) (demo_record ''r1'' 0) demo_world = (Inr ord, w1)"
    and st: "stock_of (wdb w1) 1 = Some 1"
    by (simp add: consume_run_simps demo_record_def demo_simps stock_of_def)
  obtain x w2 where run2: "place_record (Inr 10) (demo_record ''r1'' 1) w1 = (x, w2)" by fastforce
  from redelivery_harmless [OF run _ run2] run run2 st show ?thesis
    by (auto simp: demo_record_def)
qed

end
