(* ===== verification/Reconcile.thy ===== *)
theory Reconcile
  imports Mq
begin

text \<open>
  Package \<open>reconcile\<close> (\<open>internal/reconcile/\<close>): the ledger of pre-deductions, the accepting path with
  a crash point between the deduction and the message (\<open>EnqueueWithCrash\<close>, \<open>EnqueueWithLedger\<close>), and
  the reconciliation job that settles what a crash left behind. The accounting of the package is
  one equation per product: what Redis still offers, what is ordered in the database and what the
  ledger still has pending add up to the initial stock.
\<close>

section \<open>Ledger entries (model.go)\<close>

definition ledger_prefix :: string where "ledger_prefix = ''seckill:ledger:''"

definition ledger_key :: "string \<Rightarrow> string" where "ledger_key rid = ledger_prefix @ rid"

definition ledger_pending :: string where "ledger_pending = ''pending''"
definition ledger_reconciled :: string where "ledger_reconciled = ''reconciled''"

record entry =
  e_request :: string
  e_product :: int
  e_quantity :: int
  e_created :: int
  e_state :: string

definition encode_entry :: "entry \<Rightarrow> payload" where
  "encode_entry e = Doc (JObj
     [(''request_id'', JText (e_request e)), (''product_id'', JNum (e_product e)),
      (''quantity'', JNum (e_quantity e)), (''created_at'', JTime (e_created e)),
      (''state'', JText (e_state e))])"

definition decode_entry :: "payload \<Rightarrow> go_error + entry" where
  "decode_entry v = (case v of
       Doc JNull \<Rightarrow> Inr \<lparr>e_request = '''', e_product = 0, e_quantity = 0, e_created = 0, e_state = ''''\<rparr>
     | Doc (JObj fs) \<Rightarrow>
         (case (json_text ''request_id'' fs, json_num ''product_id'' fs, json_num ''quantity'' fs,
                json_time ''created_at'' fs, json_text ''state'' fs) of
            (Inr r, Inr p, Inr q, Inr t, Inr s) \<Rightarrow>
              Inr \<lparr>e_request = r, e_product = p, e_quantity = q, e_created = t, e_state = s\<rparr>
          | _ \<Rightarrow> Inl (Wrapped DecodeError))
     | _ \<Rightarrow> Inl (Wrapped DecodeError))"

text \<open>
  The crash switch: a counter of crashes left, \<open>None\<close> for the nil pointer. The compare-and-swap
  loop makes each \<open>Fire\<close> one atomic step on it.
\<close>

fun crash_fire :: "int option \<Rightarrow> bool \<times> int option" where
  "crash_fire None = (False, None)"
| "crash_fire (Some left) = (if left \<le> 0 then (False, Some left) else (True, Some (left - 1)))"

fun crash_remaining :: "int option \<Rightarrow> int" where
  "crash_remaining None = 0"
| "crash_remaining (Some left) = left"

definition record_pre_deduct :: "place_req \<Rightarrow> int \<Rightarrow> world \<Rightarrow> (go_error + unit) \<times> world" where
  "record_pre_deduct req now w =
     (case on_redis (redis_setnx (ledger_key (r_request req))
               (RString (encode_entry \<lparr>e_request = r_request req, e_product = r_product req,
                  e_quantity = r_quantity req, e_created = now, e_state = ledger_pending\<rparr>)) 0) w of
        (Inl e, w') \<Rightarrow> (Inl e, w')
      | (Inr _, w') \<Rightarrow> (Inr (), w'))"

text \<open>
  \<open>ScanLedger\<close>: \<open>pages\<close> is what the \<open>SCAN\<close> calls of this run return, one list of keys per call. Keys
  that vanished are skipped, and so are values that do not decode.
\<close>

fun scan_page :: "string list \<Rightarrow> entry list \<Rightarrow> world \<Rightarrow> (go_error + entry list) \<times> world" where
  "scan_page [] es w = (Inr es, w)"
| "scan_page (k # ks) es w = (case on_redis (redis_get k) w of
       (Inl e, w1) \<Rightarrow> (if e = RedisNil then scan_page ks es w1 else (Inl e, w1))
     | (Inr raw, w1) \<Rightarrow> (case decode_entry raw of
          Inl _ \<Rightarrow> scan_page ks es w1
        | Inr entry \<Rightarrow> scan_page ks (es @ [entry]) w1))"

fun scan_ledger :: "string list list \<Rightarrow> entry list \<Rightarrow> world \<Rightarrow> (go_error + entry list) \<times> world" where
  "scan_ledger [] es w = (Inr es, w)"
| "scan_ledger (ks # pages) es w = (case on_redis (\<lambda>r. (Inr ks, r)) w of
       (Inl e, w1) \<Rightarrow> (Inl e, w1)
     | (Inr keys, w1) \<Rightarrow> (case scan_page keys es w1 of
          (Inl e, w2) \<Rightarrow> (Inl e, w2)
        | (Inr es', w2) \<Rightarrow> scan_ledger pages es' w2))"

section \<open>Settling an entry\<close>

text \<open>
  \<open>cjson.decode(raw)['state']\<close>: the field of an object, nothing for a JSON string (Lua indexes the
  string library), an error for anything that cannot be indexed or decoded.
\<close>

definition lua_state :: "payload \<Rightarrow> go_error + string option" where
  "lua_state v = (case v of
       Doc (JObj fs) \<Rightarrow> Inr (case map_of (rev fs) ''state'' of Some (JText s) \<Rightarrow> Some s | _ \<Rightarrow> None)
     | Doc (JText _) \<Rightarrow> Inr None
     | Doc (JTime _) \<Rightarrow> Inr None
     | _ \<Rightarrow> Inl ScriptError)"

definition settle_script :: "string \<Rightarrow> string \<Rightarrow> int \<Rightarrow> payload \<Rightarrow> redis \<Rightarrow> (go_error + int) \<times> redis" where
  "settle_script lk sk qty v r = (case rlookup r lk of
       None \<Rightarrow> (Inr 0, r)
     | Some (RString raw) \<Rightarrow>
         (case lua_state raw of
            Inl e \<Rightarrow> (Inl e, r)
          | Inr st \<Rightarrow>
              (if st \<noteq> Some ledger_pending then (Inr 0, r)
               else if 0 < qty then
                 (case incrby sk qty r of
                    (Inl e, r1) \<Rightarrow> (Inl e, r1)
                  | (Inr _, r1) \<Rightarrow> (Inr 1, rset lk (RString v) r1))
               else (Inr 1, rset lk (RString v) r)))
     | Some _ \<Rightarrow> (Inl ScriptError, r))"

definition settle_entry :: "entry \<Rightarrow> int \<Rightarrow> world \<Rightarrow> (go_error + bool) \<times> world" where
  "settle_entry e refund w =
     (case on_redis (settle_script (ledger_key (e_request e)) (stock_key (e_product e)) refund
               (encode_entry (e\<lparr>e_state := ledger_reconciled\<rparr>))) w of
        (Inl er, w') \<Rightarrow> (Inl er, w')
      | (Inr n, w') \<Rightarrow> (Inr (n = 1), w'))"

section \<open>The accepting paths (p1\_leak.go, p2\_reconcile.go)\<close>

text \<open>\<open>produce\<close> is the injected \<open>ProduceFunc\<close>; the crash switch is returned updated.\<close>

definition enqueue_with_crash :: "(world \<Rightarrow> (go_error + unit) \<times> world) \<Rightarrow> place_req \<Rightarrow> int option \<Rightarrow> world
    \<Rightarrow> go_error option \<times> int option \<times> world" where
  "enqueue_with_crash produce req crash w =
     (case pre_deduct (r_product req) (r_quantity req) w of
        (Inl e, w1) \<Rightarrow> (Some e, crash, w1)
      | (Inr _, w1) \<Rightarrow>
        (case crash_fire crash of
           (True, crash') \<Rightarrow> (Some SimulatedCrash, crash', w1)
         | (False, crash') \<Rightarrow>
           (case produce w1 of
              (Inl e, w2) \<Rightarrow> (Some e, crash', snd (rollback_pre_deduct (r_product req) (r_quantity req) w2))
            | (Inr _, w2) \<Rightarrow> (None, crash', w2))))"

definition enqueue_with_ledger :: "int \<Rightarrow> (world \<Rightarrow> (go_error + unit) \<times> world) \<Rightarrow> place_req \<Rightarrow> int option
    \<Rightarrow> world \<Rightarrow> go_error option \<times> int option \<times> world" where
  "enqueue_with_ledger now produce req crash w =
     (case pre_deduct (r_product req) (r_quantity req) w of
        (Inl e, w1) \<Rightarrow> (Some e, crash, w1)
      | (Inr _, w1) \<Rightarrow>
        (case record_pre_deduct req now w1 of
           (Inl e, w2) \<Rightarrow> (Some e, crash, w2)
         | (Inr _, w2) \<Rightarrow>
           (case crash_fire crash of
              (True, crash') \<Rightarrow> (Some SimulatedCrash, crash', w2)
            | (False, crash') \<Rightarrow>
              (case produce w2 of
                 (Inl e, w3) \<Rightarrow>
                   (case settle_entry \<lparr>e_request = r_request req, e_product = r_product req,
                             e_quantity = r_quantity req, e_created = now, e_state = ledger_pending\<rparr> 0
                           (snd (rollback_pre_deduct (r_product req) (r_quantity req) w3)) of
                      (Inl se, w4) \<Rightarrow> (Some se, crash', w4)
                    | (Inr _, w4) \<Rightarrow> (Some e, crash', w4))
               | (Inr _, w3) \<Rightarrow> (None, crash', w3)))))"

text \<open>
  \<open>Get(\<dots>).Int64()\<close> on the stock key: a missing key counts as 0. The sum is scanned into an \<open>int64\<close>, which
  fails when it does not fit, and the two differences wrap.
\<close>

record identity =
  id_initial :: int
  id_remaining :: int
  id_deducted :: int
  id_ordered :: int
  id_leaked :: int

definition get_int64 :: "payload \<Rightarrow> go_error + int" where
  "get_int64 v = (case v of Num n \<Rightarrow> (if fits_int64 n then Inr n else Inl DecodeError) | _ \<Rightarrow> Inl DecodeError)"

definition check_ordered :: "int \<Rightarrow> int \<Rightarrow> int \<Rightarrow> world \<Rightarrow> (go_error + identity) \<times> world" where
  "check_ordered p initial remaining w =
     (case on_db (query (\<lambda>d. Inr (ordered_quantity p d))) w of
        (Inl e, w') \<Rightarrow> (Inl e, w')
      | (Inr ordered, w') \<Rightarrow>
         (if \<not> fits_int64 ordered then (Inl DecodeError, w')
          else let deducted = to_int64 (initial - remaining) in
           (Inr \<lparr>id_initial = initial, id_remaining = remaining, id_deducted = deducted,
              id_ordered = ordered, id_leaked = to_int64 (deducted - ordered)\<rparr>, w')))"

definition check_identity :: "int \<Rightarrow> int \<Rightarrow> world \<Rightarrow> (go_error + identity) \<times> world" where
  "check_identity p initial w =
     (case on_redis (redis_get (stock_key p)) w of
        (Inl e, w1) \<Rightarrow> (if e = RedisNil then check_ordered p initial 0 w1 else (Inl e, w1))
      | (Inr v, w1) \<Rightarrow> (case get_int64 v of
           Inl e \<Rightarrow> (Inl e, w1)
         | Inr remaining \<Rightarrow> check_ordered p initial remaining w1))"

section \<open>The job (p2\_reconcile.go)\<close>

datatype outcome = Refunded | Young | Settled | AlreadyReconciled

definition reconcile_entry :: "int \<Rightarrow> int \<Rightarrow> entry \<Rightarrow> world \<Rightarrow> (go_error + outcome) \<times> world" where
  "reconcile_entry window now e w =
     (if e_state e \<noteq> ledger_pending then (Inr AlreadyReconciled, w)
      else if now - e_created e < window then (Inr Young, w)
      else (case on_db (query (\<lambda>d. Inr (count_by_request (e_request e) d))) w of
        (Inl er, w1) \<Rightarrow> (Inl er, w1)
      | (Inr cnt, w1) \<Rightarrow>
        (case settle_entry e (if 0 < cnt then 0 else e_quantity e) w1 of
           (Inl er, w2) \<Rightarrow> (Inl er, w2)
         | (Inr ok, w2) \<Rightarrow>
            (Inr (if \<not> ok then AlreadyReconciled else if 0 < cnt then Settled else Refunded), w2))))"

record report =
  rep_scanned :: int
  rep_refunded :: int
  rep_refunded_qty :: int
  rep_young :: int
  rep_settled :: int
  rep_already :: int

definition empty_report :: report where
  "empty_report = \<lparr>rep_scanned = 0, rep_refunded = 0, rep_refunded_qty = 0, rep_young = 0,
     rep_settled = 0, rep_already = 0\<rparr>"

fun count_outcome :: "outcome \<Rightarrow> entry \<Rightarrow> report \<Rightarrow> report" where
  "count_outcome Refunded e rp = rp\<lparr>rep_scanned := rep_scanned rp + 1,
     rep_refunded := rep_refunded rp + 1, rep_refunded_qty := rep_refunded_qty rp + e_quantity e\<rparr>"
| "count_outcome Young e rp = rp\<lparr>rep_scanned := rep_scanned rp + 1, rep_young := rep_young rp + 1\<rparr>"
| "count_outcome Settled e rp = rp\<lparr>rep_scanned := rep_scanned rp + 1, rep_settled := rep_settled rp + 1\<rparr>"
| "count_outcome AlreadyReconciled e rp =
     rp\<lparr>rep_scanned := rep_scanned rp + 1, rep_already := rep_already rp + 1\<rparr>"

text \<open>\<open>ctx i\<close> is \<open>ctx.Err()\<close> before entry \<open>i\<close>.\<close>

fun reconcile_list :: "int \<Rightarrow> int \<Rightarrow> (nat \<Rightarrow> go_error option) \<Rightarrow> nat \<Rightarrow> entry list \<Rightarrow> report \<Rightarrow> world
    \<Rightarrow> (report \<times> go_error option) \<times> world" where
  "reconcile_list window now ctx i [] rp w = ((rp, None), w)"
| "reconcile_list window now ctx i (e # es) rp w = (case ctx i of
       Some c \<Rightarrow> ((rp, Some c), w)
     | None \<Rightarrow> (case reconcile_entry window now e w of
          (Inl er, w1) \<Rightarrow> ((rp, Some er), w1)
        | (Inr oc, w1) \<Rightarrow> reconcile_list window now ctx (Suc i) es (count_outcome oc e rp) w1))"

definition reconcile_once :: "string list list \<Rightarrow> int \<Rightarrow> int \<Rightarrow> (nat \<Rightarrow> go_error option) \<Rightarrow> world
    \<Rightarrow> (report \<times> go_error option) \<times> world" where
  "reconcile_once pages window now ctx w = (case scan_ledger pages [] w of
       (Inl e, w1) \<Rightarrow> ((empty_report, Some e), w1)
     | (Inr es, w1) \<Rightarrow> reconcile_list window now ctx 0 es empty_report w1)"

section \<open>The accounting\<close>

lemma ledger_key_inj [simp]: "ledger_key r = ledger_key r' \<longleftrightarrow> r = r'"
  by (simp add: ledger_key_def)

lemma ledger_key_stock_key [simp]: "ledger_key r \<noteq> stock_key p" "stock_key p \<noteq> ledger_key r"
  by (simp_all add: ledger_key_def ledger_prefix_def stock_key_def)

definition ledger_entry :: "redis \<Rightarrow> string \<Rightarrow> entry option" where
  "ledger_entry r rid = (case rlookup r (ledger_key rid) of
       Some (RString v) \<Rightarrow> (case decode_entry v of Inr e \<Rightarrow> Some e | Inl _ \<Rightarrow> None) | _ \<Rightarrow> None)"

definition ledger_rids :: "redis \<Rightarrow> string set" where
  "ledger_rids r = {rid. rlookup r (ledger_key rid) \<noteq> None}"

definition entry_ok :: "entry \<Rightarrow> bool" where
  "entry_ok e \<longleftrightarrow> fits_int64 (e_product e) \<and> fits_int64 (e_quantity e) \<and> 0 < e_quantity e"

text \<open>Every ledger key holds the encoding of a sensible entry of its own request.\<close>

definition ledger_ok :: "redis \<Rightarrow> bool" where
  "ledger_ok r \<longleftrightarrow> finite (ledger_rids r) \<and>
     (\<forall>rid v. rlookup r (ledger_key rid) = Some v \<longrightarrow>
        (\<exists>e. v = RString (encode_entry e) \<and> e_request e = rid \<and> entry_ok e))"

text \<open>The quantity an entry still owes the gate: pending, and no order came of it.\<close>

definition owed :: "int \<Rightarrow> redis \<Rightarrow> database \<Rightarrow> string \<Rightarrow> int" where
  "owed p r d rid = (case ledger_entry r rid of None \<Rightarrow> 0
     | Some e \<Rightarrow> (if e_state e = ledger_pending \<and> e_product e = p \<and> rid \<notin> o_request ` set (orders d)
         then e_quantity e else 0))"

definition outstanding :: "int \<Rightarrow> redis \<Rightarrow> database \<Rightarrow> int" where
  "outstanding p r d = sum (owed p r d) (ledger_rids r)"

definition gate_stock :: "redis \<Rightarrow> int \<Rightarrow> int" where
  "gate_stock r p = (case counter r (stock_key p) of Some n \<Rightarrow> n | None \<Rightarrow> 0)"

definition accounted :: "(int \<Rightarrow> int) \<Rightarrow> world \<Rightarrow> bool" where
  "accounted initial w \<longleftrightarrow> ledger_ok (wredis w) \<and> (\<forall>p. 0 \<le> gate_stock (wredis w) p \<and> fits_int64 (gate_stock (wredis w) p)) \<and>
     (\<forall>p. gate_stock (wredis w) p + ordered_quantity p (wdb w) + outstanding p (wredis w) (wdb w) = initial p)"

lemma accountedI:
  "ledger_ok (wredis w) \<Longrightarrow> (\<And>p. 0 \<le> gate_stock (wredis w) p) \<Longrightarrow>
   (\<And>p. fits_int64 (gate_stock (wredis w) p)) \<Longrightarrow>
   (\<And>p. gate_stock (wredis w) p + ordered_quantity p (wdb w) + outstanding p (wredis w) (wdb w) = initial p)
   \<Longrightarrow> accounted initial w"
  by (simp only: accounted_def) blast

lemma decode_encode:
  "entry_ok e \<Longrightarrow> decode_entry (encode_entry e) = Inr e"
  by (simp add: decode_entry_def encode_entry_def entry_ok_def json_text_def json_num_def json_time_def)

lemma lua_state_encode: "lua_state (encode_entry e) = Inr (Some (e_state e))"
  by (simp add: lua_state_def encode_entry_def)

lemma ledger_lookup:
  assumes "ledger_ok r"
  shows "rlookup r (ledger_key rid) = (case ledger_entry r rid of None \<Rightarrow> None
     | Some e \<Rightarrow> Some (RString (encode_entry e)))"
    "ledger_entry r rid = Some e \<Longrightarrow> e_request e = rid \<and> entry_ok e"
proof -
  have "rlookup r (ledger_key rid) = None \<and> ledger_entry r rid = None \<or>
    (\<exists>e. rlookup r (ledger_key rid) = Some (RString (encode_entry e)) \<and> ledger_entry r rid = Some e
       \<and> e_request e = rid \<and> entry_ok e)"
  proof (cases "rlookup r (ledger_key rid)")
    case None
    then show ?thesis by (simp add: ledger_entry_def)
  next
    case (Some v)
    then obtain e where "v = RString (encode_entry e)" "e_request e = rid" "entry_ok e"
      using assms by (auto simp: ledger_ok_def)
    with Some show ?thesis by (simp add: ledger_entry_def decode_encode)
  qed
  then show "rlookup r (ledger_key rid) = (case ledger_entry r rid of None \<Rightarrow> None
     | Some e \<Rightarrow> Some (RString (encode_entry e)))"
    "ledger_entry r rid = Some e \<Longrightarrow> e_request e = rid \<and> entry_ok e"
    by auto
qed

lemma owed_update:
  assumes "finite S" "rid \<in> S" "\<And>x. x \<in> S \<Longrightarrow> x \<noteq> rid \<Longrightarrow> f' x = f x"
  shows "sum f' S = sum f S - f rid + (f' rid :: int)"
proof -
  have "sum f' (S - {rid}) = sum f (S - {rid})" using assms(3) by (intro sum.cong) auto
  then show ?thesis using sum.remove [OF assms(1,2), of f] sum.remove [OF assms(1,2), of f'] by simp
qed

lemma ledger_rids_iff: "ledger_ok r \<Longrightarrow> rid \<in> ledger_rids r \<longleftrightarrow> ledger_entry r rid \<noteq> None"
  using ledger_lookup(1) [of r rid] by (auto simp: ledger_rids_def split: option.splits)

text \<open>Writing one ledger entry: the ledger stays in order, and only this request's debt changes.\<close>

lemma ledger_write:
  assumes "ledger_ok r" "entry_ok e" "e_request e = rid"
    and "\<forall>rid'. rlookup r' (ledger_key rid')
      = (if rid' = rid then Some (RString (encode_entry e)) else rlookup r (ledger_key rid'))"
  shows "ledger_ok r'" "ledger_rids r' = insert rid (ledger_rids r)"
    "ledger_entry r' rid' = (if rid' = rid then Some e else ledger_entry r rid')"
    "outstanding p r' d = outstanding p r d - owed p r d rid
      + (if e_state e = ledger_pending \<and> e_product e = p \<and> rid \<notin> o_request ` set (orders d)
         then e_quantity e else 0)"
proof -
  show rids: "ledger_rids r' = insert rid (ledger_rids r)"
    using assms(4) by (auto simp: ledger_rids_def)
  have le: "ledger_entry r' x = (if x = rid then Some e else ledger_entry r x)" for x
    using assms(2,4) by (simp add: ledger_entry_def decode_encode)
  then show "ledger_entry r' rid' = (if rid' = rid then Some e else ledger_entry r rid')" .
  show "ledger_ok r'"
    using assms rids by (auto simp: ledger_ok_def split: if_splits)
  let ?S = "insert rid (ledger_rids r)"
  have fin: "finite ?S" using assms(1) by (simp add: ledger_ok_def)
  have "outstanding p r d = sum (owed p r d) ?S"
    using fin ledger_rids_iff [OF assms(1), of rid]
    by (cases "rid \<in> ledger_rids r") (auto simp: outstanding_def insert_absorb owed_def)
  moreover have "outstanding p r' d = sum (owed p r d) ?S - owed p r d rid + owed p r' d rid"
    unfolding outstanding_def rids using fin
    by (intro owed_update) (auto simp: owed_def le)
  ultimately show "outstanding p r' d = outstanding p r d - owed p r d rid
      + (if e_state e = ledger_pending \<and> e_product e = p \<and> rid \<notin> o_request ` set (orders d)
         then e_quantity e else 0)"
    by (simp add: owed_def le)
qed

text \<open>Changing a counter leaves the ledger alone.\<close>

lemma ledger_frame:
  assumes "\<forall>rid. rlookup r' (ledger_key rid) = rlookup r (ledger_key rid)"
  shows "ledger_ok r' = ledger_ok r" "ledger_entry r' = ledger_entry r" "ledger_rids r' = ledger_rids r"
    "owed p r' d = owed p r d" "outstanding p r' d = outstanding p r d"
  using assms by (auto simp: ledger_ok_def ledger_entry_def ledger_rids_def owed_def outstanding_def fun_eq_iff)

section \<open>What the steps do to the accounting\<close>

text \<open>A request whose entry has its final verdict.\<close>

definition ledger_done :: "redis \<Rightarrow> string \<Rightarrow> bool" where
  "ledger_done r rid \<longleftrightarrow> (\<exists>e. ledger_entry r rid = Some e \<and> e_state e \<noteq> ledger_pending)"

text \<open>The entry in hand may be older than the one stored, but only in its state.\<close>

definition current :: "redis \<Rightarrow> entry \<Rightarrow> bool" where
  "current r e \<longleftrightarrow> (\<exists>st. ledger_entry r (e_request e) = Some (e\<lparr>e_state := st\<rparr>))"

lemma current_ok: "ledger_ok r \<Longrightarrow> current r e \<Longrightarrow> entry_ok e"
  using ledger_lookup(2) by (fastforce simp: current_def entry_ok_def)

lemma incrby_cases:
  assumes "incrby k q r = (x, r')"
  shows "r' = r \<and> (\<exists>e. x = Inl e) \<or>
    (\<exists>m. x = Inr m \<and> m = (case counter r k of Some n \<Rightarrow> n | None \<Rightarrow> 0) + q \<and> fits_int64 m
       \<and> (\<forall>k'. rlookup r' k' = (if k' = k then Some (RString (Num m)) else rlookup r k')))"
  using assms counter_def [of r k]
  by (auto simp: incrby_def split: option.splits rvalue.splits payload.splits if_splits)

lemma counter_from_lookup:
  "\<forall>k'. rlookup r' k' = (if k' = k then Some (RString (Num m)) else rlookup r k')
   \<Longrightarrow> counter r' k' = (if k' = k then Some m else counter r k')"
  by (simp add: counter_def)

lemma settle_script_cases:
  assumes "settle_script (ledger_key (e_request e)) (stock_key (e_product e)) q
      (encode_entry (e\<lparr>e_state := ledger_reconciled\<rparr>)) r = (x, r')"
    and "ledger_ok r" "current r e" "0 \<le> q"
  shows "r' = r \<and> x \<noteq> Inr 1 \<or>
    x = Inr 1 \<and> ledger_entry r (e_request e) = Some (e\<lparr>e_state := ledger_pending\<rparr>)
    \<and> (\<forall>rid. rlookup r' (ledger_key rid) = (if rid = e_request e
         then Some (RString (encode_entry (e\<lparr>e_state := ledger_reconciled\<rparr>))) else rlookup r (ledger_key rid)))
    \<and> (\<forall>p. gate_stock r' p = gate_stock r p + (if p = e_product e then q else 0))
    \<and> (q = 0 \<or> fits_int64 (gate_stock r' (e_product e)))"
proof -
  obtain st where st: "ledger_entry r (e_request e) = Some (e\<lparr>e_state := st\<rparr>)"
    using assms(3) by (auto simp: current_def)
  have lk: "rlookup r (ledger_key (e_request e)) = Some (RString (encode_entry (e\<lparr>e_state := st\<rparr>)))"
    using ledger_lookup(1) [OF assms(2), of "e_request e"] st by simp
  show ?thesis
  proof (cases "st = ledger_pending")
    case False
    then show ?thesis using assms(1) lk by (auto simp: settle_script_def lua_state_encode)
  next
    case True
    show ?thesis
    proof (cases "0 < q")
      case False
      then have "q = 0" using assms(4) by simp
      then show ?thesis
        using assms(1) lk True st
        by (auto simp: settle_script_def lua_state_encode gate_stock_def)
    next
      case q: True
      obtain y r1 where i: "incrby (stock_key (e_product e)) q r = (y, r1)" by fastforce
      from incrby_cases [OF i] show ?thesis
      proof (elim disjE exE conjE)
        fix er assume "r1 = r" "y = Inl er"
        then show ?thesis using assms(1) lk True q i by (auto simp: settle_script_def lua_state_encode)
      next
        fix m assume m: "y = Inr m" "m = (case counter r (stock_key (e_product e)) of Some n \<Rightarrow> n | None \<Rightarrow> 0) + q"
          "fits_int64 m"
          "\<forall>k'. rlookup r1 k' = (if k' = stock_key (e_product e) then Some (RString (Num m)) else rlookup r k')"
        have r': "r' = rset (ledger_key (e_request e)) (RString (encode_entry (e\<lparr>e_state := ledger_reconciled\<rparr>))) r1"
          "x = Inr 1"
          using assms(1) lk True q i m(1) by (auto simp: settle_script_def lua_state_encode)
        have g: "gate_stock r' p = gate_stock r p + (if p = e_product e then q else 0)" for p
          using counter_from_lookup [OF m(4), of "stock_key p"] m(2) by (simp add: r' gate_stock_def)
        have "gate_stock r' (e_product e) = m" using g m(2) by (simp add: gate_stock_def)
        then show ?thesis using r' m st True g by simp
      qed
    qed
  qed
qed

text \<open>
  Settling under any schedule: nothing, or (even when the reply is lost) the whole settlement: the
  debt of the request is gone and the refund is in the gate.
\<close>

lemma settle_entry_effect:
  assumes "settle_entry e q w = (x, w')" "ledger_ok (wredis w)" "current (wredis w) e" "0 \<le> q"
  shows "wdb w' = wdb w \<and> wlog w' = wlog w \<and>
    (wredis w' = wredis w \<and> x \<noteq> Inr True \<or>
     ledger_entry (wredis w) (e_request e) = Some (e\<lparr>e_state := ledger_pending\<rparr>)
     \<and> ledger_ok (wredis w')
     \<and> (\<forall>rid. ledger_entry (wredis w') rid = (if rid = e_request e then Some (e\<lparr>e_state := ledger_reconciled\<rparr>)
           else ledger_entry (wredis w) rid))
     \<and> (\<forall>p. gate_stock (wredis w') p = gate_stock (wredis w) p + (if p = e_product e then q else 0)
           \<and> outstanding p (wredis w') (wdb w)
             = outstanding p (wredis w) (wdb w) - owed p (wredis w) (wdb w) (e_request e))
     \<and> (q = 0 \<or> fits_int64 (gate_stock (wredis w') (e_product e))))"
proof -
  let ?v = "encode_entry (e\<lparr>e_state := ledger_reconciled\<rparr>)"
  let ?s = "settle_script (ledger_key (e_request e)) (stock_key (e_product e)) q ?v"
  obtain y where y: "on_redis ?s w = (y, w')" and x: "x = map_sum id (\<lambda>n. n = 1) y"
    using assms(1) by (auto simp: settle_entry_def split: prod.splits sum.splits)
  obtain z r where z: "?s (wredis w) = (z, r)" by fastforce
  have eo: "entry_ok (e\<lparr>e_state := ledger_reconciled\<rparr>)"
    using current_ok [OF assms(2,3)] by (simp add: entry_ok_def)
  note oc = on_redis_cases [OF y]
  consider "wredis w' = wredis w" "x \<noteq> Inr True" | "z = Inr 1" "wredis w' = r"
    using oc settle_script_cases [OF z assms(2,3,4)] z x by (auto simp: map_sum_def split: sum.splits)
  then show ?thesis
  proof cases
    case 1
    then show ?thesis using oc by simp
  next
    case 2
    have sc: "ledger_entry (wredis w) (e_request e) = Some (e\<lparr>e_state := ledger_pending\<rparr>)"
      "\<forall>rid. rlookup r (ledger_key rid) = (if rid = e_request e then Some (RString ?v)
         else rlookup (wredis w) (ledger_key rid))"
      "\<forall>p. gate_stock r p = gate_stock (wredis w) p + (if p = e_product e then q else 0)"
      "q = 0 \<or> fits_int64 (gate_stock r (e_product e))"
      using settle_script_cases [OF z assms(2,3,4)] 2(1) by (elim disjE conjE; simp)+
    note lw = ledger_write [OF assms(2) eo _ sc(2), simplified]
    have "outstanding p r (wdb w) = outstanding p (wredis w) (wdb w) - owed p (wredis w) (wdb w) (e_request e)" for p
      using lw(4) [of p "wdb w"] by (simp add: ledger_pending_def ledger_reconciled_def)
    with 2 oc sc lw(1,3) show ?thesis by simp
  qed
qed

lemma current_settled:
  assumes "current r e'" "\<forall>rid. ledger_entry r' rid = (if rid = e_request e
      then Some (e\<lparr>e_state := ledger_reconciled\<rparr>) else ledger_entry r rid)"
    and "ledger_entry r (e_request e) = Some (e\<lparr>e_state := ledger_pending\<rparr>)"
  shows "current r' e'"
proof (cases "e_request e' = e_request e")
  case True
  then obtain st where "e'\<lparr>e_state := st\<rparr> = e\<lparr>e_state := ledger_pending\<rparr>"
    using assms(1,3) by (auto simp: current_def)
  then have "e'\<lparr>e_state := ledger_reconciled\<rparr> = e\<lparr>e_state := ledger_reconciled\<rparr>"
    by (metis entry.surjective entry.update_convs(5))
  with assms(2) True show ?thesis
    unfolding current_def by (intro exI [of _ ledger_reconciled]) simp
next
  case False
  with assms(1,2) show ?thesis by (auto simp: current_def)
qed

text \<open>Settling keeps the account when the refund is what the entry owes, or the entry has its verdict already.\<close>

lemma settle_entry_accounts:
  assumes "settle_entry e q w = (x, w')" "accounted initial w" "current (wredis w) e" "0 \<le> q"
    and "ledger_entry (wredis w) (e_request e) = Some (e\<lparr>e_state := ledger_pending\<rparr>) \<Longrightarrow>
      q = (if e_request e \<in> o_request ` set (orders (wdb w)) then 0 else e_quantity e)"
  shows "accounted initial w' \<and> wdb w' = wdb w \<and> (\<forall>e'. current (wredis w) e' \<longrightarrow> current (wredis w') e')
    \<and> (\<forall>rid. ledger_done (wredis w) rid \<longrightarrow> ledger_done (wredis w') rid)
    \<and> ledger_rids (wredis w') = ledger_rids (wredis w)
    \<and> (x = Inr True \<longrightarrow> ledger_done (wredis w') (e_request e))"
proof -
  have lo: "ledger_ok (wredis w)" using assms(2) by (simp add: accounted_def)
  note se = settle_entry_effect [OF assms(1) lo assms(3,4)]
  show ?thesis
  proof (cases "wredis w' = wredis w \<and> x \<noteq> Inr True")
    case True
    then show ?thesis using se assms(2) by (simp add: accounted_def)
  next
    case False
    with se have a: "wdb w' = wdb w" "ledger_ok (wredis w')"
      "ledger_entry (wredis w) (e_request e) = Some (e\<lparr>e_state := ledger_pending\<rparr>)"
      "\<forall>rid. ledger_entry (wredis w') rid = (if rid = e_request e then Some (e\<lparr>e_state := ledger_reconciled\<rparr>)
         else ledger_entry (wredis w) rid)"
      "\<forall>p. gate_stock (wredis w') p = gate_stock (wredis w) p + (if p = e_product e then q else 0)
         \<and> outstanding p (wredis w') (wdb w)
           = outstanding p (wredis w) (wdb w) - owed p (wredis w) (wdb w) (e_request e)"
      "q = 0 \<or> fits_int64 (gate_stock (wredis w') (e_product e))"
      by argo+
    have ow: "owed p (wredis w) (wdb w) (e_request e) = (if p = e_product e then q else 0)" for p
      using a(3) assms(5) [OF a(3)] by (auto simp: owed_def)
    have fit: "fits_int64 (gate_stock (wredis w') p)" for p
      using a(5,6) assms(2) by (cases "p = e_product e") (auto simp: accounted_def)
    have ge: "0 \<le> gate_stock (wredis w') p" for p
      using a(5) assms(2,4) by (cases "p = e_product e") (auto simp: accounted_def)
    have acc: "gate_stock (wredis w') p + ordered_quantity p (wdb w') + outstanding p (wredis w') (wdb w') = initial p" for p
    proof -
      have "gate_stock (wredis w) p + ordered_quantity p (wdb w) + outstanding p (wredis w) (wdb w) = initial p"
        using assms(2) by (simp only: accounted_def)
      then show ?thesis using spec [OF a(5), of p] ow [of p] a(1) by simp
    qed
    have "current (wredis w') e'" if "current (wredis w) e'" for e'
      using current_settled [OF that a(4,3)] .
    moreover have "ledger_done (wredis w') rid" if "ledger_done (wredis w) rid \<or> rid = e_request e" for rid
      using that a(4) by (auto simp: ledger_done_def ledger_reconciled_def ledger_pending_def)
    moreover have "ledger_rids (wredis w') = ledger_rids (wredis w)"
      using ledger_rids_iff [OF a(2)] ledger_rids_iff [OF lo] a(3,4) by (auto simp: set_eq_iff)
    moreover have "accounted initial w'" using a(2) acc fit ge by (intro accountedI) simp_all
    ultimately show ?thesis using a(1) by simp
  qed
qed

lemma reconcile_entry_accounts:
  assumes "reconcile_entry window now e w = (x, w')" "accounted initial w" "current (wredis w) e"
  shows "accounted initial w' \<and> wdb w' = wdb w \<and> (\<forall>e'. current (wredis w) e' \<longrightarrow> current (wredis w') e')
    \<and> (\<forall>rid. ledger_done (wredis w) rid \<longrightarrow> ledger_done (wredis w') rid)
    \<and> ledger_rids (wredis w') = ledger_rids (wredis w)"
proof (cases "e_state e \<noteq> ledger_pending \<or> now - e_created e < window")
  case True
  then show ?thesis using assms(1,2) by (auto simp: reconcile_entry_def split: if_splits)
next
  case False
  obtain y w1 where qy: "on_db (query (\<lambda>d. Inr (count_by_request (e_request e) d))) w = (y, w1)" by fastforce
  note q1 = on_db_query_any [OF qy]
  have acc: "accounted initial w1" "current (wredis w1) e" using q1 assms(2,3) by (simp_all add: accounted_def)
  show ?thesis
  proof (cases y)
    case (Inl er)
    then have "w' = w1" using assms(1) False qy by (auto simp: reconcile_entry_def)
    then show ?thesis using q1 acc by simp
  next
    case (Inr cnt)
    then have cnt: "0 < cnt \<longleftrightarrow> e_request e \<in> o_request ` set (orders (wdb w1))"
      using q1 by (auto simp: count_by_request_pos)
    let ?q = "if 0 < cnt then 0 else e_quantity e"
    obtain z w2 where sy: "settle_entry e ?q w1 = (z, w2)" by fastforce
    have w': "w' = w2" using assms(1) False qy Inr sy by (auto simp: reconcile_entry_def split: sum.splits)
    have q0: "0 \<le> ?q" using current_ok [OF _ acc(2)] acc(1) by (simp add: accounted_def entry_ok_def)
    show ?thesis using settle_entry_accounts [OF sy acc q0] cnt q1 w' by simp
  qed
qed

text \<open>
  The schedules an accepting call survives: its first call (the pre-deduction) may be lost but not left unanswered, all
  further calls may be left unanswered but not lost.
\<close>

fun accepting_faults :: "fault list \<Rightarrow> bool" where
  "accepting_faults [] \<longleftrightarrow> True"
| "accepting_faults (f # fs) \<longleftrightarrow> (\<forall>e. f \<noteq> Unacked e) \<and> list_all (\<lambda>g. \<forall>e. g \<noteq> Lost e) fs"

text \<open>The two calls on the gate under such a schedule.\<close>

lemma pre_deduct_accepting:
  assumes "pre_deduct p q w = (x, w')" "accepting_faults (wfaults w)"
  shows "wdb w' = wdb w \<and> wlog w' = wlog w \<and>
    ((\<exists>e. x = Inl e) \<and> wredis w' = wredis w
     \<or> (\<exists>n. x = Inr (n - q) \<and> counter (wredis w) (stock_key p) = Some n \<and> q \<le> n \<and> fits_int64 (n - q)
          \<and> wredis w' = rmodify (stock_key p) (RString (Num (n - q))) (wredis w) \<and> unlost w'))"
proof -
  obtain y where y: "on_redis (pre_deduct_script (stock_key p) q) w = (y, w')"
    and x: "x = (case y of Inl e \<Rightarrow> Inl e | Inr n \<Rightarrow> if n = -1 then Inl OrderInsufficientStock else Inr n)"
    using assms(1) by (auto simp: pre_deduct_def split: prod.splits sum.splits if_splits)
  have c: "pre_deduct_script (stock_key p) q (wredis w) = (y, wredis w') \<and> unlost w'
      \<or> (\<exists>e. y = Inl e) \<and> wredis w' = wredis w"
    using y assms(2)
    by (cases "wfaults w"; cases "pre_deduct_script (stock_key p) q (wredis w)")
      (auto simp: on_redis_def next_fault_def unlost_def split: fault.splits)
  then show ?thesis
  proof (elim disjE conjE exE)
    assume s: "pre_deduct_script (stock_key p) q (wredis w) = (y, wredis w')" "unlost w'"
    from pre_deduct_script_cases [OF s(1)] s(2) on_redis_cases [OF y] x show ?thesis
      by (elim disjE exE conjE) (auto split: sum.splits)
  qed (use on_redis_cases [OF y] x in auto)
qed

lemma rollback_pre_deduct_unlost:
  assumes "unlost w" "counter (wredis w) (stock_key p) = Some m" "fits_int64 (m + q)"
  shows "unlost (snd (rollback_pre_deduct p q w)) \<and> wdb (snd (rollback_pre_deduct p q w)) = wdb w
    \<and> wlog (snd (rollback_pre_deduct p q w)) = wlog w
    \<and> wredis (snd (rollback_pre_deduct p q w)) = rmodify (stock_key p) (RString (Num (m + q))) (wredis w)"
proof -
  obtain y w' where y: "on_redis (rollback_script (stock_key p) q) w = (y, w')" by fastforce
  have "snd (rollback_pre_deduct p q w) = w'" by (simp add: rollback_pre_deduct_def y split: sum.splits)
  with on_redis_unlost [OF y assms(1)] incrby_counter [OF assms(2,3)]
  show ?thesis by (simp add: rollback_script_def)
qed

text \<open>
  What the accounting needs of the injected \<open>ProduceFunc\<close>: it does not touch the two stores, and is no call on them, so
  it leaves the fates of the calls that follow as they are (executed ones stay executed). Whether it produced is free.
\<close>

definition produce_ok :: "(world \<Rightarrow> (go_error + unit) \<times> world) \<Rightarrow> bool" where
  "produce_ok produce \<longleftrightarrow> (\<forall>w x w'. produce w = (x, w') \<longrightarrow>
     wredis w' = wredis w \<and> wdb w' = wdb w \<and> (unlost w \<longrightarrow> unlost w'))"

lemma produce_sync_ok: "produce_ok (produce_sync rec)"
  unfolding produce_ok_def
  by (auto simp: produce_sync_def split: prod.splits fault.splits dest: unlost_fault next_fault_frame)

lemma gate_stock_rmodify:
  "gate_stock (rmodify (stock_key p) (RString (Num m)) r) p' = (if p' = p then m else gate_stock r p')"
  by (simp add: gate_stock_def)

lemma record_pre_deduct_fresh:
  assumes "record_pre_deduct req now w = (x, w')" "unlost w"
    and "ledger_ok (wredis w)" "ledger_entry (wredis w) (r_request req) = None"
    and "e = \<lparr>e_request = r_request req, e_product = r_product req, e_quantity = r_quantity req,
               e_created = now, e_state = ledger_pending\<rparr>" "entry_ok e"
    and "r_request req \<notin> o_request ` set (orders (wdb w))"
  shows "unlost w' \<and> wdb w' = wdb w \<and> ledger_ok (wredis w')
    \<and> (\<forall>rid. ledger_entry (wredis w') rid = (if rid = r_request req then Some e else ledger_entry (wredis w) rid))
    \<and> (\<forall>p. outstanding p (wredis w') (wdb w)
          = outstanding p (wredis w) (wdb w) + (if p = r_product req then r_quantity req else 0))
    \<and> (\<forall>p. counter (wredis w') (stock_key p) = counter (wredis w) (stock_key p))"
proof -
  have lk: "rlookup (wredis w) (ledger_key (r_request req)) = None"
    using ledger_lookup(1) [OF assms(3), of "r_request req"] assms(4) by simp
  obtain y where y: "on_redis (redis_setnx (ledger_key (r_request req)) (RString (encode_entry e)) 0) w = (y, w')"
    using assms(1) unfolding record_pre_deduct_def assms(5) [symmetric]
    by (auto split: prod.splits sum.splits)
  have c: "unlost w'" "wredis w' = rset (ledger_key (r_request req)) (RString (encode_entry e)) (wredis w)"
    using on_redis_unlost [OF y assms(2)] lk by (auto simp: redis_setnx_def)
  have lw: "\<forall>rid'. rlookup (wredis w') (ledger_key rid') = (if rid' = r_request req
      then Some (RString (encode_entry e)) else rlookup (wredis w) (ledger_key rid'))"
    by (simp add: c(2))
  note l = ledger_write [OF assms(3,6) _ lw]
  have "owed p (wredis w) (wdb w) (r_request req) = 0" for p
    using assms(4) by (simp add: owed_def)
  then have "outstanding p (wredis w') (wdb w)
      = outstanding p (wredis w) (wdb w) + (if p = r_product req then r_quantity req else 0)" for p
    using l(4) [of p "wdb w"] assms(5,7) by simp
  moreover have "wdb w' = wdb w" using on_redis_cases [OF y] by simp
  moreover have "counter (wredis w') (stock_key p) = counter (wredis w) (stock_key p)" for p
    by (simp add: c(2))
  moreover have "e_request e = r_request req" by (simp add: assms(5))
  ultimately show ?thesis using c(1) l(1,3) by simp
qed

text \<open>
  One call of \<open>EnqueueWithLedger\<close> for a new request, under a schedule it survives, keeps the
  accounting: refused, failed in one of its calls, crashed after the record, failed to produce, or accepted.
\<close>

lemma enqueue_with_ledger_accounts:
  assumes "enqueue_with_ledger now produce req crash w = (err, crash', w')" "accepting_faults (wfaults w)"
    and "accounted initial w" "produce_ok produce"
    and "entry_ok \<lparr>e_request = r_request req, e_product = r_product req, e_quantity = r_quantity req,
           e_created = now, e_state = ledger_pending\<rparr>"
    and "ledger_entry (wredis w) (r_request req) = None" "r_request req \<notin> o_request ` set (orders (wdb w))"
  shows "accounted initial w' \<and> wdb w' = wdb w"
proof -
  let ?p = "r_product req" and ?q = "r_quantity req"
  define e where "e = \<lparr>e_request = r_request req, e_product = r_product req, e_quantity = r_quantity req,
           e_created = now, e_state = ledger_pending\<rparr>"
  note eo = assms(5) [folded e_def]
  have acc: "gate_stock (wredis w) p + ordered_quantity p (wdb w) + outstanding p (wredis w) (wdb w) = initial p"
    "fits_int64 (gate_stock (wredis w) p)" "ledger_ok (wredis w)" "0 \<le> gate_stock (wredis w) p" for p
    using assms(3) by (simp_all only: accounted_def)
  obtain x w1 where pd: "pre_deduct ?p ?q w = (x, w1)" by fastforce
  note p1 = pre_deduct_accepting [OF pd assms(2)]
  show ?thesis
  proof (cases x)
    case (Inl er)
    then have "w' = w1" using assms(1) pd by (simp add: enqueue_with_ledger_def)
    then show ?thesis using p1 Inl assms(3) by (auto simp: accounted_def)
  next
    case (Inr r)
    then obtain n where n: "counter (wredis w) (stock_key ?p) = Some n" "?q \<le> n" "fits_int64 (n - ?q)"
      "wredis w1 = rmodify (stock_key ?p) (RString (Num (n - ?q))) (wredis w)"
      and c1: "unlost w1" "wdb w1 = wdb w"
      using p1 by auto
    have gn: "gate_stock (wredis w) ?p = n" using n(1) by (simp add: gate_stock_def)
    have fr: "\<forall>rid. rlookup (wredis w1) (ledger_key rid) = rlookup (wredis w) (ledger_key rid)" by (simp add: n(4))
    note f1 = ledger_frame [OF fr]
    obtain y w2 where rp: "record_pre_deduct req now w1 = (y, w2)" by fastforce
    have r2: "unlost w2" "unlost w2" "wdb w2 = wdb w" "ledger_ok (wredis w2)"
      "ledger_entry (wredis w2) rid = (if rid = r_request req then Some e else ledger_entry (wredis w) rid)"
      "outstanding p (wredis w2) (wdb w)
          = outstanding p (wredis w) (wdb w) + (if p = ?p then ?q else 0)"
      "counter (wredis w2) (stock_key p) = counter (wredis w1) (stock_key p)" for p rid
      using record_pre_deduct_fresh [OF rp c1(1) _ _ e_def eo] f1 acc(3) assms(6,7) c1 by auto
    have g2: "gate_stock (wredis w2) p = (if p = ?p then n - ?q else gate_stock (wredis w) p)" for p
      using r2(7) [of p] n(4) by (simp add: gate_stock_def)
    have a2: "accounted initial w2"
    proof (rule accountedI)
      show "gate_stock (wredis w2) p + ordered_quantity p (wdb w2) + outstanding p (wredis w2) (wdb w2) = initial p" for p
        using r2(3) r2(6) [of p] g2 [of p] acc(1) [of p] gn by (cases "p = ?p") simp_all
      show "fits_int64 (gate_stock (wredis w2) p)" for p using g2 acc(2) n(3) by simp
      show "0 \<le> gate_stock (wredis w2) p" for p using g2 acc(4) n(2) by simp
    qed (rule r2(4))
    obtain b cr where cf: "crash_fire crash = (b, cr)" by fastforce
    show ?thesis
    proof (cases "b \<or> (\<exists>er. y = Inl er)")
      case True
      then have "w' = w2" using assms(1) pd Inr rp cf by (cases y) (auto simp: enqueue_with_ledger_def)
      then show ?thesis using a2 r2(3) by simp
    next
      case ff: False
      then have False: "\<not> b" and y: "y = Inr ()" by (cases y; simp)+
      obtain z w3 where pr: "produce w2 = (z, w3)" by fastforce
      have p3: "wredis w3 = wredis w2" "wdb w3 = wdb w" "unlost w3"
        using assms(4) pr r2(2,3) by (auto simp: produce_ok_def)
      show ?thesis
      proof (cases z)
        case (Inr u)
        then have "w' = w3" using assms(1) pd \<open>x = Inr r\<close> rp y cf False pr by (simp add: enqueue_with_ledger_def)
        then show ?thesis using a2 p3 r2(3) by (simp add: accounted_def)
      next
        case (Inl er)
        define w4 where "w4 = snd (rollback_pre_deduct ?p ?q w3)"
        have fn: "fits_int64 (n - ?q + ?q)" using acc(2) [of ?p] gn by simp
        have "counter (wredis w3) (stock_key ?p) = Some (n - ?q)"
          using r2(7) [of ?p] n(4) p3(1) by simp
        note rb = rollback_pre_deduct_unlost [OF p3(3) this fn, folded w4_def]
        have fr4: "\<forall>rid. rlookup (wredis w4) (ledger_key rid) = rlookup (wredis w2) (ledger_key rid)"
          using rb p3(1) by simp
        note f4 = ledger_frame [OF fr4]
        have g4: "gate_stock (wredis w4) p = gate_stock (wredis w) p" for p
          using rb g2 [of p] gn p3(1) by (simp add: gate_stock_rmodify)
        obtain t w5 where se: "settle_entry e 0 w4 = (t, w5)" by fastforce
        have "ledger_ok (wredis w4)" "current (wredis w4) e"
          using f4 r2(4,5) by (auto simp: current_def e_def intro!: exI [of _ ledger_pending])
        note sx = settle_entry_effect [OF se this order_refl]
        have w': "w' = w5"
          using assms(1) pd \<open>x = Inr r\<close> rp y cf False pr Inl se
          by (auto simp: enqueue_with_ledger_def e_def [symmetric] w4_def [symmetric] split: sum.splits)
        have st: "wredis w5 \<noteq> wredis w4"
        proof -
          obtain v where v: "on_redis (settle_script (ledger_key (e_request e)) (stock_key (e_product e)) 0
               (encode_entry (e\<lparr>e_state := ledger_reconciled\<rparr>))) w4 = (v, w5)"
            using se by (auto simp: settle_entry_def split: prod.splits sum.splits)
          have lk4: "rlookup (wredis w4) (ledger_key (r_request req)) = Some (RString (encode_entry e))"
            using ledger_lookup(1) [OF r2(4), of "r_request req"] fr4 r2(5) by simp
          have "unlost w4" using rb by simp
          from on_redis_unlost [OF v this] lk4
          have "wredis w5 = rset (ledger_key (r_request req)) (RString (encode_entry (e\<lparr>e_state := ledger_reconciled\<rparr>))) (wredis w4)"
            by (simp add: settle_script_def lua_state_encode e_def)
          then have "rlookup (wredis w5) (ledger_key (r_request req)) \<noteq> rlookup (wredis w4) (ledger_key (r_request req))"
            by (simp add: lk4 encode_entry_def e_def ledger_pending_def ledger_reconciled_def)
          then show ?thesis by auto
        qed
        have s5: "ledger_ok (wredis w5)" "wdb w5 = wdb w"
          "gate_stock (wredis w5) p = gate_stock (wredis w4) p"
          "outstanding p (wredis w5) (wdb w) = outstanding p (wredis w2) (wdb w) - owed p (wredis w2) (wdb w) (r_request req)" for p
          using sx st rb p3(2) f4 by (auto simp: e_def)
        have ow: "owed p (wredis w2) (wdb w) (r_request req) = (if p = ?p then ?q else 0)" for p
          using r2(5) assms(7) by (auto simp: owed_def e_def)
        have "gate_stock (wredis w5) p + ordered_quantity p (wdb w5) + outstanding p (wredis w5) (wdb w5) = initial p" for p
          using s5(2) s5(3) [of p] s5(4) [of p] g4 [of p] r2(6) [of p] ow [of p] acc(1) [of p] by simp
        then have "accounted initial w5"
          using s5(1,3) g4 acc(2,4) by (intro accountedI) simp_all
        then show ?thesis using w' s5(2) by simp
      qed
    qed
  qed
qed

text \<open>A message delivered while its entry is pending: the debt becomes an order.\<close>

lemma place_record_accounts:
  assumes "place_record nid rec w = (x, w')" "accounted initial w"
    and "request_from_record (k_value rec) = Inr req"
    and "ledger_entry (wredis w) (r_request req) = Some e" "e_state e = ledger_pending"
    and "e_product e = r_product req" "e_quantity e = r_quantity req"
  shows "accounted initial w' \<and> wredis w' = wredis w"
proof -
  have run: "place_order_tx nid (\<lambda>d. d) (\<lambda>d. d) req w = (x, w')"
    using assms(1,3) by (simp add: place_record_def)
  note c = place_order_tx_cases [OF run refl]
  have acc: "gate_stock (wredis w) p + ordered_quantity p (wdb w) + outstanding p (wredis w) (wdb w) = initial p"
    "fits_int64 (gate_stock (wredis w) p)" "ledger_ok (wredis w)" "0 \<le> gate_stock (wredis w) p" for p
    using assms(2) by (simp_all only: accounted_def)
  show ?thesis
  proof (cases "wdb w' = wdb w")
    case True
    then show ?thesis using assms(2) c by (simp add: accounted_def)
  next
    case False
    then obtain i where s: "sale i req (wdb w) (wdb w')" using c by auto
    have fresh: "r_request req \<notin> o_request ` set (orders (wdb w))"
      and rows: "o_request ` set (orders (wdb w')) = insert (r_request req) (o_request ` set (orders (wdb w)))"
      using s by (auto simp: sale_def booked_def)
    have r: "wredis w' = wredis w" using c by simp
    have out: "outstanding p (wredis w) (wdb w') = outstanding p (wredis w) (wdb w)
        - (if p = r_product req then r_quantity req else 0)" for p
    proof -
      have "sum (owed p (wredis w) (wdb w')) (ledger_rids (wredis w))
        = sum (owed p (wredis w) (wdb w)) (ledger_rids (wredis w))
          - owed p (wredis w) (wdb w) (r_request req) + owed p (wredis w) (wdb w') (r_request req)"
        using acc(3) ledger_rids_iff [OF acc(3)] assms(4) rows
        by (intro owed_update) (auto simp: ledger_ok_def owed_def split: option.splits)
      then show ?thesis
        using assms(4-7) fresh rows by (auto simp: outstanding_def owed_def)
    qed
    have "gate_stock (wredis w') p + ordered_quantity p (wdb w') + outstanding p (wredis w') (wdb w') = initial p" for p
      using acc(1) [of p] out [of p] sale_ordered [OF s, of p] r by (cases "p = r_product req") simp_all
    then show ?thesis using acc r by (auto intro!: accountedI)
  qed
qed

section \<open>The protocol\<close>

text \<open>
  The three parties as steps on the shared stores, each run under its own schedule of failing
  calls: an accepting call for a request id with neither an entry nor an order (its pre-deduction may be
  lost and its later calls left unanswered; it may crash after the record or fail to produce), a delivery of
  a message whose entry is still pending and names the same product and quantity, and the verdict of
  the job on an entry it has scanned at some time. The last two may fail at any call. \<open>EnqueueWithLedger\<close>
  checks neither the id nor its own failures: what a step leaves out breaks the account
  (\<open>reused_request_leaks\<close>, \<open>unanswered_deduction_leaks\<close>, \<open>lost_record_leaks\<close>, \<open>lost_rollback_leaks\<close>,
  \<open>lost_settling_refunds_twice\<close>, \<open>late_message_after_refund\<close>).
\<close>

inductive ledger_step :: "world \<Rightarrow> world \<Rightarrow> bool" where
  step_accept: "enqueue_with_ledger now produce req crash (w\<lparr>wfaults := fs\<rparr>) = (err, crash', w') \<Longrightarrow>
     accepting_faults fs \<Longrightarrow> produce_ok produce \<Longrightarrow>
     entry_ok \<lparr>e_request = r_request req, e_product = r_product req, e_quantity = r_quantity req,
       e_created = now, e_state = ledger_pending\<rparr> \<Longrightarrow>
     ledger_entry (wredis w) (r_request req) = None \<Longrightarrow>
     r_request req \<notin> o_request ` set (orders (wdb w)) \<Longrightarrow> ledger_step w w'"
| step_deliver: "place_record nid rec (w\<lparr>wfaults := fs\<rparr>) = (x, w') \<Longrightarrow>
     request_from_record (k_value rec) = Inr req \<Longrightarrow>
     ledger_entry (wredis w) (r_request req) = Some e \<Longrightarrow> e_state e = ledger_pending \<Longrightarrow>
     e_product e = r_product req \<Longrightarrow> e_quantity e = r_quantity req \<Longrightarrow> ledger_step w w'"
| step_verdict: "reconcile_entry window now e (w\<lparr>wfaults := fs\<rparr>) = (x, w') \<Longrightarrow>
     current (wredis w) e \<Longrightarrow> ledger_step w w'"

inductive_cases ledger_stepE: "ledger_step w w'"

lemma accounted_faults [simp]: "accounted initial (w\<lparr>wfaults := fs\<rparr>) = accounted initial w"
  by (simp add: accounted_def)


lemma ledger_step_accounts: "ledger_step w w' \<Longrightarrow> accounted initial w \<Longrightarrow> accounted initial w'"
proof (induction rule: ledger_step.induct)
  case (step_accept now produce req crash w fs err crash' w')
  then show ?case
    using enqueue_with_ledger_accounts [OF step_accept(1), of initial] by simp
next
  case (step_deliver nid rec w fs x w' req e)
  then show ?case using place_record_accounts [OF step_deliver(1), of initial req e] by simp
next
  case (step_verdict window now e w fs x w')
  then show ?case using reconcile_entry_accounts [OF step_verdict(1), of initial] by simp
qed

lemma ledger_reachable: "ledger_step\<^sup>*\<^sup>* w w' \<Longrightarrow> accounted initial w \<Longrightarrow> accounted initial w'"
  by (induction rule: rtranclp_induct) (auto dest: ledger_step_accounts)

section \<open>One round of the job\<close>

lemma redis_get_frame [simp]: "snd (redis_get k r) = r"
  by (simp add: redis_get_def split: option.splits rvalue.splits)

lemma get_ledger_key:
  assumes "ledger_ok r" "redis_get (ledger_key rid) r = (x, r')"
  shows "x = (case ledger_entry r rid of None \<Rightarrow> Inl RedisNil | Some e \<Rightarrow> Inr (encode_entry e)) \<and> r' = r"
  using assms ledger_lookup(1) [OF assms(1), of rid]
  by (auto simp: redis_get_def split: option.splits)

definition scanned :: "redis \<Rightarrow> entry \<Rightarrow> bool" where
  "scanned r e \<longleftrightarrow> ledger_entry r (e_request e) = Some e"

lemma scan_page_cases:
  assumes "scan_page ks es w = (x, w')" "ledger_ok (wredis w)" "\<forall>k \<in> set ks. \<exists>rid. k = ledger_key rid"
    and "\<forall>e \<in> set es. scanned (wredis w) e"
  shows "wredis w' = wredis w \<and> wdb w' = wdb w \<and> (\<forall>es'. x = Inr es' \<longrightarrow> (\<forall>e \<in> set es'. scanned (wredis w) e))
    \<and> (calm w \<longrightarrow> calm w' \<and> (\<exists>es'. x = Inr es' \<and> set es \<subseteq> set es'
         \<and> (\<forall>rid e. ledger_key rid \<in> set ks \<longrightarrow> ledger_entry (wredis w) rid = Some e \<longrightarrow> e \<in> set es')))"
  using assms
proof (induction ks es w arbitrary: x w' rule: scan_page.induct)
  case (2 k ks es w)
  obtain rid where k: "k = ledger_key rid" using "2.prems"(3) by auto
  obtain y w1 where y: "on_redis (redis_get k) w = (y, w1)" by fastforce
  have fr: "wredis w1 = wredis w" "wdb w1 = wdb w" using on_redis_cases [OF y] by auto
  obtain g where g: "redis_get k (wredis w) = (g, wredis w)" by (metis prod.collapse redis_get_frame)
  have gl: "g = (case ledger_entry (wredis w) rid of None \<Rightarrow> Inl RedisNil | Some e \<Rightarrow> Inr (encode_entry e))"
    using get_ledger_key [OF "2.prems"(2), of rid] g k by auto
  have yg: "y = g \<or> (\<exists>n. y = Inl (net_err n))" and calm1: "calm w \<Longrightarrow> y = g \<and> calm w1"
    using on_redis_cases [OF y] on_redis_calm [OF y] g by auto
  have keys: "\<forall>k \<in> set ks. \<exists>rid. k = ledger_key rid" using "2.prems"(3) by simp
  show ?case
  proof (cases "y = g")
    case False
    then obtain n where "y = Inl (net_err n)" "\<not> calm w" using yg calm1 by auto
    then show ?thesis using "2.prems"(1,4) y fr by auto
  next
    case True
    show ?thesis
    proof (cases "ledger_entry (wredis w) rid")
      case None
      then have "y = Inl RedisNil" using True gl by simp
      then have "scan_page ks es w1 = (x, w')" using "2.prems"(1) y by simp
      from "2.IH"(1) [OF y [symmetric] \<open>y = Inl RedisNil\<close> refl this] None "2.prems"(2,4) keys fr calm1
      show ?thesis by (auto simp: k)
    next
      case (Some e)
      have eo: "e_request e = rid" "entry_ok e" using ledger_lookup(2) [OF "2.prems"(2) Some] by auto
      then have dec: "decode_entry (encode_entry e) = Inr e" by (simp add: decode_encode)
      have yv: "y = Inr (encode_entry e)" using True gl Some by simp
      have run: "scan_page ks (es @ [e]) w1 = (x, w')" using "2.prems"(1) y yv dec by simp
      have new: "\<forall>e' \<in> set (es @ [e]). scanned (wredis w1) e'"
        using "2.prems"(4) Some eo fr by (auto simp: scanned_def)
      from "2.IH"(3) [OF y [symmetric] yv dec run _ keys new] "2.prems"(2) fr calm1 Some k
      show ?thesis by auto
    qed
  qed
qed auto

lemma scan_ledger_cases:
  assumes "scan_ledger pages es w = (x, w')" "ledger_ok (wredis w)"
    and "\<forall>k \<in> set (concat pages). \<exists>rid. k = ledger_key rid" "\<forall>e \<in> set es. scanned (wredis w) e"
  shows "wredis w' = wredis w \<and> wdb w' = wdb w \<and> (\<forall>es'. x = Inr es' \<longrightarrow> (\<forall>e \<in> set es'. scanned (wredis w) e))
    \<and> (calm w \<longrightarrow> calm w' \<and> (\<exists>es'. x = Inr es' \<and> set es \<subseteq> set es'
         \<and> (\<forall>rid e. ledger_key rid \<in> set (concat pages) \<longrightarrow> ledger_entry (wredis w) rid = Some e \<longrightarrow> e \<in> set es')))"
  using assms
proof (induction pages es w arbitrary: x w' rule: scan_ledger.induct)
  case (2 ks pages es w)
  obtain y w1 where y: "on_redis (\<lambda>r. (Inr ks, r)) w = (y, w1)" by fastforce
  have fr: "wredis w1 = wredis w" "wdb w1 = wdb w" "y = Inr ks \<or> (\<exists>n. y = Inl (net_err n))"
    and c1: "calm w \<Longrightarrow> y = Inr ks \<and> calm w1"
    using on_redis_cases [OF y] on_redis_calm [OF y] by auto
  show ?case
  proof (cases y)
    case (Inl e)
    then show ?thesis using "2.prems"(1,4) y fr c1 by auto
  next
    case (Inr keys)
    then have k: "keys = ks" using fr by auto
    obtain z w2 where z: "scan_page ks es w1 = (z, w2)" by fastforce
    have pk: "\<forall>k \<in> set ks. \<exists>rid. k = ledger_key rid" using "2.prems"(3) by simp
    have es1: "\<forall>e \<in> set es. scanned (wredis w1) e" using "2.prems"(4) fr by simp
    have ok1: "ledger_ok (wredis w1)" using "2.prems"(2) fr by simp
    note sp = scan_page_cases [OF z ok1 pk es1]
    show ?thesis
    proof (cases z)
      case (Inl e)
      then have "x = Inl e" "w' = w2" using "2.prems"(1) y Inr k z by auto
      then show ?thesis using sp Inl fr c1 by auto
    next
      case (Inr es1')
      have run: "scan_ledger pages es1' w2 = (x, w')"
        using "2.prems"(1) y \<open>y = Inr keys\<close> k z Inr by simp
      have "ledger_ok (wredis w2)" "\<forall>e \<in> set es1'. scanned (wredis w2) e"
        "\<forall>k \<in> set (concat pages). \<exists>rid. k = ledger_key rid"
        using sp ok1 Inr "2.prems"(3) by auto
      from "2.IH" [OF y [symmetric] \<open>y = Inr keys\<close> z [symmetric, folded k] Inr run this(1,3,2)] sp Inr fr c1 k
      show ?thesis by fastforce
    qed
  qed
qed auto

lemma scanned_current: "scanned r e \<Longrightarrow> current r e"
  by (auto simp: scanned_def current_def intro!: exI [of _ "e_state e"])

text \<open>The list, under any schedule: the accounting stays, verdicts stay, entries stay current.\<close>

lemma reconcile_list_accounts:
  assumes "reconcile_list window now ctx i es rp w = (x, w')" "accounted initial w"
    and "\<forall>e \<in> set es. current (wredis w) e"
  shows "accounted initial w' \<and> wdb w' = wdb w
    \<and> (\<forall>rid. ledger_done (wredis w) rid \<longrightarrow> ledger_done (wredis w') rid)
    \<and> ledger_rids (wredis w') = ledger_rids (wredis w)"
  using assms
proof (induction window now ctx i es rp w arbitrary: x w' rule: reconcile_list.induct)
  case (2 window now ctx i e es rp w)
  show ?case
  proof (cases "ctx i")
    case None
    obtain y w1 where y: "reconcile_entry window now e w = (y, w1)" by fastforce
    note ra = reconcile_entry_accounts [OF y "2.prems"(2)]
    show ?thesis
    proof (cases y)
      case (Inr oc)
      have run: "reconcile_list window now ctx (Suc i) es (count_outcome oc e rp) w1 = (x, w')"
        using "2.prems"(1) None y Inr by simp
      from "2.IH" [OF None y [symmetric] Inr run] ra "2.prems"(3) show ?thesis by auto
    qed (use "2.prems" None y ra in auto)
  qed (use "2.prems" in auto)
qed auto

text \<open>One old entry, with answered calls: it ends with a verdict.\<close>

lemma owed_le_outstanding:
  assumes "ledger_ok r" "rid \<in> ledger_rids r"
  shows "owed p r d rid \<le> outstanding p r d"
  unfolding outstanding_def
proof (rule member_le_sum)
  show "0 \<le> owed p r d x" for x
    using ledger_lookup(2) [OF assms(1)]
    by (auto simp: owed_def entry_ok_def order_less_imp_le split: option.splits)
qed (use assms in \<open>auto simp: ledger_ok_def\<close>)

lemma settle_entry_calm:
  assumes "settle_entry e q w = (x, w')" "calm w" "ledger_ok (wredis w)" "current (wredis w) e" "0 \<le> q"
    and "counter (wredis w) (stock_key (e_product e)) = Some n" "fits_int64 (n + q)"
  shows "calm w' \<and> (\<exists>b. x = Inr b) \<and> ledger_done (wredis w') (e_request e)"
proof -
  let ?v = "encode_entry (e\<lparr>e_state := ledger_reconciled\<rparr>)"
  obtain st where st: "ledger_entry (wredis w) (e_request e) = Some (e\<lparr>e_state := st\<rparr>)"
    using assms(4) by (auto simp: current_def)
  have lk: "rlookup (wredis w) (ledger_key (e_request e)) = Some (RString (encode_entry (e\<lparr>e_state := st\<rparr>)))"
    using ledger_lookup(1) [OF assms(3), of "e_request e"] st by simp
  obtain y where y: "on_redis (settle_script (ledger_key (e_request e)) (stock_key (e_product e)) q ?v) w = (y, w')"
    and x: "x = map_sum id (\<lambda>n. n = 1) y"
    using assms(1) by (auto simp: settle_entry_def split: prod.splits sum.splits)
  note c = on_redis_calm [OF y assms(2)]
  note inc = incrby_counter [OF assms(6,7)]
  show ?thesis
  proof (cases "st = ledger_pending")
    case False
    then have "y = Inr 0" "wredis w' = wredis w"
      using c lk by (auto simp: settle_script_def lua_state_encode)
    then show ?thesis using x c st False by (auto simp: ledger_done_def)
  next
    case True
    then have "y = Inr 1"
      using c lk inc by (auto simp: settle_script_def lua_state_encode split: if_splits)
    then have xt: "x = Inr True" using x by simp
    have "ledger_done (wredis w') (e_request e)"
      using settle_entry_effect [OF assms(1,3,4,5)] xt
      by (auto simp: ledger_done_def ledger_pending_def ledger_reconciled_def)
    then show ?thesis using c xt by blast
  qed
qed

lemma reconcile_entry_calm:
  assumes "reconcile_entry window now e w = (x, w')" "calm w" "accounted initial w" "current (wredis w) e"
    and "e_state e \<noteq> ledger_pending \<longrightarrow> ledger_done (wredis w) (e_request e)"
    and "e_state e = ledger_pending \<longrightarrow> window \<le> now - e_created e"
    and "counter (wredis w) (stock_key (e_product e)) = Some n"
    and "fits_int64 (initial (e_product e) - ordered_quantity (e_product e) (wdb w))"
  shows "calm w' \<and> (\<exists>oc. x = Inr oc) \<and> ledger_done (wredis w') (e_request e)"
proof (cases "e_state e = ledger_pending \<and> \<not> ledger_done (wredis w) (e_request e)")
  case False
  show ?thesis
  proof (cases "e_state e = ledger_pending")
    case False
    then show ?thesis using assms by (auto simp: reconcile_entry_def)
  next
    case True
    then have dn: "ledger_done (wredis w) (e_request e)" using False by blast
    obtain y w1 where qy: "on_db (query (\<lambda>d. Inr (count_by_request (e_request e) d))) w = (y, w1)" by fastforce
    obtain cnt where q1: "y = Inr cnt" "calm w1" "wredis w1 = wredis w"
      using on_db_calm [OF qy assms(2)] on_db_query_any [OF qy] by (auto simp: query_def)
    obtain z w2 where sy: "settle_entry e (if 0 < cnt then 0 else e_quantity e) w1 = (z, w2)" by fastforce
    obtain v where v: "on_redis (settle_script (ledger_key (e_request e)) (stock_key (e_product e))
          (if 0 < cnt then 0 else e_quantity e) (encode_entry (e\<lparr>e_state := ledger_reconciled\<rparr>))) w1 = (v, w2)"
      and z: "z = map_sum id (\<lambda>n. n = 1) v"
      using sy by (auto simp: settle_entry_def split: prod.splits sum.splits)
    obtain e' where e': "ledger_entry (wredis w) (e_request e) = Some e'" "e_state e' \<noteq> ledger_pending"
      using dn by (auto simp: ledger_done_def)
    have "ledger_ok (wredis w)" using assms(3) by (simp add: accounted_def)
    then have "rlookup (wredis w1) (ledger_key (e_request e)) = Some (RString (encode_entry e'))"
      using ledger_lookup(1) [of "wredis w" "e_request e"] e' q1 by simp
    then have "v = Inr 0" "wredis w2 = wredis w" "calm w2"
      using on_redis_calm [OF v q1(2)] e' q1(3) by (auto simp: settle_script_def lua_state_encode)
    then show ?thesis
      using assms(1,6) True qy q1 sy z dn by (auto simp: reconcile_entry_def split: if_splits)
  qed
next
  case True
  obtain y w1 where qy: "on_db (query (\<lambda>d. Inr (count_by_request (e_request e) d))) w = (y, w1)" by fastforce
  obtain cnt where q1: "y = Inr cnt" "calm w1" "wredis w1 = wredis w" "wdb w1 = wdb w"
    and cnt: "cnt = count_by_request (e_request e) (wdb w)"
    using on_db_calm [OF qy assms(2)] on_db_query_any [OF qy] by (auto simp: query_def)
  let ?q = "if 0 < cnt then 0 else e_quantity e"
  obtain z w2 where sy: "settle_entry e ?q w1 = (z, w2)" by fastforce
  have lo: "ledger_ok (wredis w)" and acc: "gate_stock (wredis w) (e_product e)
      + ordered_quantity (e_product e) (wdb w) + outstanding (e_product e) (wredis w) (wdb w) = initial (e_product e)"
    and ge: "0 \<le> gate_stock (wredis w) (e_product e)" "fits_int64 (gate_stock (wredis w) (e_product e))"
    using assms(3) by (simp_all only: accounted_def)
  have eo: "entry_ok e" using current_ok [OF lo assms(4)] .
  have g: "gate_stock (wredis w) (e_product e) = n" using assms(7) by (simp add: gate_stock_def)
  obtain st where "ledger_entry (wredis w) (e_request e) = Some (e\<lparr>e_state := st\<rparr>)"
    using assms(4) by (auto simp: current_def)
  with True have le: "ledger_entry (wredis w) (e_request e) = Some (e\<lparr>e_state := ledger_pending\<rparr>)"
    by (auto simp: ledger_done_def)
  have "?q = owed (e_product e) (wredis w) (wdb w) (e_request e)"
    using le cnt count_by_request_pos [of "e_request e" "wdb w"] by (auto simp: owed_def)
  also have "\<dots> \<le> outstanding (e_product e) (wredis w) (wdb w)"
    using le ledger_rids_iff [OF lo] by (intro owed_le_outstanding [OF lo]) auto
  finally have "?q \<le> outstanding (e_product e) (wredis w) (wdb w)" .
  then have "n + ?q \<le> initial (e_product e) - ordered_quantity (e_product e) (wdb w)" "0 \<le> ?q" "0 \<le> n"
    using acc g ge eo by (auto simp: entry_ok_def)
  then have "fits_int64 (n + ?q)" using assms(8) by (simp add: fits_int64_def)
  then have "calm w2 \<and> (\<exists>b. z = Inr b) \<and> ledger_done (wredis w2) (e_request e)"
    using lo assms(4,7) q1(3) \<open>0 \<le> ?q\<close>
    by (intro settle_entry_calm [OF sy q1(2)]) (simp_all del: of_nat_0_less_iff)
  then show ?thesis
    using assms(1,6) True qy q1 sy by (auto simp: reconcile_entry_def split: if_splits)
qed

text \<open>What the job can settle: verdicts it may give now, on a warmed product whose stock fits.\<close>

definition settleable :: "(int \<Rightarrow> int) \<Rightarrow> int \<Rightarrow> int \<Rightarrow> world \<Rightarrow> entry \<Rightarrow> bool" where
  "settleable initial window now w e \<longleftrightarrow>
     (e_state e = ledger_pending \<longrightarrow> window \<le> now - e_created e)
     \<and> counter (wredis w) (stock_key (e_product e)) \<noteq> None
     \<and> fits_int64 (initial (e_product e) - ordered_quantity (e_product e) (wdb w))"

lemma reconcile_entry_counter:
  assumes "reconcile_entry window now e w = (x, w')" "counter (wredis w) (stock_key p) \<noteq> None"
    and "ledger_ok (wredis w)" "current (wredis w) e"
  shows "counter (wredis w') (stock_key p) \<noteq> None"
proof (cases "e_state e \<noteq> ledger_pending \<or> now - e_created e < window")
  case True
  then show ?thesis using assms(1,2) by (auto simp: reconcile_entry_def split: if_splits)
next
  case False
  obtain y w1 where qy: "on_db (query (\<lambda>d. Inr (count_by_request (e_request e) d))) w = (y, w1)" by fastforce
  note q1 = on_db_query_any [OF qy]
  show ?thesis
  proof (cases y)
    case (Inl er)
    then show ?thesis using assms(1,2) False qy q1 by (auto simp: reconcile_entry_def)
  next
    case (Inr cnt)
    obtain z w2 where sy: "settle_entry e (if 0 < cnt then 0 else e_quantity e) w1 = (z, w2)" by fastforce
    then have w': "w' = w2" using assms(1) False qy Inr by (auto simp: reconcile_entry_def split: sum.splits)
    obtain v where v: "on_redis (settle_script (ledger_key (e_request e)) (stock_key (e_product e))
          (if 0 < cnt then 0 else e_quantity e) (encode_entry (e\<lparr>e_state := ledger_reconciled\<rparr>))) w1 = (v, w2)"
      using sy by (auto simp: settle_entry_def split: prod.splits sum.splits)
    have "counter (snd (settle_script lk (stock_key p') q pl r)) (stock_key p) \<noteq> None"
      if "counter r (stock_key p) \<noteq> None" "lk \<noteq> stock_key p" for lk p' q pl r
    proof -
      obtain i r1 where i: "incrby (stock_key p') q r = (i, r1)" by fastforce
      have "counter r1 (stock_key p) \<noteq> None"
        using incrby_cases [OF i] that(1) counter_from_lookup by fastforce
      then show ?thesis
        using that i by (auto simp: settle_script_def split: option.splits rvalue.splits sum.splits)
    qed
    then show ?thesis using on_redis_cases [OF v] q1 assms(2) w' by auto
  qed
qed

lemma reconcile_list_calm:
  assumes "reconcile_list window now (\<lambda>_. None) i es rp w = ((rp', err), w')" "calm w" "accounted initial w"
    and "\<forall>e \<in> set es. current (wredis w) e \<and> settleable initial window now w e
        \<and> (e_state e \<noteq> ledger_pending \<longrightarrow> ledger_done (wredis w) (e_request e))"
  shows "err = None \<and> calm w' \<and> (\<forall>e \<in> set es. ledger_done (wredis w') (e_request e))"
  using assms
proof (induction es arbitrary: i rp w)
  case (Cons e es)
  obtain y w1 where y: "reconcile_entry window now e w = (y, w1)" by fastforce
  have e: "current (wredis w) e" "settleable initial window now w e"
      "e_state e \<noteq> ledger_pending \<longrightarrow> ledger_done (wredis w) (e_request e)"
    using Cons.prems(4) by auto
  then obtain n where n: "counter (wredis w) (stock_key (e_product e)) = Some n"
    by (auto simp: settleable_def)
  have "e_state e = ledger_pending \<longrightarrow> window \<le> now - e_created e"
    "fits_int64 (initial (e_product e) - ordered_quantity (e_product e) (wdb w))"
    using e(2) by (auto simp: settleable_def)
  from reconcile_entry_calm [OF y Cons.prems(2,3) e(1,3) this(1) n this(2)]
  obtain oc where oc: "calm w1" "y = Inr oc" "ledger_done (wredis w1) (e_request e)" by auto
  note ra = reconcile_entry_accounts [OF y Cons.prems(3) e(1)]
  have run: "reconcile_list window now (\<lambda>_. None) (Suc i) es (count_outcome oc e rp) w1 = ((rp', err), w')"
    using Cons.prems(1) y oc(2) by simp
  have ok: "ledger_ok (wredis w)" using Cons.prems(3) by (simp add: accounted_def)
  have "current (wredis w1) e' \<and> settleable initial window now w1 e'
        \<and> (e_state e' \<noteq> ledger_pending \<longrightarrow> ledger_done (wredis w1) (e_request e'))"
    if "e' \<in> set es" for e'
    using Cons.prems(4) that ra reconcile_entry_counter [OF y _ ok e(1), of "e_product e'"]
    by (auto simp: settleable_def)
  then have nxt: "err = None \<and> calm w' \<and> (\<forall>e \<in> set es. ledger_done (wredis w') (e_request e))"
    using Cons.IH [OF run oc(1)] ra by blast
  have "\<forall>e \<in> set es. current (wredis w1) e" using Cons.prems(4) ra by auto
  with reconcile_list_accounts [OF run] ra oc(3) nxt show ?case by auto
qed auto

lemma all_done_outstanding:
  assumes "\<forall>rid \<in> ledger_rids r. ledger_done r rid"
  shows "outstanding p r d = 0"
  unfolding outstanding_def
  by (rule sum.neutral) (use assms in \<open>auto simp: owed_def ledger_done_def split: option.splits\<close>)

text \<open>The identity check reads the accounting back.\<close>

lemma check_identity_calm:
  assumes "calm w" "counter (wredis w) (stock_key p) = Some n" "fits_int64 n" "fits_int64 (ordered_quantity p (wdb w))"
  shows "\<exists>w'. check_identity p initial w = (Inr \<lparr>id_initial = initial, id_remaining = n,
      id_deducted = to_int64 (initial - n), id_ordered = ordered_quantity p (wdb w),
      id_leaked = to_int64 (initial - n - ordered_quantity p (wdb w))\<rparr>, w')"
proof -
  obtain y w1 where y: "on_redis (redis_get (stock_key p)) w = (y, w1)" by fastforce
  have g: "redis_get (stock_key p) (wredis w) = (Inr (Num n), wredis w)"
    using assms(2) by (simp add: redis_get_def counter_Some_iff)
  have y1: "y = Inr (Num n)" "calm w1" "wdb w1 = wdb w"
    using on_redis_calm [OF y assms(1)] on_redis_cases [OF y] g by auto
  obtain z w2 where z: "on_db (query (\<lambda>d. Inr (ordered_quantity p d))) w1 = (z, w2)" by fastforce
  have "z = Inr (ordered_quantity p (wdb w))"
    using on_db_calm [OF z y1(2)] y1(3) by (auto simp: query_def)
  then show ?thesis
    using y y1(1) z assms(3,4) by (simp add: check_identity_def check_ordered_def get_int64_def Let_def)
qed

section \<open>Properties\<close>

text \<open>
  C2: the ledger loses nothing and refunds nothing twice, within the provisos of \<open>ledger_step\<close>. From any accounted
  state (for every product: gate stock, ordered quantity and pending debts add up to the initial stock), every
  state reached is accounted, through any sequence of: accepting calls with a positive 64-bit quantity for request ids that have
  neither a ledger entry nor an order yet, refused, crashed after the record, failed to produce, or accepted, whose
  pre-deduction may be lost and whose record, rollback and settling may be executed without an answer; deliveries of
  messages whose entry is still pending for the same product and quantity; and verdicts of the job on
  entries it has scanned at some time. Every call of the deliveries and of the job may fail, lost or executed without a reply.
  (An id used twice, the four other failures of an accepting call and a message delivered after the refund do break
  the account; each is shown below to.)
\<close>

theorem ledger_always_accounted:
  assumes "ledger_step\<^sup>*\<^sup>* w w'" "accounted initial w"
  shows "accounted initial w'"
  using ledger_reachable [OF assms] .

lemma ledger_rids_empty:
  "\<forall>rid. rlookup r (ledger_key rid) = None \<Longrightarrow> ledger_ok r \<and> ledger_rids r = {}"
  by (auto simp: ledger_ok_def ledger_rids_def)

lemma warm_world_accounted: "accounted (\<lambda>p. if p = 1 then 3 else 0) warm_world"
proof (rule accountedI)
  have n: "\<forall>rid. rlookup (wredis warm_world) (ledger_key rid) = None"
    by (simp add: rlookup_def warm_world_def)
  show "ledger_ok (wredis warm_world)" using ledger_rids_empty [OF n] by simp
  have c: "counter (wredis warm_world) (stock_key p) = (if p = 1 then Some 3 else None)" for p
    by (simp add: counter_def rlookup_def warm_world_def)
  then show "0 \<le> gate_stock (wredis warm_world) p" "fits_int64 (gate_stock (wredis warm_world) p)" for p
    by (simp_all add: gate_stock_def fits_int64_def)
  show "gate_stock (wredis warm_world) p + ordered_quantity p (wdb warm_world)
      + outstanding p (wredis warm_world) (wdb warm_world) = (if p = 1 then 3 else 0)" for p
    using c ledger_rids_empty [OF n]
    by (simp add: gate_stock_def outstanding_def ordered_quantity_def) (simp add: warm_world_def demo_simps)
qed

lemmas ledger_run_simps = enqueue_with_ledger_def enqueue_with_crash_def record_pre_deduct_def mq_run_simps
  redis_setnx_def settle_entry_def settle_script_def ledger_key_def ledger_prefix_def stock_key_def
  encode_entry_def lua_state_def ledger_pending_def ledger_reconciled_def

text \<open>A crash after the record: two items are gone from the gate and pending in the ledger.\<close>

definition crashed_world :: world where
  "crashed_world = snd (snd (enqueue_with_ledger 1000 (produce_sync (order_record order_created_topic demo_req 1000))
      demo_req (Some 1) warm_world))"

lemma warm_world_facts:
  "counter (wredis warm_world) (stock_key p) = (if p = 1 then Some 3 else None)"
  "rlookup (wredis warm_world) (ledger_key rid) = None" "wfaults warm_world = []" "wdb warm_world = demo_db"
  "warm_world\<lparr>wfaults := []\<rparr> = warm_world"
  by (simp_all add: counter_def rlookup_def warm_world_def demo_world_def)

definition demo_entry :: entry where
  "demo_entry = \<lparr>e_request = ''r1'', e_product = 1, e_quantity = 2, e_created = 1000, e_state = ledger_pending\<rparr>"

lemma crashed_world_eq:
  "crashed_world = warm_world\<lparr>wredis := rset (ledger_key ''r1'') (RString (encode_entry demo_entry))
     (rmodify (stock_key 1) (RString (Num 1)) (wredis warm_world))\<rparr>"
  "fst (enqueue_with_ledger 1000 (produce_sync (order_record order_created_topic demo_req 1000))
      demo_req (Some 1) warm_world) = Some SimulatedCrash"
proof -
  have lk: "rlookup (wredis warm_world) (stock_key 1) = Some (RString (Num 3))"
    using warm_world_facts(1) [of 1] by (simp add: counter_Some_iff)
  have "pre_deduct 1 2 warm_world
      = (Inr 1, warm_world\<lparr>wredis := rmodify (stock_key 1) (RString (Num 1)) (wredis warm_world)\<rparr>)"
    using warm_world_facts(3) lk
    by (simp add: pre_deduct_def go_simps pre_deduct_script_def decrby_def incrby_def fits_int64_def)
  then show "crashed_world = warm_world\<lparr>wredis := rset (ledger_key ''r1'') (RString (encode_entry demo_entry))
     (rmodify (stock_key 1) (RString (Num 1)) (wredis warm_world))\<rparr>"
    "fst (enqueue_with_ledger 1000 (produce_sync (order_record order_created_topic demo_req 1000))
      demo_req (Some 1) warm_world) = Some SimulatedCrash"
    using warm_world_facts(2,3)
    by (simp_all add: crashed_world_def enqueue_with_ledger_def record_pre_deduct_def go_simps demo_req_def
        redis_setnx_def demo_entry_def)
qed

lemma crashed_step: "ledger_step warm_world crashed_world"
proof -
  obtain err cr where run: "enqueue_with_ledger 1000 (produce_sync (order_record order_created_topic demo_req 1000))
      demo_req (Some 1) (warm_world\<lparr>wfaults := []\<rparr>) = (err, cr, crashed_world)"
    by (simp add: crashed_world_def warm_world_facts(5) prod_eq_iff)
  show ?thesis
    by (rule step_accept [OF run _ produce_sync_ok])
      (simp_all add: entry_ok_def fits_int64_def demo_req_def ledger_entry_def warm_world_facts demo_db_def)
qed

lemma crashed_reachable: "ledger_step\<^sup>*\<^sup>* warm_world crashed_world"
  by (rule r_into_rtranclp) (rule crashed_step)

theorem ledger_always_accounted_witness:
  "accounted (\<lambda>p. if p = 1 then 3 else 0) crashed_world
   \<and> counter (wredis crashed_world) (stock_key 1) = Some 1"
proof
  show "accounted (\<lambda>p. if p = 1 then 3 else 0) crashed_world"
    by (rule ledger_always_accounted [OF crashed_reachable warm_world_accounted])
qed (simp add: crashed_world_eq)

lemma reconcile_once_closes:
  assumes "accounted initial w" "calm w"
    and "set (concat pages) = ledger_key ` ledger_rids (wredis w)"
    and "\<forall>rid e. ledger_entry (wredis w) rid = Some e \<longrightarrow> settleable initial window now w e"
    and "reconcile_once pages window now (\<lambda>_. None) w = ((rep, err), w')"
  shows "err = None \<and> calm w' \<and> wdb w' = wdb w \<and> accounted initial w'
    \<and> (\<forall>rid \<in> ledger_rids (wredis w'). ledger_done (wredis w') rid)
    \<and> ledger_rids (wredis w') = ledger_rids (wredis w)"
proof -
  have ok: "ledger_ok (wredis w)" using assms(1) by (simp add: accounted_def)
  obtain x w1 where sc: "scan_ledger pages [] w = (x, w1)" by fastforce
  have keys: "\<forall>k \<in> set (concat pages). \<exists>rid. k = ledger_key rid"
    unfolding assms(3) by auto
  from scan_ledger_cases [OF sc ok keys] assms(2) obtain es where
    es: "x = Inr es" "calm w1" "wredis w1 = wredis w" "wdb w1 = wdb w" "\<forall>e \<in> set es. scanned (wredis w) e"
      "\<forall>rid e. ledger_key rid \<in> set (concat pages) \<longrightarrow> ledger_entry (wredis w) rid = Some e \<longrightarrow> e \<in> set es"
    by auto
  have run: "reconcile_list window now (\<lambda>_. None) 0 es empty_report w1 = ((rep, err), w')"
    using assms(5) sc es(1) by (simp add: reconcile_once_def)
  have acc1: "accounted initial w1" using assms(1) es(3,4) by (simp add: accounted_def)
  have cur: "\<forall>e \<in> set es. current (wredis w1) e"
    using es(3,5) scanned_current by auto
  have "settleable initial window now w1 e" if "e \<in> set es" for e
    using assms(4) es(3-5) that by (auto simp: scanned_def settleable_def)
  then have "\<forall>e \<in> set es. current (wredis w1) e \<and> settleable initial window now w1 e
      \<and> (e_state e \<noteq> ledger_pending \<longrightarrow> ledger_done (wredis w1) (e_request e))"
    using cur es(3,5) by (auto simp: scanned_def ledger_done_def)
  from reconcile_list_calm [OF run es(2) acc1 this] reconcile_list_accounts [OF run acc1 cur]
  have fin: "err = None" "calm w'" "\<forall>e \<in> set es. ledger_done (wredis w') (e_request e)"
    "accounted initial w'" "wdb w' = wdb w" "ledger_rids (wredis w') = ledger_rids (wredis w)"
    using es(3,4) by auto
  have "ledger_done (wredis w') rid" if "rid \<in> ledger_rids (wredis w')" for rid
  proof -
    have r: "rid \<in> ledger_rids (wredis w)" using that fin(6) by simp
    then have "ledger_key rid \<in> set (concat pages)" unfolding assms(3) by (rule imageI)
    with r obtain e where e: "ledger_entry (wredis w) rid = Some e" "ledger_key rid \<in> set (concat pages)"
      using ledger_rids_iff [OF ok, of rid] by auto
    then have "e \<in> set es" "e_request e = rid" using es(6) ledger_lookup(2) [OF ok e(1)] by auto
    with fin(3) show ?thesis by auto
  qed
  with fin show ?thesis by blast
qed

text \<open>
  C14: a round of the job closes the leak. Take any accounted state. If the calls of the round
  answer, the scan covers the ledger, the window has passed for every pending entry, and the
  products of its entries are warmed with stocks that fit, then the round ends without error and leaves the
  database alone, every entry of the ledger has its verdict (it is no longer pending), the accounting
  still holds, and \<open>CheckIdentity\<close> afterwards reports \<open>Leaked = 0\<close> for every warmed product whose ordered
  quantity fits 64 bits.
\<close>

theorem reconcile_closes_leak:
  assumes "accounted initial w" "calm w"
    and "set (concat pages) = ledger_key ` ledger_rids (wredis w)"
    and "\<forall>rid e. ledger_entry (wredis w) rid = Some e \<longrightarrow> settleable initial window now w e"
    and "reconcile_once pages window now (\<lambda>_. None) w = ((rep, err), w')"
    and "counter (wredis w') (stock_key p) = Some n" "fits_int64 (ordered_quantity p (wdb w))"
  shows "err = None \<and> wdb w' = wdb w \<and> accounted initial w'
    \<and> (\<forall>rid \<in> ledger_rids (wredis w'). \<exists>e. ledger_entry (wredis w') rid = Some e \<and> e_state e \<noteq> ledger_pending)
    \<and> ledger_rids (wredis w') = ledger_rids (wredis w) \<and>
    (\<exists>ident w''. check_identity p (initial p) w' = (Inr ident, w'') \<and> id_leaked ident = 0 \<and> id_remaining ident = n)"
proof -
  from reconcile_once_closes [OF assms(1-5)]
  have r: "err = None" "calm w'" "wdb w' = wdb w" "accounted initial w'"
    "\<forall>rid \<in> ledger_rids (wredis w'). ledger_done (wredis w') rid"
    "ledger_rids (wredis w') = ledger_rids (wredis w)" by auto
  have "outstanding p (wredis w') (wdb w') = 0" by (rule all_done_outstanding [OF r(5)])
  moreover have "gate_stock (wredis w') p = n" using assms(6) by (simp add: gate_stock_def)
  moreover have "gate_stock (wredis w') p + ordered_quantity p (wdb w') + outstanding p (wredis w') (wdb w') = initial p"
    "fits_int64 (gate_stock (wredis w') p)"
    using r(4) by (simp_all only: accounted_def)
  ultimately have n: "n + ordered_quantity p (wdb w') = initial p" "fits_int64 n" by auto
  have z: "to_int64 (initial p - n - ordered_quantity p (wdb w')) = 0"
    using n(1) by (simp add: to_int64_id fits_int64_def)
  have o: "fits_int64 (ordered_quantity p (wdb w'))" using assms(7) r(3) by simp
  obtain ident w'' where "check_identity p (initial p) w' = (Inr ident, w'')" "id_leaked ident = 0" "id_remaining ident = n"
    using check_identity_calm [OF r(2) assms(6) n(2) o, of "initial p"] z by auto
  then show ?thesis using r unfolding ledger_done_def by blast
qed

text \<open>The crash above, reconciled after its window: the two items are back and nothing leaks.\<close>

theorem reconcile_closes_leak_witness:
  "\<exists>rep w' ident w''. reconcile_once [[ledger_key ''r1'']] 60 2000 (\<lambda>_. None) crashed_world = ((rep, None), w')
     \<and> check_identity 1 3 w' = (Inr ident, w'') \<and> id_leaked ident = 0 \<and> id_remaining ident = 3"
proof -
  let ?init = "\<lambda>p::int. if p = 1 then 3 else (0::int)"
  have acc: "accounted ?init crashed_world"
    by (rule ledger_reachable [OF crashed_reachable warm_world_accounted])
  have calm: "calm crashed_world" by (simp add: crashed_world_eq calm_def warm_world_facts(3))
  have ent: "ledger_entry (wredis crashed_world) rid = (if rid = ''r1'' then Some demo_entry else None)" for rid
    using warm_world_facts(2) [of rid]
    by (simp add: crashed_world_eq ledger_entry_def decode_encode entry_ok_def demo_entry_def fits_int64_def)
  have ok: "ledger_ok (wredis crashed_world)" using acc by (simp add: accounted_def)
  have rids: "set (concat [[ledger_key ''r1'']]) = ledger_key ` ledger_rids (wredis crashed_world)"
  proof -
    have "ledger_rids (wredis crashed_world) = {''r1''}"
      using ledger_rids_iff [OF ok] ent by (auto split: if_splits)
    then show ?thesis by simp
  qed
  have st: "\<forall>rid e. ledger_entry (wredis crashed_world) rid = Some e \<longrightarrow> settleable ?init 60 2000 crashed_world e"
    using ent by (simp add: settleable_def demo_entry_def crashed_world_eq warm_world_facts(4) demo_db_def
        ordered_quantity_def fits_int64_def)
  have lk: "rlookup (wredis crashed_world) (ledger_key ''r1'') = Some (RString (encode_entry demo_entry))"
    "rlookup (wredis crashed_world) (stock_key 1) = Some (RString (Num 1))"
    by (simp_all add: crashed_world_eq)
  have dec: "decode_entry (encode_entry demo_entry) = Inr demo_entry"
    by (simp add: decode_encode entry_ok_def demo_entry_def fits_int64_def)
  have fs: "wfaults crashed_world = []" by (simp add: crashed_world_eq warm_world_facts(3))
  obtain rep err w' where run: "reconcile_once [[ledger_key ''r1'']] 60 2000 (\<lambda>_. None) crashed_world = ((rep, err), w')"
    by (metis surj_pair)
  have "counter (wredis w') (stock_key 1) = Some 3"
    using run fs lk dec
    by (auto simp: reconcile_once_def go_simps redis_get_def reconcile_entry_def settle_entry_def settle_script_def
        lua_state_encode incrby_def query_def count_by_request_def crashed_world_eq warm_world_facts demo_db_def
        demo_entry_def ledger_pending_def fits_int64_def split: prod.splits)
  moreover have "fits_int64 (ordered_quantity 1 (wdb crashed_world))"
    by (simp add: crashed_world_eq warm_world_facts(4) demo_db_def ordered_quantity_def fits_int64_def)
  ultimately show ?thesis using reconcile_closes_leak [OF acc calm rids st run] run by fastforce
qed

lemma reconcile_list_done:
  assumes "reconcile_list window now ctx i es rp w = (x, w')" "\<forall>e \<in> set es. e_state e \<noteq> ledger_pending"
  shows "w' = w"
  using assms
  by (induction window now ctx i es rp w arbitrary: x w' rule: reconcile_list.induct)
    (auto simp: reconcile_entry_def split: option.splits)

text \<open>
  running the job again changes nothing. When every entry of the ledger has its verdict, a
  round of the job over any scan and under any schedule of failing calls leaves both stores as
  they were.
\<close>

theorem reconcile_idempotent:
  assumes "ledger_ok (wredis w)" "\<forall>rid \<in> ledger_rids (wredis w). ledger_done (wredis w) rid"
    and "\<forall>k \<in> set (concat pages). \<exists>rid. k = ledger_key rid"
    and "reconcile_once pages window now ctx w = (x, w')"
  shows "wredis w' = wredis w \<and> wdb w' = wdb w"
proof -
  obtain y w1 where sc: "scan_ledger pages [] w = (y, w1)" by fastforce
  note sl = scan_ledger_cases [OF sc assms(1,3)]
  show ?thesis
  proof (cases y)
    case (Inl e)
    then show ?thesis using assms(4) sc sl by (simp add: reconcile_once_def)
  next
    case (Inr es)
    have "e_state e \<noteq> ledger_pending" if "e \<in> set es" for e
      using sl Inr that assms(2) ledger_rids_iff [OF assms(1), of "e_request e"]
      by (auto simp: scanned_def ledger_done_def)
    then have "w' = w1"
      using assms(4) sc Inr reconcile_list_done [of window now ctx 0 es empty_report w1 x w']
      by (simp add: reconcile_once_def)
    then show ?thesis using sl by simp
  qed
qed

definition settled_world :: world where
  "settled_world = warm_world\<lparr>wredis := rset (ledger_key ''r1'')
     (RString (encode_entry (demo_entry\<lparr>e_state := ledger_reconciled\<rparr>))) (wredis warm_world),
     wfaults := [NoFault, Lost NetDeadline]\<rparr>"

theorem reconcile_idempotent_witness:
  "wredis (snd (reconcile_once [[ledger_key ''r1'']] 60 2000 (\<lambda>_. None) settled_world)) = wredis settled_world"
proof -
  let ?e = "demo_entry\<lparr>e_state := ledger_reconciled\<rparr>"
  have eo: "entry_ok ?e" by (simp add: entry_ok_def demo_entry_def fits_int64_def)
  have n: "\<forall>rid. rlookup (wredis warm_world) (ledger_key rid) = None" by (simp add: warm_world_facts)
  have l0: "ledger_ok (wredis warm_world)" "ledger_rids (wredis warm_world) = {}"
    using ledger_rids_empty [OF n] by auto
  have lw: "\<forall>rid'. rlookup (wredis settled_world) (ledger_key rid') = (if rid' = ''r1''
      then Some (RString (encode_entry ?e)) else rlookup (wredis warm_world) (ledger_key rid'))"
    by (simp add: settled_world_def)
  have er: "e_request ?e = ''r1''" by (simp add: demo_entry_def)
  note l = ledger_write [OF l0(1) eo er lw]
  have dn: "\<forall>rid \<in> ledger_rids (wredis settled_world). ledger_done (wredis settled_world) rid"
    using l(2,3) l0(2) by (simp add: ledger_done_def ledger_pending_def ledger_reconciled_def)
  obtain x w' where run: "reconcile_once [[ledger_key ''r1'']] 60 2000 (\<lambda>_. None) settled_world = (x, w')"
    by fastforce
  from reconcile_idempotent [OF l(1) dn _ run] run show ?thesis by simp
qed

text \<open>
  what a crash leaks. On the path without a ledger, with answered calls and a crash budget, a
  call for available stock ends in the simulated crash having taken the quantity from the gate
  and nothing else: no message, no database write, and the identity check reports a leak larger
  by exactly the quantity (in 64 bits).
\<close>

theorem crash_leaks_quantity:
  assumes "calm w" "counter (wredis w) (stock_key (r_product req)) = Some n" "fits_int64 n" "0 \<le> n"
    and "0 < r_quantity req" "r_quantity req \<le> n" "0 < c" "fits_int64 (ordered_quantity (r_product req) (wdb w))"
  shows "\<exists>w' i0 i1 v0 v1. enqueue_with_crash produce req (Some c) w = (Some SimulatedCrash, Some (c - 1), w')
    \<and> wdb w' = wdb w \<and> wlog w' = wlog w
    \<and> check_identity (r_product req) initial w = (Inr i0, v0)
    \<and> check_identity (r_product req) initial w' = (Inr i1, v1)
    \<and> id_leaked i1 = to_int64 (id_leaked i0 + r_quantity req)"
proof -
  let ?p = "r_product req" and ?q = "r_quantity req"
  obtain x w' where pd: "pre_deduct ?p ?q w = (x, w')" by fastforce
  have "fits_int64 (n - ?q)" using assms(3-6) by (simp add: fits_int64_def)
  with redis_gate.take_enough [OF assms(2,6)] have script: "fst (pre_deduct_script (stock_key ?p) ?q (wredis w)) = Inr (n - ?q)"
    "counter (snd (pre_deduct_script (stock_key ?p) ?q (wredis w))) (stock_key ?p) = Some (n - ?q)" by auto
  obtain y where y: "on_redis (pre_deduct_script (stock_key ?p) ?q) w = (y, w')"
    and xy: "x = (case y of Inl e \<Rightarrow> Inl e | Inr n \<Rightarrow> if n = -1 then Inl OrderInsufficientStock else Inr n)"
    using pd by (auto simp: pre_deduct_def split: prod.splits sum.splits if_splits)
  have y1: "y = Inr (n - ?q)" "calm w'" "counter (wredis w') (stock_key ?p) = Some (n - ?q)"
    using on_redis_calm [OF y assms(1)] script by auto
  have fr: "wdb w' = wdb w" "wlog w' = wlog w" using on_redis_cases [OF y] by auto
  have run: "enqueue_with_crash produce req (Some c) w = (Some SimulatedCrash, Some (c - 1), w')"
    using pd xy y1(1) assms(6,7) by (simp add: enqueue_with_crash_def)
  obtain v0 where "check_identity ?p initial w = (Inr \<lparr>id_initial = initial, id_remaining = n,
      id_deducted = to_int64 (initial - n), id_ordered = ordered_quantity ?p (wdb w),
      id_leaked = to_int64 (initial - n - ordered_quantity ?p (wdb w))\<rparr>, v0)"
    using check_identity_calm [OF assms(1-3,8)] by blast
  moreover obtain v1 where "check_identity ?p initial w' = (Inr \<lparr>id_initial = initial, id_remaining = n - ?q,
      id_deducted = to_int64 (initial - (n - ?q)), id_ordered = ordered_quantity ?p (wdb w'),
      id_leaked = to_int64 (initial - (n - ?q) - ordered_quantity ?p (wdb w'))\<rparr>, v1)"
    using check_identity_calm [OF y1(2,3) \<open>fits_int64 (n - ?q)\<close>] assms(8) fr(1) by metis
  moreover have "to_int64 (initial - (n - ?q) - ordered_quantity ?p (wdb w))
      = to_int64 (initial - n - ordered_quantity ?p (wdb w) + ?q)"
    by (simp add: algebra_simps)
  ultimately show ?thesis using run fr by (intro exI conjI) (assumption | simp)+
qed

theorem crash_leaks_quantity_witness:
  "\<exists>w' i1 v1. enqueue_with_crash (produce_sync (order_record order_created_topic demo_req 1000)) demo_req (Some 1)
       warm_world = (Some SimulatedCrash, Some 0, w')
     \<and> check_identity 1 3 w' = (Inr i1, v1) \<and> id_leaked i1 = 2"
proof -
  have c: "calm warm_world" by (simp add: calm_def warm_world_facts)
  have k: "counter (wredis warm_world) (stock_key (r_product demo_req)) = Some 3"
    by (simp add: warm_world_facts demo_req_def)
  from crash_leaks_quantity [OF c k, of 1 "produce_sync (order_record order_created_topic demo_req 1000)" 3]
  obtain w' i0 i1 v0 v1 where r: "enqueue_with_crash (produce_sync (order_record order_created_topic demo_req 1000))
       demo_req (Some 1) warm_world = (Some SimulatedCrash, Some 0, w')"
    "check_identity 1 3 warm_world = (Inr i0, v0)" "check_identity 1 3 w' = (Inr i1, v1)"
    "id_leaked i1 = to_int64 (id_leaked i0 + 2)"
    by (auto simp: demo_req_def fits_int64_def warm_world_facts demo_db_def ordered_quantity_def)
  moreover have "id_leaked i0 = 0"
  proof -
    have "counter (wredis warm_world) (stock_key 1) = Some 3" "fits_int64 3"
      by (simp_all add: warm_world_facts fits_int64_def)
    from check_identity_calm [OF c this, of 3] r(2) show ?thesis
      by (auto simp: ordered_quantity_def warm_world_facts demo_db_def fits_int64_def to_int64_id)
  qed
  ultimately show ?thesis by (auto simp: to_int64_id fits_int64_def)
qed

lemma warm_keys:
  "rlookup (wredis warm_world) k = (if k = stock_key 1 then Some (RString (Num 3)) else None)"
  by (simp add: rlookup_def warm_world_def)

lemma warm_parts: "wlog warm_world = []" "wdb warm_world = demo_db" "wfaults warm_world = []"
  by (simp_all add: warm_world_def demo_world_def)

lemmas ledger_eval = enqueue_with_ledger_def record_pre_deduct_def go_simps redis_setnx_def
  pre_deduct_def pre_deduct_script_def decrby_def incrby_def produce_sync_def warm_keys warm_parts
  reconcile_once_def redis_get_def reconcile_entry_def settle_entry_def settle_script_def lua_state_encode
  decode_encode entry_ok_def check_identity_def check_ordered_def to_int64_id Let_def get_int64_def fits_int64_def
  ordered_quantity_def count_by_request_def query_def exec_def empty_report_def place_record_def
  request_roundtrip place_order_tx_def tx_locked_def tx_write_def select_stock_def select_by_request_def
  insert_order_def row_error_def utf8_length_def fits_int32_def update_sub_def set_stock_def counter_Some_iff

text \<open>
  the window is the whole protection against a late message. An accepted order whose message is
  delivered only after the job has refunded it is still stored: two items are sold and the gate
  offers all three again, so the identity check reports \<open>-2\<close>.
\<close>

theorem late_message_after_refund:
  "\<exists>w1 rep w2 ord w3 ident w4.
     enqueue_with_ledger 1000 (produce_sync (order_record order_created_topic demo_req 1000)) demo_req None
       warm_world = (None, None, w1)
   \<and> reconcile_once [[ledger_key ''r1'']] 60 2000 (\<lambda>_. None) w1 = ((rep, None), w2) \<and> rep_refunded rep = 1
   \<and> place_record (Inr 9) (demo_record ''r1'' 0) w2 = (Inr ord, w3)
   \<and> check_identity 1 3 w3 = (Inr ident, w4) \<and> id_leaked ident = -2"
  by (simp add: ledger_eval demo_record_def demo_req_def ledger_pending_def ledger_reconciled_def demo_db_def
      new_order_def next_fault_def)

text \<open>
  a request id used twice leaks what its second call took. Both calls deduct and are accepted,
  the ledger has one entry (\<open>SetNX\<close>), the second delivery is a replay of the first order, and the
  job settles the entry: nothing accounts for the second item, and no later round will.
\<close>

theorem reused_request_leaks:
  "\<exists>w1 w2 o1 w3 o2 w4 rep w5 ident w6.
     enqueue_with_ledger 1000 (produce_sync (order_record order_created_topic (buy_one ''r1'') 1000)) (buy_one ''r1'')
       None warm_world = (None, None, w1)
   \<and> enqueue_with_ledger 1001 (produce_sync (order_record order_created_topic (buy_one ''r1'') 1001)) (buy_one ''r1'')
       None w1 = (None, None, w2)
   \<and> place_record (Inr 8) (demo_record ''r1'' 0\<lparr>k_value := encode_order_created (buy_one ''r1'') 1000\<rparr>) w2 = (Inr o1, w3)
   \<and> place_record (Inr 9) (demo_record ''r1'' 1\<lparr>k_value := encode_order_created (buy_one ''r1'') 1001\<rparr>) w3 = (Inr o2, w4)
   \<and> o_id o1 = o_id o2
   \<and> reconcile_once [[ledger_key ''r1'']] 60 2000 (\<lambda>_. None) w4 = ((rep, None), w5) \<and> rep_settled rep = 1
   \<and> check_identity 1 3 w5 = (Inr ident, w6) \<and> id_leaked ident = 1"
  by (simp add: ledger_eval demo_record_def buy_one_def ledger_pending_def ledger_reconciled_def demo_db_def
      new_order_def next_fault_def)

text \<open>
  the four failures an accepting call does not survive, on one call for two of three items, each followed by a round of
  the job: a deduction without an answer, a lost record and a lost rollback leak the quantity for good; a lost settling after a
  rollback leaves the entry pending, so the job gives back a second time what the rollback gave back.
\<close>

lemmas failing_eval = ledger_eval rollback_pre_deduct_def rollback_script_def on_redis_def next_fault_def demo_req_def demo_db_def
  ledger_pending_def ledger_reconciled_def

lemma unanswered_deduction_leaks:
  "\<exists>e w1 rep w2 ident w3. enqueue_with_ledger 1000 (produce_sync (order_record order_created_topic demo_req 1000)) demo_req None
       (warm_world\<lparr>wfaults := [Unacked NetDeadline]\<rparr>) = (Some e, None, w1)
   \<and> reconcile_once [[ledger_key ''r1'']] 60 2000 (\<lambda>_. None) w1 = ((rep, None), w2)
   \<and> check_identity 1 3 w2 = (Inr ident, w3) \<and> id_leaked ident = 2"
  by (simp add: failing_eval)

lemma lost_record_leaks:
  "\<exists>e w1 rep w2 ident w3. enqueue_with_ledger 1000 (produce_sync (order_record order_created_topic demo_req 1000)) demo_req None
       (warm_world\<lparr>wfaults := [NoFault, Lost NetDeadline]\<rparr>) = (Some e, None, w1)
   \<and> reconcile_once [[ledger_key ''r1'']] 60 2000 (\<lambda>_. None) w1 = ((rep, None), w2)
   \<and> check_identity 1 3 w2 = (Inr ident, w3) \<and> id_leaked ident = 2"
  by (simp add: failing_eval)

lemma lost_rollback_leaks:
  "\<exists>e w1 rep w2 ident w3. enqueue_with_ledger 1000 (produce_sync (order_record order_created_topic demo_req 1000)) demo_req None
       (warm_world\<lparr>wfaults := [NoFault, NoFault, Lost NetDeadline, Lost NetDeadline]\<rparr>) = (Some e, None, w1)
   \<and> reconcile_once [[ledger_key ''r1'']] 60 2000 (\<lambda>_. None) w1 = ((rep, None), w2)
   \<and> check_identity 1 3 w2 = (Inr ident, w3) \<and> id_leaked ident = 2"
  by (simp add: failing_eval)

lemma lost_settling_refunds_twice:
  "\<exists>e w1 rep w2 ident w3. enqueue_with_ledger 1000 (produce_sync (order_record order_created_topic demo_req 1000)) demo_req None
       (warm_world\<lparr>wfaults := [NoFault, NoFault, Lost NetDeadline, NoFault, Lost NetDeadline]\<rparr>) = (Some e, None, w1)
   \<and> reconcile_once [[ledger_key ''r1'']] 60 2000 (\<lambda>_. None) w1 = ((rep, None), w2) \<and> rep_refunded rep = 1
   \<and> check_identity 1 3 w2 = (Inr ident, w3) \<and> id_leaked ident = -2"
  by (simp add: failing_eval)

end
