(* ===== verification/Inventory.thy ===== *)
theory Inventory
  imports Prededuct
begin

text \<open>
  Package \<open>inventory\<close> (\<open>internal/inventory/reservation.go\<close>) behind the RPC boundary: a reservation
  is a hash per request beside the stock key, written by the same Lua step that deducts, so a
  request can be retried. The script's reply is a list, as Redis returns it; a reply that is too
  short makes the service index out of range.
\<close>

section \<open>Requests and replies (ports/services.go)\<close>

record reservation_req =
  rq_request :: string
  rq_product :: int
  rq_quantity :: int

record reservation =
  rs_request :: string
  rs_product :: int
  rs_quantity :: int
  rs_remaining :: int
  rs_already :: bool

definition reservation_key :: "string \<Rightarrow> string" where
  "reservation_key rid = ''seckill:reservation:'' @ rid"

lemma reservation_key_neq [simp]:
  "reservation_key rid \<noteq> stock_key p" "stock_key p \<noteq> reservation_key rid"
  "reservation_key rid = reservation_key rid' \<longleftrightarrow> rid = rid'"
  by (simp_all add: reservation_key_def stock_key_def)

section \<open>The scripts\<close>

text \<open>\<open>HGET\<close> and \<open>HSET\<close>; on a key of another type they are errors.\<close>

definition hget :: "string \<Rightarrow> string \<Rightarrow> redis \<Rightarrow> go_error + payload option" where
  "hget k f r = (case rlookup r k of
       None \<Rightarrow> Inr None | Some (RHash h) \<Rightarrow> Inr (h f) | Some _ \<Rightarrow> Inl ScriptError)"

definition hset :: "string \<Rightarrow> (string \<times> payload) list \<Rightarrow> redis \<Rightarrow> redis" where
  "hset k fvs r = rmodify k (RHash (foldl (\<lambda>h (f, v). h(f \<mapsto> v))
     (case rlookup r k of Some (RHash h) \<Rightarrow> h | _ \<Rightarrow> Map.empty) fvs)) r"

text \<open>The deducting part, reached by a new request and by one that was restored.\<close>

definition reserve_deduct :: "string \<Rightarrow> string \<Rightarrow> int \<Rightarrow> int \<Rightarrow> redis \<Rightarrow> (go_error + int list) \<times> redis" where
  "reserve_deduct sk rk p q r = (case rlookup r sk of
       None \<Rightarrow> (Inr [-1, 0], r)
     | Some (RString (Num stock)) \<Rightarrow>
         (if stock < q then (Inr [-1, stock], r)
          else (case decrby sk q r of
              (Inl e, r1) \<Rightarrow> (Inl e, r1)
            | (Inr remaining, r1) \<Rightarrow>
                (Inr [0, remaining], hset rk [(''state'', Text ''reserved''), (''product_id'', Num p),
                   (''quantity'', Num q)] r1)))
     | Some _ \<Rightarrow> (Inl ScriptError, r))"

text \<open>A stock that is no number makes \<open>tonumber\<close> answer nil, which ends the reply table early.\<close>

definition reserve_script :: "string \<Rightarrow> string \<Rightarrow> int \<Rightarrow> int \<Rightarrow> redis \<Rightarrow> (go_error + int list) \<times> redis" where
  "reserve_script sk rk p q r = (case hget rk ''state'' r of
       Inl e \<Rightarrow> (Inl e, r)
     | Inr None \<Rightarrow> reserve_deduct sk rk p q r
     | Inr (Some st) \<Rightarrow>
         (if hget rk ''product_id'' r \<noteq> Inr (Some (Num p)) \<or> hget rk ''quantity'' r \<noteq> Inr (Some (Num q))
          then (Inr [-2, 0], r)
          else if st = Text ''reserved'' then
            (case rlookup r sk of
               None \<Rightarrow> (Inr [1, 0], r)
             | Some (RString (Num n)) \<Rightarrow> (Inr [1, n], r)
             | Some (RString _) \<Rightarrow> (Inr [1], r)
             | Some _ \<Rightarrow> (Inl ScriptError, r))
          else reserve_deduct sk rk p q r))"

definition restore_script :: "string \<Rightarrow> string \<Rightarrow> int \<Rightarrow> int \<Rightarrow> redis \<Rightarrow> (go_error + int) \<times> redis" where
  "restore_script sk rk p q r = (case hget rk ''state'' r of
       Inl e \<Rightarrow> (Inl e, r)
     | Inr None \<Rightarrow> (Inr (-1), r)
     | Inr (Some st) \<Rightarrow>
         (if hget rk ''product_id'' r \<noteq> Inr (Some (Num p)) \<or> hget rk ''quantity'' r \<noteq> Inr (Some (Num q))
          then (Inr (-2), r)
          else if st = Text ''restored'' then (Inr 0, r)
          else (case incrby sk q r of
              (Inl e, r1) \<Rightarrow> (Inl e, r1)
            | (Inr _, r1) \<Rightarrow> (Inr 1, hset rk [(''state'', Text ''restored'')] r1))))"

section \<open>The service\<close>

definition reserve :: "reservation_req \<Rightarrow> world \<Rightarrow> (go_error + reservation) go \<times> world" where
  "reserve req w =
     (if rq_request req = '''' \<or> rq_product req \<le> 0 \<or> rq_quantity req \<le> 0
      then (Ret (Inl PortsInvalidQuantity), w)
      else (case on_redis (reserve_script (stock_key (rq_product req)) (reservation_key (rq_request req))
                  (rq_product req) (rq_quantity req)) w of
          (Inl e, w') \<Rightarrow> (Ret (Inl e), w')
        | (Inr reply, w') \<Rightarrow>
            (case reply of
               code # remaining # _ \<Rightarrow>
                 (if code = -2 then (Ret (Inl PortsReservationConflict), w')
                  else if code = -1 then (Ret (Inl PortsInsufficientStock), w')
                  else if code = 0 \<or> code = 1 then
                    (Ret (Inr \<lparr>rs_request = rq_request req, rs_product = rq_product req,
                       rs_quantity = rq_quantity req, rs_remaining = remaining, rs_already = (code = 1)\<rparr>), w')
                  else (Ret (Inl (Opaque ''inventory: unknown reserve code'')), w'))
             | _ \<Rightarrow> (Panic, w'))))"

definition restore :: "reservation_req \<Rightarrow> world \<Rightarrow> (go_error + unit) \<times> world" where
  "restore req w =
     (case on_redis (restore_script (stock_key (rq_product req)) (reservation_key (rq_request req))
                  (rq_product req) (rq_quantity req)) w of
        (Inl e, w') \<Rightarrow> (Inl e, w')
      | (Inr code, w') \<Rightarrow>
          (if code = -2 then (Inl PortsReservationConflict, w')
           else if code = -1 then (Inl PortsReservationNotFound, w')
           else if code = 0 \<or> code = 1 then (Inr (), w')
           else (Inl (Opaque ''inventory: unknown restore code''), w')))"

text \<open>\<open>GetProduct\<close> over the injected \<open>ProductReader\<close>: only its own miss is renamed.\<close>

definition inventory_get_product :: "(int \<Rightarrow> world \<Rightarrow> (go_error + 'p) \<times> world) \<Rightarrow> int \<Rightarrow> world
    \<Rightarrow> (go_error + 'p) \<times> world" where
  "inventory_get_product reader i w = (case reader i w of
       (Inl e, w') \<Rightarrow> (Inl (if errors_is e CacheProductNotFound then PortsCachedProductMiss else e), w')
     | (Inr p, w') \<Rightarrow> (Inr p, w'))"

section \<open>What the scripts do\<close>

text \<open>\<open>held st p q r\<close>: the reservation hash of \<open>rk\<close> has this state, product and quantity.\<close>

definition held :: "string \<Rightarrow> string \<Rightarrow> int \<Rightarrow> int \<Rightarrow> redis \<Rightarrow> bool" where
  "held rk st p q r \<longleftrightarrow> hget rk ''state'' r = Inr (Some (Text st))
     \<and> hget rk ''product_id'' r = Inr (Some (Num p)) \<and> hget rk ''quantity'' r = Inr (Some (Num q))"

lemma hget_other: "k' \<noteq> k \<Longrightarrow> rlookup r' k' = rlookup r k' \<Longrightarrow> hget k' f r' = hget k' f r"
  by (simp add: hget_def)

lemma reserve_held:
  "held rk ''reserved'' p q r \<Longrightarrow> snd (reserve_script sk rk p q r) = r"
  by (auto simp: held_def reserve_script_def split: option.splits rvalue.splits payload.splits)

lemma reserve_deduct_cases:
  assumes "reserve_deduct sk rk p q r = (x, r')" "rk \<noteq> sk" "\<exists>v. hget rk ''state'' r = Inr v"
  shows "r' = r \<and> (\<forall>rest. x \<noteq> Inr (0 # rest)) \<or>
    (\<exists>n. counter r sk = Some n \<and> q \<le> n \<and> x = Inr [0, n - q] \<and> counter r' sk = Some (n - q)
       \<and> held rk ''reserved'' p q r' \<and> (\<forall>k. k \<noteq> sk \<longrightarrow> k \<noteq> rk \<longrightarrow> rlookup r' k = rlookup r k))"
proof (cases "\<exists>n. counter r sk = Some n \<and> q \<le> n \<and> fits_int64 (n - q)")
  case False
  then show ?thesis
    using assms(1)
    by (auto simp: reserve_deduct_def decrby_def incrby_def counter_def
        split: option.splits rvalue.splits payload.splits if_splits)
next
  case True
  then obtain n where n: "counter r sk = Some n" "q \<le> n" "fits_int64 (n - q)" by blast
  let ?r1 = "rmodify sk (RString (Num (n - q))) r"
  have lk: "rlookup r sk = Some (RString (Num n))" using n(1) by (simp add: counter_Some_iff)
  have "decrby sk q r = (Inr (n - q), ?r1)" using incrby_counter [OF n(1), of "- q"] n(3) by (simp add: decrby_def)
  then have x: "x = Inr [0, n - q]"
    "r' = hset rk [(''state'', Text ''reserved''), (''product_id'', Num p), (''quantity'', Num q)] ?r1"
    using assms(1) lk n(2) by (simp_all add: reserve_deduct_def)
  then show ?thesis
    using n assms(2) by (intro disjI2 exI [of _ n]) (simp add: hset_def held_def hget_def)
qed

lemma reserve_script_cases:
  assumes "reserve_script sk rk p q r = (x, r')" "rk \<noteq> sk"
  shows "r' = r \<and> (\<forall>rest. x \<noteq> Inr (0 # rest)) \<or>
    (\<exists>n. counter r sk = Some n \<and> q \<le> n \<and> x = Inr [0, n - q] \<and> counter r' sk = Some (n - q)
       \<and> held rk ''reserved'' p q r' \<and> \<not> held rk ''reserved'' p q r
       \<and> (\<forall>k. k \<noteq> sk \<longrightarrow> k \<noteq> rk \<longrightarrow> rlookup r' k = rlookup r k))"
proof (cases "held rk ''reserved'' p q r")
  case True
  then have "r' = r" using reserve_held [OF True, of sk] assms(1) by simp
  moreover have "\<forall>rest. x \<noteq> Inr (0 # rest)"
    using True assms(1) by (auto simp: held_def reserve_script_def split: option.splits rvalue.splits payload.splits)
  ultimately show ?thesis by blast
next
  case False
  consider "reserve_deduct sk rk p q r = (x, r')" "\<exists>v. hget rk ''state'' r = Inr v"
    | "r' = r" "\<forall>rest. x \<noteq> Inr (0 # rest)"
    using assms(1) False
    by (auto simp: reserve_script_def held_def split: sum.splits option.splits if_splits)
  then show ?thesis
  proof cases
    case 1
    from reserve_deduct_cases [OF 1(1) assms(2) 1(2)] False show ?thesis by blast
  qed blast
qed

section \<open>Retrying\<close>

text \<open>A client that calls the same operation \<open>m\<close> times, with all its answers.\<close>

fun retries :: "nat \<Rightarrow> (world \<Rightarrow> 'a \<times> world) \<Rightarrow> world \<Rightarrow> 'a list \<times> world" where
  "retries 0 f w = ([], w)"
| "retries (Suc m) f w = (case f w of (a, w1) \<Rightarrow> (case retries m f w1 of (as, w2) \<Rightarrow> (a # as, w2)))"

text \<open>
  An operation that is one script: if the script changes nothing where it has once been executed,
  any number of calls under any schedule of faults executes it at most once.
\<close>

lemma retries_once:
  assumes "\<And>w x w'. f w = (x, w') \<Longrightarrow> wdb w' = wdb w \<and> (wredis w' = wredis w \<or> wredis w' = step (wredis w))"
    and "\<And>w x w'. f w = (x, w') \<Longrightarrow> ok x \<Longrightarrow> wredis w' = step (wredis w) \<and> P (wredis w')"
    and "step (step r) = step r" "wredis w = r \<or> wredis w = step r"
    and "retries m f w = (as, w')"
  shows "wdb w' = wdb w \<and> (wredis w' = wredis w \<or> wredis w' = step r) \<and> ((\<exists>a \<in> set as. ok a) \<longrightarrow> wredis w' = step r \<and> P (step r))"
  using assms(4,5)
proof (induction m arbitrary: w as w')
  case (Suc m)
  obtain a w1 where a: "f w = (a, w1)" by fastforce
  obtain as' where as: "retries m f w1 = (as', w')" "as = a # as'"
    using Suc.prems(2) a by (auto split: prod.splits)
  note f1 = assms(1) [OF a] and f2 = assms(2) [OF a]
  have "wredis w1 = r \<or> wredis w1 = step r" using f1 Suc.prems(1) assms(3) by auto
  from Suc.IH [OF this as(1)] f1 f2 Suc.prems(1) assms(3) as(2) show ?case by auto
qed simp

definition reserve_step :: "reservation_req \<Rightarrow> redis \<Rightarrow> redis" where
  "reserve_step req r = snd (reserve_script (stock_key (rq_product req)) (reservation_key (rq_request req))
     (rq_product req) (rq_quantity req) r)"

definition restore_step :: "reservation_req \<Rightarrow> redis \<Rightarrow> redis" where
  "restore_step req r = snd (restore_script (stock_key (rq_product req)) (reservation_key (rq_request req))
     (rq_product req) (rq_quantity req) r)"

lemma reserve_effect:
  assumes "reserve req w = (x, w')"
  shows "wdb w' = wdb w \<and> (wredis w' = wredis w \<or> wredis w' = reserve_step req (wredis w))"
    "\<exists>res. x = Ret (Inr res) \<Longrightarrow> wredis w' = reserve_step req (wredis w)
       \<and> held (reservation_key (rq_request req)) ''reserved'' (rq_product req) (rq_quantity req) (wredis w')"
proof -
  let ?rk = "reservation_key (rq_request req)" and ?sk = "stock_key (rq_product req)"
  let ?c = "reserve_script ?sk ?rk (rq_product req) (rq_quantity req)"
  show "wdb w' = wdb w \<and> (wredis w' = wredis w \<or> wredis w' = reserve_step req (wredis w))"
    using assms
    by (auto simp: reserve_def reserve_step_def split: if_splits prod.splits sum.splits list.splits dest!: on_redis_cases)
  assume "\<exists>res. x = Ret (Inr res)"
  then obtain code rest where run: "on_redis ?c w = (Inr (code # rest), w')" and c: "code = 0 \<or> code = 1"
    using assms by (auto simp: reserve_def split: if_splits prod.splits sum.splits list.splits)
  have e: "?c (wredis w) = (Inr (code # rest), wredis w')" using on_redis_Inr [OF run] by simp
  have "held ?rk ''reserved'' (rq_product req) (rq_quantity req) (wredis w')"
  proof (cases "code = 0")
    case True
    with reserve_script_cases [OF e] show ?thesis by auto
  next
    case False
    then have "reserve_deduct ?sk ?rk (rq_product req) (rq_quantity req) (wredis w) \<noteq> (Inr (code # rest), wredis w')"
      using c by (auto simp: reserve_deduct_def split: option.splits rvalue.splits payload.splits if_splits sum.splits prod.splits)
    then show ?thesis
      using e c by (auto simp: reserve_script_def held_def
          split: sum.splits option.splits if_splits rvalue.splits payload.splits)
  qed
  then show "wredis w' = reserve_step req (wredis w)
      \<and> held ?rk ''reserved'' (rq_product req) (rq_quantity req) (wredis w')"
    using e by (simp add: reserve_step_def)
qed

lemma reserve_step_idem: "reserve_step req (reserve_step req r) = reserve_step req r"
proof -
  let ?sk = "stock_key (rq_product req)" and ?rk = "reservation_key (rq_request req)"
  obtain x r1 where run: "reserve_script ?sk ?rk (rq_product req) (rq_quantity req) r = (x, r1)" by fastforce
  from reserve_script_cases [OF run] reserve_held [of ?rk "rq_product req" "rq_quantity req" r1 ?sk] run
  show ?thesis by (auto simp: reserve_step_def)
qed

lemma restore_script_cases:
  assumes "restore_script sk rk p q r = (x, r')" "rk \<noteq> sk"
  shows "r' = r \<and> x \<noteq> Inr 1 \<or>
    (\<exists>m. x = Inr 1 \<and> m = (case counter r sk of Some n \<Rightarrow> n | None \<Rightarrow> 0) + q \<and> counter r' sk = Some m
       \<and> held rk ''restored'' p q r' \<and> \<not> held rk ''restored'' p q r)"
proof (cases "\<exists>st. hget rk ''state'' r = Inr (Some st) \<and> st \<noteq> Text ''restored''
    \<and> hget rk ''product_id'' r = Inr (Some (Num p)) \<and> hget rk ''quantity'' r = Inr (Some (Num q))")
  case False
  then show ?thesis
    using assms(1) by (auto simp: restore_script_def split: sum.splits option.splits if_splits)
next
  case True
  then obtain st where st: "hget rk ''state'' r = Inr (Some st)" "st \<noteq> Text ''restored''"
    "hget rk ''product_id'' r = Inr (Some (Num p))" "hget rk ''quantity'' r = Inr (Some (Num q))" by blast
  obtain y r1 where i: "incrby sk q r = (y, r1)" by fastforce
  show ?thesis
  proof (cases y)
    case (Inl e)
    then have "r' = r1" "x = Inl e" using assms(1) st i by (auto simp: restore_script_def)
    then show ?thesis using i Inl by (auto simp: incrby_def split: option.splits rvalue.splits payload.splits if_splits)
  next
    case (Inr m)
    have m: "m = (case counter r sk of Some n \<Rightarrow> n | None \<Rightarrow> 0) + q" "counter r1 sk = Some m"
      and fr: "\<And>k. k \<noteq> sk \<Longrightarrow> rlookup r1 k = rlookup r k"
      using i Inr counter_def [of r sk] incrby_other [of _ sk q r]
      by (auto simp: incrby_def split: option.splits rvalue.splits payload.splits if_splits)
    have r': "r' = hset rk [(''state'', Text ''restored'')] r1" "x = Inr 1"
      using assms(1) st i Inr by (auto simp: restore_script_def)
    obtain h where h: "rlookup r rk = Some (RHash h)" "h ''product_id'' = Some (Num p)" "h ''quantity'' = Some (Num q)"
      using st by (auto simp: hget_def split: option.splits rvalue.splits)
    have "held rk ''restored'' p q r'"
      using h fr [OF assms(2)] by (simp add: r' held_def hget_def hset_def)
    moreover have "counter r' sk = Some m" using m(2) assms(2) by (simp add: r' hset_def)
    ultimately show ?thesis using r'(2) m(1) st by (auto simp: held_def)
  qed
qed

lemma restore_Inr:
  assumes "restore req w = (Inr (), w')"
  shows "\<exists>code. (code = 0 \<or> code = 1) \<and> restore_script (stock_key (rq_product req))
     (reservation_key (rq_request req)) (rq_product req) (rq_quantity req) (wredis w) = (Inr code, wredis w')"
proof -
  let ?c = "restore_script (stock_key (rq_product req)) (reservation_key (rq_request req)) (rq_product req) (rq_quantity req)"
  obtain y w1 where y: "on_redis ?c w = (y, w1)" by fastforce
  then obtain code where "y = Inr code" "w1 = w'" "code = 0 \<or> code = 1"
    using assms by (auto simp: restore_def split: if_splits sum.splits)
  with y have "?c (wredis w) = (Inr code, wredis w')" by (auto dest: on_redis_Inr)
  then show ?thesis using \<open>code = 0 \<or> code = 1\<close> by (intro exI [of _ code] conjI)
qed

lemma restore_effect:
  assumes "restore req w = (x, w')"
  shows "wdb w' = wdb w \<and> (wredis w' = wredis w \<or> wredis w' = restore_step req (wredis w))"
    "x = Inr () \<Longrightarrow> wredis w' = restore_step req (wredis w)"
proof -
  let ?c = "restore_script (stock_key (rq_product req)) (reservation_key (rq_request req)) (rq_product req) (rq_quantity req)"
  show "wdb w' = wdb w \<and> (wredis w' = wredis w \<or> wredis w' = restore_step req (wredis w))"
    using assms
    by (auto simp: restore_def restore_step_def split: if_splits prod.splits sum.splits dest!: on_redis_cases)
  assume "x = Inr ()"
  with restore_Inr assms show "wredis w' = restore_step req (wredis w)" by (fastforce simp: restore_step_def)
qed

lemma restore_held: "held rk ''restored'' p q r \<Longrightarrow> snd (restore_script sk rk p q r) = r"
  by (simp add: held_def restore_script_def)

lemma restore_step_idem: "restore_step req (restore_step req r) = restore_step req r"
proof -
  let ?sk = "stock_key (rq_product req)" and ?rk = "reservation_key (rq_request req)"
  obtain x r1 where run: "restore_script ?sk ?rk (rq_product req) (rq_quantity req) r = (x, r1)" by fastforce
  from restore_script_cases [OF run] restore_held [of ?rk "rq_product req" "rq_quantity req" r1 ?sk] run
  show ?thesis by (auto simp: restore_step_def)
qed

section \<open>Properties\<close>

text \<open>
  C3: reserving is safe to retry. A client that calls \<open>Reserve\<close> any number of times for one request,
  under any schedule of calls lost before or after their execution, lowers the stock at most once
  and by exactly the quantity, never below zero; and once any attempt was answered with a
  reservation, it was lowered exactly once (or the reservation was held before) and is held.
\<close>

theorem reserve_retries_deduct_once:
  assumes "retries m (reserve req) w = (as, w')"
    and "counter (wredis w) (stock_key (rq_product req)) = Some n"
    and "\<not> held (reservation_key (rq_request req)) ''reserved'' (rq_product req) (rq_quantity req) (wredis w)"
  shows "wdb w' = wdb w \<and>
    (wredis w' = wredis w \<and> (\<forall>res. Ret (Inr res) \<notin> set as)
     \<or> rq_quantity req \<le> n \<and> counter (wredis w') (stock_key (rq_product req)) = Some (n - rq_quantity req)
       \<and> held (reservation_key (rq_request req)) ''reserved'' (rq_product req) (rq_quantity req) (wredis w'))"
proof -
  let ?rk = "reservation_key (rq_request req)" and ?sk = "stock_key (rq_product req)"
  let ?P = "held ?rk ''reserved'' (rq_product req) (rq_quantity req)"
  have r: "wdb w' = wdb w \<and> (wredis w' = wredis w \<or> wredis w' = reserve_step req (wredis w))
    \<and> ((\<exists>a \<in> set as. \<exists>res. a = Ret (Inr res)) \<longrightarrow> wredis w' = reserve_step req (wredis w) \<and> ?P (reserve_step req (wredis w)))"
  proof (rule retries_once [OF _ _ reserve_step_idem _ assms(1)])
    fix v x v' assume f: "reserve req v = (x, v')"
    show "wdb v' = wdb v \<and> (wredis v' = wredis v \<or> wredis v' = reserve_step req (wredis v))"
      by (rule reserve_effect(1) [OF f])
    show "wredis v' = reserve_step req (wredis v) \<and> ?P (wredis v')" if "\<exists>res. x = Ret (Inr res)"
      by (rule reserve_effect(2) [OF f that])
  qed simp
  obtain x r1 where run: "reserve_script ?sk ?rk (rq_product req) (rq_quantity req) (wredis w) = (x, r1)" by fastforce
  then have "r1 = reserve_step req (wredis w)" by (simp add: reserve_step_def)
  with reserve_script_cases [OF run] r assms(2,3) show ?thesis by auto
qed

text \<open>The first call is executed and its reply is lost; the second finds the reservation.\<close>

definition demo_reservation :: reservation_req where
  "demo_reservation = \<lparr>rq_request = ''r1'', rq_product = 1, rq_quantity = 2\<rparr>"

lemmas reserve_run_simps = reserve_def reserve_script_def reserve_deduct_def hget_def hset_def on_redis_def
  next_fault_def decrby_def incrby_def fits_int64_def restore_def restore_script_def

theorem reserve_retries_deduct_once_witness:
  "\<exists>as w'. retries 2 (reserve demo_reservation) (warm_world\<lparr>wfaults := [Unacked NetDeadline]\<rparr>) = (as, w')
     \<and> counter (wredis w') (stock_key 1) = Some 1"
proof -
  let ?w = "warm_world\<lparr>wfaults := [Unacked NetDeadline]\<rparr>"
  note lk = warm_lookup
  obtain a1 res w' where run: "retries 2 (reserve demo_reservation) ?w = ([a1, Ret (Inr res)], w')"
    by (simp add: numeral_2_eq_2 reserve_run_simps demo_reservation_def lk)
  have "counter (wredis ?w) (stock_key (rq_product demo_reservation)) = Some 3"
    by (simp add: counter_def lk demo_reservation_def)
  from reserve_retries_deduct_once [OF run this] run show ?thesis
    by (auto simp: demo_reservation_def held_def hget_def lk)
qed

text \<open>
  restoring is safe to retry. For a reservation that is held, any number of \<open>Restore\<close> calls under
  any schedule gives the quantity back at most once, and exactly once when any of them was
  answered with success; without a held reservation of this product and quantity no call gives
  anything back.
\<close>

theorem restore_retries_once:
  assumes "retries m (restore req) w = (as, w')"
    and "counter (wredis w) (stock_key (rq_product req)) = Some n"
    and "\<not> held (reservation_key (rq_request req)) ''restored'' (rq_product req) (rq_quantity req) (wredis w)"
  shows "wdb w' = wdb w \<and>
    (wredis w' = wredis w
     \<or> counter (wredis w') (stock_key (rq_product req)) = Some (n + rq_quantity req)
       \<and> held (reservation_key (rq_request req)) ''restored'' (rq_product req) (rq_quantity req) (wredis w'))
    \<and> (Inr () \<in> set as \<longrightarrow> wredis w' \<noteq> wredis w)
    \<and> (hget (reservation_key (rq_request req)) ''state'' (wredis w) = Inr None
        \<or> hget (reservation_key (rq_request req)) ''product_id'' (wredis w) \<noteq> Inr (Some (Num (rq_product req)))
        \<or> hget (reservation_key (rq_request req)) ''quantity'' (wredis w) \<noteq> Inr (Some (Num (rq_quantity req)))
       \<longrightarrow> wredis w' = wredis w)"
proof -
  let ?rk = "reservation_key (rq_request req)" and ?sk = "stock_key (rq_product req)"
  let ?P = "held ?rk ''restored'' (rq_product req) (rq_quantity req)"
  have okP: "wredis w1 = restore_step req (wredis w0) \<and> ?P (wredis w1)"
    if f: "restore req w0 = (Inr (), w1)" for w0 w1
  proof -
    from restore_Inr [OF f] obtain code where c: "code = 0 \<or> code = 1"
      and e: "restore_script ?sk ?rk (rq_product req) (rq_quantity req) (wredis w0) = (Inr code, wredis w1)" by blast
    have "?P (wredis w1)"
    proof (cases "code = 1")
      case True
      with restore_script_cases [OF e] show ?thesis by auto
    next
      case False
      with e c show ?thesis by (auto simp: restore_script_def held_def split: sum.splits option.splits if_splits prod.splits)
    qed
    then show ?thesis using restore_effect(2) [OF f] by simp
  qed
  have r: "wdb w' = wdb w \<and> (wredis w' = wredis w \<or> wredis w' = restore_step req (wredis w))
    \<and> ((\<exists>a \<in> set as. a = Inr ()) \<longrightarrow> wredis w' = restore_step req (wredis w) \<and> ?P (restore_step req (wredis w)))"
  proof (rule retries_once [OF _ _ restore_step_idem _ assms(1)])
    fix v x v' assume f: "restore req v = (x, v')"
    show "wdb v' = wdb v \<and> (wredis v' = wredis v \<or> wredis v' = restore_step req (wredis v))"
      by (rule restore_effect(1) [OF f])
    show "wredis v' = restore_step req (wredis v) \<and> ?P (wredis v')" if "x = Inr ()"
      by (rule okP) (use f that in simp)
  qed simp
  obtain x r1 where run: "restore_script ?sk ?rk (rq_product req) (rq_quantity req) (wredis w) = (x, r1)" by fastforce
  then have r1: "r1 = restore_step req (wredis w)" by (simp add: restore_step_def)
  let ?mis = "hget ?rk ''state'' (wredis w) = Inr None
        \<or> hget ?rk ''product_id'' (wredis w) \<noteq> Inr (Some (Num (rq_product req)))
        \<or> hget ?rk ''quantity'' (wredis w) \<noteq> Inr (Some (Num (rq_quantity req)))"
  have mis: "?mis \<longrightarrow> r1 = wredis w"
    using run by (auto simp: restore_script_def split: sum.splits option.splits if_splits)
  have given: "r1 = wredis w \<or> counter r1 ?sk = Some (n + rq_quantity req) \<and> ?P r1"
    using restore_script_cases [OF run] assms(2) by auto
  from r r1 have w': "wredis w' = wredis w \<or> wredis w' = r1"
    and ok: "Inr () \<in> set as \<Longrightarrow> ?P (wredis w')" by auto
  have "Inr () \<in> set as \<longrightarrow> wredis w' \<noteq> wredis w" using ok assms(3) by auto
  moreover have "wredis w' = wredis w \<or> counter (wredis w') ?sk = Some (n + rq_quantity req) \<and> ?P (wredis w')"
    using w' given by metis
  moreover have "?mis \<longrightarrow> wredis w' = wredis w" using mis w' by metis
  ultimately show ?thesis using r by blast
qed

theorem restore_retries_once_witness:
  "\<exists>as w'. retries 3 (restore demo_reservation)
       (snd (reserve demo_reservation warm_world)\<lparr>wfaults := [Unacked NetDeadline]\<rparr>) = (as, w')
     \<and> counter (wredis w') (stock_key 1) = Some 3"
proof -
  let ?w = "snd (reserve demo_reservation warm_world)\<lparr>wfaults := [Unacked NetDeadline]\<rparr>"
  have lk: "rlookup (wredis warm_world) k = (if k = stock_key 1 then Some (RString (Num 3)) else None)"
    "wfaults warm_world = []" for k
    by (simp_all add: rlookup_def warm_world_def demo_world_def)
  have w: "counter (wredis ?w) (stock_key 1) = Some 1" "hget (reservation_key ''r1'') ''state'' (wredis ?w) = Inr (Some (Text ''reserved''))"
    by (simp_all add: reserve_run_simps demo_reservation_def lk counter_def)
  obtain a as w' where run: "retries 3 (restore demo_reservation) ?w = (a # Inr () # as, w')"
    by (simp add: numeral_3_eq_3 reserve_run_simps demo_reservation_def lk)
  have "counter (wredis ?w) (stock_key (rq_product demo_reservation)) = Some 1"
    using w(1) by (simp add: demo_reservation_def)
  from restore_retries_once [OF run this] run w(2) show ?thesis
    by (auto simp: demo_reservation_def held_def)
qed

end
