(* ===== verification/Float64.thy ===== *)
theory Float64
  imports Complex_Main "HOL-Library.Log_Nat" Prelude
begin

text \<open>
  The arithmetic of Go's \<open>float64\<close>, as far as the program uses it: every operation computes the exact
  rational result and rounds it to 53 significant bits, ties to the even one. The exponent is not
  bounded, so overflow to infinity and subnormal numbers are outside the model; the token counts,
  seconds and ranks of the program are far from both.
\<close>

definition round_even :: "rat \<Rightarrow> int" where
  "round_even y = (let f = \<lfloor>y\<rfloor>; r = y - of_int f in
     if r < 1/2 then f else if 1/2 < r then f + 1 else if even f then f else f + 1)"

text \<open>The exponent of the leading bit, from the bit lengths of numerator and denominator.\<close>

definition lead_exp :: "rat \<Rightarrow> int" where
  "lead_exp x = (case quotient_of x of (n, d) \<Rightarrow>
     (let k = int (floorlog 2 (nat n)) - int (floorlog 2 (nat d)) in if 2 powi k \<le> x then k else k - 1))"

definition fl :: "rat \<Rightarrow> rat" where
  "fl x = (if x = 0 then 0 else
     (let e = lead_exp \<bar>x\<bar> - 52 in of_int (round_even (x / 2 powi e)) * 2 powi e))"

text \<open>The relative error of one rounding.\<close>

definition ulp_half :: rat where
  "ulp_half = 1 / 2 ^ 53"

section \<open>Rounding to an integer\<close>

lemma round_even_int [simp]: "round_even (of_int n) = n"
  by (simp add: round_even_def)

lemma round_even_error: "\<bar>of_int (round_even y) - y\<bar> \<le> 1/2"
proof -
  have "of_int \<lfloor>y\<rfloor> \<le> y" "y < of_int \<lfloor>y\<rfloor> + 1" by linarith+
  then show ?thesis by (auto simp: round_even_def Let_def)
qed

lemma round_even_mono:
  assumes "y \<le> z"
  shows "round_even y \<le> round_even z"
proof (cases "\<lfloor>y\<rfloor> = \<lfloor>z\<rfloor>")
  case True
  then show ?thesis using assms by (simp add: round_even_def Let_def)
next
  case False
  then have "\<lfloor>y\<rfloor> + 1 \<le> \<lfloor>z\<rfloor>" using floor_mono [OF assms] by simp
  moreover have "round_even y \<le> \<lfloor>y\<rfloor> + 1" "\<lfloor>z\<rfloor> \<le> round_even z" by (simp_all add: round_even_def Let_def)
  ultimately show ?thesis by simp
qed

lemma round_even_minus: "round_even (- y) = - round_even y"
proof (cases "y = of_int \<lfloor>y\<rfloor>")
  case True
  then show ?thesis by (metis of_int_minus round_even_int)
next
  case False
  then have "of_int \<lfloor>y\<rfloor> < y" "y < of_int \<lfloor>y\<rfloor> + 1" by linarith+
  then have f: "\<lfloor>- y\<rfloor> = - \<lfloor>y\<rfloor> - 1" by (simp add: floor_eq_iff)
  show ?thesis by (simp add: round_even_def f Let_def)
qed

section \<open>The exponent\<close>

lemma lead_exp_bounds:
  assumes "0 < x"
  shows "2 powi lead_exp x \<le> x" "x < 2 powi (lead_exp x + 1)"
proof -
  obtain n d where q: "quotient_of x = (n, d)" by fastforce
  have d: "0 < d" and x: "x = of_int n / of_int d"
    using q quotient_of_denom_pos quotient_of_div by auto
  have n: "0 < n" using assms x d by (simp add: zero_less_divide_iff)
  obtain N D where ND: "n = int N" "d = int D" "0 < N" "0 < D"
    using n d by (metis zero_less_imp_eq_int)
  define a b where "a = floorlog 2 N" and "b = floorlog 2 D"
  have pos: "0 < a" "0 < b" using ND by (simp_all add: a_def b_def floorlog_def)
  have nb: "2 ^ (a - 1) \<le> N" "N < 2 ^ a" "2 ^ (b - 1) \<le> D" "D < 2 ^ b"
    using floorlog_bounds [of N 2] floorlog_bounds [of D 2] ND by (auto simp: a_def b_def)
  have r: "(2::rat) ^ (a - 1) \<le> of_nat N" "(of_nat N :: rat) < 2 ^ a"
    "(2::rat) ^ (b - 1) \<le> of_nat D" "(of_nat D :: rat) < 2 ^ b"
    using nb by (metis of_nat_le_iff of_nat_less_iff of_nat_numeral of_nat_power)+
  define k where "k = int a - int b"
  have xk: "x = of_nat N / of_nat D" using x ND by simp
  have D0: "(0::rat) < of_nat D" using ND by simp
  have p2: "(2::rat) powi (int i) = 2 ^ i" for i by (simp add: power_int_of_nat)
  have half: "(2::rat) ^ a = 2 * 2 ^ (a - 1)" "(2::rat) ^ b = 2 * 2 ^ (b - 1)"
    using pos by (simp_all add: power_eq_if)
  have pk: "(2::rat) powi k = 2 ^ a / 2 ^ b" by (simp add: k_def power_int_diff p2)
  have low: "2 powi (k - 1) \<le> x"
  proof -
    have "2 powi (k - 1) = (2::rat) ^ (a - 1) / 2 ^ b" by (simp add: power_int_diff pk half(1))
    also have "\<dots> \<le> of_nat N / of_nat D"
      using r D0 by (intro frac_le) auto
    finally show ?thesis by (simp add: xk)
  qed
  have high: "x < 2 powi (k + 1)"
  proof -
    have "x < 2 ^ a / 2 ^ (b - 1)"
      unfolding xk using r D0 by (intro frac_less) auto
    also have "\<dots> = 2 powi (k + 1)" by (simp add: power_int_add pk half(2))
    finally show ?thesis .
  qed
  have e: "lead_exp x = (if 2 powi k \<le> x then k else k - 1)"
    using ND by (simp add: lead_exp_def q k_def a_def b_def)
  show "2 powi lead_exp x \<le> x" "x < 2 powi (lead_exp x + 1)"
    using low high by (auto simp: e)
qed


lemma powi_le_D: "(2::rat) powi i \<le> 2 powi j \<Longrightarrow> i \<le> j"
  using power_int_strict_increasing [of j i "2::rat"] by (meson linorder_not_less numeral_less_iff one_less_numeral_iff semiring_norm(76))

section \<open>Rounding to 53 bits\<close>

lemma fl_0 [simp]: "fl 0 = 0"
  by (simp add: fl_def)

lemma fl_minus: "fl (- x) = - fl x"
  by (simp add: fl_def Let_def round_even_minus)

text \<open>Positive arguments: the scaled significand lies between \<open>2 ^ 52\<close> and \<open>2 ^ 53\<close>.\<close>

lemma fl_pos:
  assumes "0 < x"
  shows "fl x = of_int (round_even (x / 2 powi (lead_exp x - 52))) * 2 powi (lead_exp x - 52)"
    "2 ^ 52 \<le> x / 2 powi (lead_exp x - 52)" "x / 2 powi (lead_exp x - 52) < 2 ^ 53"
    "2 powi lead_exp x \<le> fl x" "fl x \<le> 2 powi (lead_exp x + 1)"
proof -
  let ?e = "lead_exp x"
  let ?y = "x / 2 powi (?e - 52)"
  have p: "(0::rat) < 2 powi i" for i by simp
  show f: "fl x = of_int (round_even ?y) * 2 powi (?e - 52)"
    using assms by (simp add: fl_def Let_def)
  have sc: "(2::rat) powi ?e = 2 ^ 52 * 2 powi (?e - 52)" "(2::rat) powi (?e + 1) = 2 ^ 53 * 2 powi (?e - 52)"
    by (simp_all add: power_int_add power_int_diff)
  show l: "2 ^ 52 \<le> ?y" and h: "?y < 2 ^ 53"
    using lead_exp_bounds [OF assms] p [of "?e - 52"] unfolding sc by (simp_all add: pos_le_divide_eq pos_divide_less_eq)
  have "round_even (of_int (2 ^ 52)) \<le> round_even ?y" "round_even ?y \<le> round_even (of_int (2 ^ 53))"
    using l h by (intro round_even_mono; simp)+
  then have m: "2 ^ 52 \<le> round_even ?y" "round_even ?y \<le> 2 ^ 53" unfolding round_even_int by simp_all
  then have "(of_int (2 ^ 52) :: rat) \<le> of_int (round_even ?y)" "(of_int (round_even ?y) :: rat) \<le> of_int (2 ^ 53)"
    unfolding of_int_le_iff by simp_all
  then show "2 powi ?e \<le> fl x" "fl x \<le> 2 powi (?e + 1)"
    using p [of "?e - 52"] unfolding f sc by simp_all
qed

lemma fl_positive: "0 < x \<Longrightarrow> 0 < fl x"
proof -
  assume x: "0 < x"
  have "(0::rat) < 2 powi lead_exp x" by simp
  also have "\<dots> \<le> fl x" by (rule fl_pos(4) [OF x])
  finally show ?thesis .
qed

lemma fl_nonneg: "0 \<le> x \<Longrightarrow> 0 \<le> fl x"
  using fl_positive [of x] by (cases "x = 0") auto

lemma fl_mono_pos:
  assumes "0 < x" "x \<le> y"
  shows "fl x \<le> fl y"
proof -
  have y: "0 < y" using assms by simp
  have "2 powi lead_exp x < (2::rat) powi (lead_exp y + 1)"
    using lead_exp_bounds(1) [OF assms(1)] lead_exp_bounds(2) [OF y] assms(2) by linarith
  then have le: "lead_exp x \<le> lead_exp y"
    using power_int_increasing [of "lead_exp y + 1" "lead_exp x" "2::rat"] by fastforce
  show ?thesis
  proof (cases "lead_exp x = lead_exp y")
    case True
    have "x / 2 powi (lead_exp x - 52) \<le> y / 2 powi (lead_exp y - 52)"
      using assms(2) True by (simp add: divide_right_mono)
    then show ?thesis
      using round_even_mono True unfolding fl_pos(1) [OF assms(1)] fl_pos(1) [OF y] by simp
  next
    case False
    then have "(2::rat) powi (lead_exp x + 1) \<le> 2 powi lead_exp y"
      using le by (intro power_int_increasing) auto
    with fl_pos(5) [OF assms(1)] fl_pos(4) [OF y] show ?thesis by linarith
  qed
qed

lemma fl_mono: "x \<le> y \<Longrightarrow> fl x \<le> fl y"
proof -
  assume le: "x \<le> y"
  consider "0 < x" | "x \<le> 0" "0 \<le> y" | "y < 0" by linarith
  then show ?thesis
  proof cases
    case 1
    then show ?thesis by (rule fl_mono_pos [OF _ le])
  next
    case 2
    then show ?thesis using fl_nonneg [of y] fl_nonneg [of "- x"] by (simp add: fl_minus)
  next
    case 3
    then show ?thesis using fl_mono_pos [of "- y" "- x"] le by (simp add: fl_minus)
  qed
qed

lemma fl_error: "\<bar>fl x - x\<bar> \<le> ulp_half * \<bar>x\<bar>"
proof -
  have pos: "\<bar>fl x - x\<bar> \<le> ulp_half * x" if x: "0 < x" for x
  proof -
    let ?s = "(2::rat) powi (lead_exp x - 52)" and ?y = "x / 2 powi (lead_exp x - 52)"
    have s: "0 < ?s" by simp
    have xy: "x = ?y * ?s" by simp
    have "\<bar>of_int (round_even ?y) - ?y\<bar> \<le> ulp_half * ?y"
      using round_even_error [of ?y] fl_pos(2) [OF x] by (simp add: ulp_half_def)
    then have "\<bar>of_int (round_even ?y) - ?y\<bar> * ?s \<le> ulp_half * ?y * ?s"
      using s by (intro mult_right_mono) auto
    moreover have "fl x - x = (of_int (round_even ?y) - ?y) * ?s"
      using fl_pos(1) [OF x] xy by (metis left_diff_distrib)
    ultimately show ?thesis using xy s by (simp add: abs_mult mult.assoc)
  qed
  consider "x = 0" | "0 < x" | "0 < - x" by linarith
  then show ?thesis
    by cases (use pos [of x] pos [of "- x"] in \<open>auto simp: fl_minus abs_minus_commute\<close>)
qed

text \<open>A number with at most 53 significant bits is not changed.\<close>

lemma fl_exact:
  assumes "\<bar>m\<bar> \<le> 2 ^ 53"
  shows "fl (of_int m * 2 powi j) = of_int m * 2 powi j"
proof -
  have pos: "fl (of_int m * 2 powi j) = of_int m * 2 powi j" if m: "0 < m" "m \<le> 2 ^ 53" for m
  proof -
    let ?x = "of_int m * 2 powi j :: rat" and ?e = "lead_exp (of_int m * 2 powi j) - 52"
    have x: "0 < ?x" using m by simp
    obtain n where n: "?x / 2 powi ?e = of_int n"
    proof (cases "?e \<le> j")
      case True
      moreover have "(2::rat) powi j / 2 powi i = of_int (2 ^ nat (j - i))" if "i \<le> j" for i
        using that power_int_of_nat [of "2::rat" "nat (j - i)"] by (simp add: power_int_diff [symmetric])
      ultimately have "(2::rat) powi j / 2 powi ?e = of_int (2 ^ nat (j - ?e))" by blast
      then have "?x / 2 powi ?e = of_int (m * 2 ^ nat (j - ?e))"
        unfolding times_divide_eq_right [symmetric] of_int_mult by (rule arg_cong)
      then show ?thesis by (rule that)
    next
      case False
      have s: "(0::rat) < 2 powi j" by simp
      have "(2::rat) powi (j + 53) \<le> 2 powi (?e + 52)" using False by (intro power_int_increasing) auto
      also have "\<dots> \<le> ?x" using lead_exp_bounds(1) [OF x] by simp
      finally have "2 ^ 53 * (2::rat) powi j \<le> of_int m * 2 powi j" by (simp add: power_int_add)
      then have "(2 ^ 53 :: rat) \<le> of_int m" using s by simp
      then have "of_int (2 ^ 53) \<le> (of_int m :: rat)" by simp
      then have m53: "m = 2 ^ 53" using m(2) unfolding of_int_le_iff by simp
      have "2 powi (?e + 52) \<le> (2::rat) powi (j + 53)"
        using lead_exp_bounds(1) [OF x] by (simp add: m53 power_int_add)
      then have "?e = j + 1" using False powi_le_D [of "?e + 52" "j + 53"] by simp
      then have "?x / 2 powi ?e = of_int (2 ^ 52)" using s by (simp add: m53 power_int_add)
      then show ?thesis by (rule that)
    qed
    have "fl ?x = of_int (round_even (?x / 2 powi ?e)) * 2 powi ?e" by (rule fl_pos(1) [OF x])
    then have "fl ?x = of_int n * 2 powi ?e" by (simp only: n round_even_int)
    then show ?thesis using n by (simp add: field_simps)
  qed
  consider "m = 0" | "0 < m" | "0 < - m" by linarith
  then show ?thesis
    by cases (use pos [of m] pos [of "- m"] assms in \<open>auto simp: fl_minus\<close>)
qed

lemma fl_int: "\<bar>m\<bar> \<le> 2 ^ 53 \<Longrightarrow> fl (of_int m) = of_int m"
  using fl_exact [of m 0] by simp

end
