(* ===== verification/Breaker.thy ===== *)
theory Breaker
  imports Prelude
begin

text \<open>
  The circuit breaker of \<open>internal/overload/p3_breaker.go\<close>. \<open>Do\<close> holds the mutex only before and after
  the guarded call, so it is two critical sections, \<open>breaker_enter\<close> and \<open>breaker_leave\<close>, with other
  callers in between. Times are nanoseconds on the policy's clock, and the counters are far from
  the end of 64 bits.
\<close>

section \<open>State (model.go, p3_breaker.go)\<close>

datatype breaker_state = StateClosed | StateOpen | StateHalfOpen

text \<open>The constants are numbered by \<open>iota\<close>, and their order is that of their numbers.\<close>

fun state_number :: "breaker_state \<Rightarrow> int" where
  "state_number StateClosed = 0"
| "state_number StateOpen = 1"
| "state_number StateHalfOpen = 2"

lemma state_number_inj [simp]: "state_number s = state_number t \<longleftrightarrow> s = t"
  by (cases s; cases t) auto

instantiation breaker_state :: linorder
begin

definition less_eq_breaker_state :: "breaker_state \<Rightarrow> breaker_state \<Rightarrow> bool" where
  "less_eq_breaker_state s t \<longleftrightarrow> state_number s \<le> state_number t"

definition less_breaker_state :: "breaker_state \<Rightarrow> breaker_state \<Rightarrow> bool" where
  "less_breaker_state s t \<longleftrightarrow> state_number s < state_number t"

instance
  by standard (auto simp: less_eq_breaker_state_def less_breaker_state_def)

end

fun breaker_state_string :: "breaker_state \<Rightarrow> string" where
  "breaker_state_string StateClosed = ''closed''"
| "breaker_state_string StateOpen = ''open''"
| "breaker_state_string StateHalfOpen = ''half-open''"

record breaker_policy =
  failure_threshold :: int
  open_for :: int
  half_open_probes :: int

record breaker =
  bk_state :: breaker_state
  bk_failures :: int
  bk_opened :: int
  bk_probes :: int

definition new_breaker :: breaker where
  "new_breaker = \<lparr>bk_state = StateClosed, bk_failures = 0, bk_opened = 0, bk_probes = 0\<rparr>"

section \<open>Operations\<close>

definition check_transition :: "breaker_policy \<Rightarrow> int \<Rightarrow> breaker \<Rightarrow> breaker" where
  "check_transition pol now b =
     (if bk_state b = StateOpen \<and> open_for pol \<le> now - bk_opened b
      then b\<lparr>bk_state := StateHalfOpen, bk_probes := 0\<rparr> else b)"

text \<open>The section before the call: refused, or admitted with whether the call is a probe.\<close>

definition breaker_enter :: "breaker_policy \<Rightarrow> int \<Rightarrow> breaker \<Rightarrow> (go_error + bool) \<times> breaker" where
  "breaker_enter pol now b =
     (let b1 = check_transition pol now b in
      case bk_state b1 of
        StateOpen \<Rightarrow> (Inl BreakerOpen, b1)
      | StateHalfOpen \<Rightarrow>
          (if half_open_probes pol \<le> bk_probes b1 then (Inl BreakerOpen, b1)
           else (Inr True, b1\<lparr>bk_probes := bk_probes b1 + 1\<rparr>))
      | StateClosed \<Rightarrow> (Inr False, b1))"

text \<open>The section after the call; \<open>now\<close> is the clock's reading there.\<close>

definition breaker_leave :: "breaker_policy \<Rightarrow> int \<Rightarrow> bool \<Rightarrow> go_error option \<Rightarrow> breaker \<Rightarrow> breaker" where
  "breaker_leave pol now probing err b =
     (if probing then
        (let b1 = b\<lparr>bk_probes := bk_probes b - 1\<rparr> in
         if err = None then b1\<lparr>bk_state := StateClosed, bk_failures := 0\<rparr>
         else b1\<lparr>bk_state := StateOpen, bk_opened := now\<rparr>)
      else if err = None then b\<lparr>bk_failures := 0\<rparr>
      else (let b1 = b\<lparr>bk_failures := bk_failures b + 1\<rparr> in
         if failure_threshold pol \<le> bk_failures b1 then b1\<lparr>bk_state := StateOpen, bk_opened := now\<rparr>
         else b1))"

text \<open>
  The whole of \<open>Do\<close>: \<open>t1\<close> and \<open>t2\<close> are the clock's readings at its two sections, \<open>env\<close> is what other
  callers do to the breaker in between, and \<open>fn\<close> is the guarded call on the state it works on.
\<close>

definition breaker_do :: "breaker_policy \<Rightarrow> int \<Rightarrow> int \<Rightarrow> (breaker \<Rightarrow> breaker)
    \<Rightarrow> ('w \<Rightarrow> go_error option \<times> 'w) \<Rightarrow> breaker \<Rightarrow> 'w \<Rightarrow> go_error option \<times> breaker \<times> 'w" where
  "breaker_do pol t1 t2 env fn b w =
     (case breaker_enter pol t1 b of
        (Inl e, b1) \<Rightarrow> (Some e, b1, w)
      | (Inr probing, b1) \<Rightarrow>
          (case fn w of (err, w') \<Rightarrow> (err, breaker_leave pol t2 probing err (env b1), w')))"

definition breaker_observe :: "breaker_policy \<Rightarrow> int \<Rightarrow> breaker \<Rightarrow> breaker_state \<times> breaker" where
  "breaker_observe pol now b = (let b1 = check_transition pol now b in (bk_state b1, b1))"

section \<open>What the paths answer\<close>

record degraded_payload =
  dp_error :: string
  dp_degraded :: bool
  dp_retry_after :: int

definition write_retry_after_seconds :: int where
  "write_retry_after_seconds = 1"

definition write_path_failure :: "(go_error \<Rightarrow> string) \<Rightarrow> go_error \<Rightarrow> int \<times> degraded_payload" where
  "write_path_failure text err =
     (if errors_is err RateLimited then 429 else 503,
      \<lparr>dp_error = text err, dp_degraded = False, dp_retry_after = write_retry_after_seconds\<rparr>)"

definition read_path_fallback :: "(go_error \<Rightarrow> string) \<Rightarrow> go_error \<Rightarrow> bool \<Rightarrow> int \<times> degraded_payload" where
  "read_path_fallback text err stale =
     (if \<not> stale then write_path_failure text err
      else (200, \<lparr>dp_error = '''', dp_degraded = True, dp_retry_after = 0\<rparr>))"

text \<open>A degraded body is exactly a successful read; a write never answers with success.\<close>

lemma write_path_no_success: "fst (write_path_failure text err) \<in> {429, 503}"
  by (simp add: write_path_failure_def)

lemma degraded_iff_ok:
  "dp_degraded (snd (read_path_fallback text err stale)) \<longleftrightarrow> fst (read_path_fallback text err stale) = 200"
  by (simp add: read_path_fallback_def write_path_failure_def)

section \<open>Sequential callers\<close>

text \<open>
  Calls one after the other, each with the readings at its two sections and its outcome; the state
  the calls work on counts how often the dependency was reached.
\<close>

type_synonym guarded_call = "int \<times> int \<times> go_error option"

fun breaker_calls :: "breaker_policy \<Rightarrow> guarded_call list \<Rightarrow> breaker \<Rightarrow> nat
    \<Rightarrow> go_error option list \<times> breaker \<times> nat" where
  "breaker_calls pol [] b n = ([], b, n)"
| "breaker_calls pol ((t1, t2, err) # cs) b n =
     (case breaker_do pol t1 t2 (\<lambda>b. b) (\<lambda>n. (err, Suc n)) b n of
        (x, b1, n1) \<Rightarrow> (case breaker_calls pol cs b1 n1 of (xs, b2, n2) \<Rightarrow> (x # xs, b2, n2)))"

lemma breaker_calls_append:
  "breaker_calls pol (cs @ ds) b n = (case breaker_calls pol cs b n of
     (xs, b1, n1) \<Rightarrow> (case breaker_calls pol ds b1 n1 of (ys, b2, n2) \<Rightarrow> (xs @ ys, b2, n2)))"
  by (induction pol cs b n rule: breaker_calls.induct) (auto split: prod.splits)

lemmas breaker_ops = breaker_do_def breaker_enter_def breaker_leave_def check_transition_def

text \<open>A closed breaker below its threshold is transparent and counts the failures.\<close>

lemma closed_call:
  assumes "bk_state b = StateClosed"
  shows "breaker_do pol t1 t2 (\<lambda>b. b) (\<lambda>n. (err, Suc n)) b n = (err, breaker_leave pol t2 False err b, Suc n)"
  using assms by (simp add: breaker_do_def breaker_enter_def check_transition_def)

lemma closed_failures:
  assumes "bk_state b = StateClosed" "bk_failures b + int (length cs) < failure_threshold pol"
    "\<forall>(t1, t2, err) \<in> set cs. err \<noteq> None"
  shows "breaker_calls pol cs b n =
     (map (snd \<circ> snd) cs, b\<lparr>bk_failures := bk_failures b + int (length cs)\<rparr>, n + length cs)"
  using assms
proof (induction cs arbitrary: b n)
  case (Cons c cs)
  obtain t1 t2 err where c: "c = (t1, t2, err)" by (cases c)
  have "breaker_leave pol t2 False err b = b\<lparr>bk_failures := bk_failures b + 1\<rparr>"
    using Cons.prems c by (auto simp: breaker_leave_def)
  with Cons.IH [of "b\<lparr>bk_failures := bk_failures b + 1\<rparr>" "Suc n"] Cons.prems c
  show ?case by (simp add: closed_call algebra_simps)
qed simp

lemma open_refuses:
  assumes "bk_state b = StateOpen" "\<forall>(t1, t2, err) \<in> set cs. t1 - bk_opened b < open_for pol"
  shows "breaker_calls pol cs b n = (replicate (length cs) (Some BreakerOpen), b, n)"
  using assms by (induction cs) (auto simp: breaker_ops split: prod.splits)


text \<open>No run of failures in \<open>cs\<close>, after \<open>f\<close> earlier ones, reaches \<open>k\<close>.\<close>

fun streaks_below :: "int \<Rightarrow> int \<Rightarrow> guarded_call list \<Rightarrow> bool" where
  "streaks_below k f [] \<longleftrightarrow> True"
| "streaks_below k f ((_, _, None) # cs) \<longleftrightarrow> streaks_below k 0 cs"
| "streaks_below k f ((_, _, Some _) # cs) \<longleftrightarrow> f + 1 < k \<and> streaks_below k (f + 1) cs"

lemma transparent:
  assumes "bk_state b = StateClosed" "streaks_below (failure_threshold pol) (bk_failures b) cs"
  shows "\<exists>f. breaker_calls pol cs b n = (map (snd \<circ> snd) cs, b\<lparr>bk_failures := f\<rparr>, n + length cs)
     \<and> (cs \<noteq> [] \<longrightarrow> snd (snd (last cs)) = None \<longrightarrow> f = 0) \<and> (cs = [] \<longrightarrow> f = bk_failures b)"
  using assms
proof (induction cs arbitrary: b n)
  case Nil
  then show ?case by (intro exI [of _ "bk_failures b"]) simp
next
  case (Cons c cs)
  obtain t1 t2 err where c: "c = (t1, t2, err)" by (cases c)
  define f1 where "f1 = (if err = None then 0 else bk_failures b + 1)"
  have l: "breaker_leave pol t2 False err b = b\<lparr>bk_failures := f1\<rparr>"
    using Cons.prems c by (cases err) (auto simp: breaker_leave_def f1_def)
  have "streaks_below (failure_threshold pol) f1 cs"
    using Cons.prems c by (cases err) (auto simp: f1_def)
  with Cons.IH [of "b\<lparr>bk_failures := f1\<rparr>" "Suc n"] Cons.prems obtain f where f:
    "breaker_calls pol cs (b\<lparr>bk_failures := f1\<rparr>) (Suc n) = (map (snd \<circ> snd) cs, b\<lparr>bk_failures := f\<rparr>, Suc n + length cs)"
    "cs \<noteq> [] \<longrightarrow> snd (snd (last cs)) = None \<longrightarrow> f = 0" "cs = [] \<longrightarrow> f = f1" by auto
  show ?case
    using f Cons.prems(1) c l by (intro exI [of _ f]) (auto simp: closed_call f1_def)
qed

text \<open>The failure that reaches the threshold opens the breaker.\<close>

lemma tripping_failures:
  assumes "bk_state b = StateClosed" "bk_failures b = 0" "0 < failure_threshold pol"
    "length fails = nat (failure_threshold pol)" "\<forall>(t1, t2, err) \<in> set fails. err \<noteq> None"
  shows "breaker_calls pol fails b n = (map (snd \<circ> snd) fails,
     b\<lparr>bk_state := StateOpen, bk_failures := failure_threshold pol, bk_opened := fst (snd (last fails))\<rparr>,
     n + length fails)"
proof -
  from assms(3,4) have "fails \<noteq> []" by auto
  then obtain init t1 t2 err where f: "fails = init @ [(t1, t2, err)]"
    by (metis append_butlast_last_id prod_cases3)
  have i: "int (length init) = failure_threshold pol - 1" "\<forall>(t1, t2, err) \<in> set init. err \<noteq> None" "err \<noteq> None"
    using assms(3-5) f by auto
  have "breaker_calls pol init b n = (map (snd \<circ> snd) init, b\<lparr>bk_failures := int (length init)\<rparr>, n + length init)"
    using closed_failures [of b init pol n] assms(1,2) i by simp
  then show ?thesis
    using i assms(1) by (auto simp: f breaker_calls_append closed_call breaker_leave_def)
qed

text \<open>
  C24: the breaker trips, cools and recovers as documented. For callers one after the other, starting
  fresh: while no \<open>FailureThreshold\<close> calls in a row fail, every call reaches the dependency and its
  outcome is passed on; \<open>FailureThreshold\<close> consecutive failures open it; every call that starts less
  than \<open>OpenFor\<close> later is refused without reaching the dependency; the first call after that is a
  probe, and its outcome closes the breaker with a clean count or opens it anew.
\<close>

theorem breaker_trips_and_recovers:
  assumes "0 < failure_threshold pol" "0 < half_open_probes pol"
    and "streaks_below (failure_threshold pol) 0 quiet" "quiet = [] \<or> snd (snd (last quiet)) = None"
    and "length fails = nat (failure_threshold pol)" "\<forall>(t1, t2, err) \<in> set fails. err \<noteq> None"
    and "\<forall>(t1, t2, err) \<in> set cold. t1 - fst (snd (last fails)) < open_for pol"
    and "open_for pol \<le> p1 - fst (snd (last fails))"
  shows "breaker_calls pol (quiet @ fails @ cold @ [(p1, p2, out)]) new_breaker 0 =
    (map (snd \<circ> snd) quiet @ map (snd \<circ> snd) fails @ replicate (length cold) (Some BreakerOpen) @ [out],
     (if out = None
      then \<lparr>bk_state = StateClosed, bk_failures = 0, bk_opened = fst (snd (last fails)), bk_probes = 0\<rparr>
      else \<lparr>bk_state = StateOpen, bk_failures = failure_threshold pol, bk_opened = p2, bk_probes = 0\<rparr>),
     length quiet + length fails + 1)"
proof -
  let ?open = "\<lparr>bk_state = StateOpen, bk_failures = failure_threshold pol, bk_opened = fst (snd (last fails)), bk_probes = 0\<rparr>"
  have q: "breaker_calls pol quiet new_breaker 0 = (map (snd \<circ> snd) quiet, new_breaker, length quiet)"
    using transparent [of new_breaker pol quiet 0] assms(3,4) by (auto simp: new_breaker_def)
  have f: "breaker_calls pol fails new_breaker m = (map (snd \<circ> snd) fails, ?open, m + length fails)" for m
    using tripping_failures [of new_breaker pol fails m] assms(1,5,6) by (simp add: new_breaker_def)
  have c: "breaker_calls pol cold ?open m = (replicate (length cold) (Some BreakerOpen), ?open, m)" for m
    using open_refuses [of ?open cold pol m] assms(7) by simp
  show ?thesis
    using assms(2,8) by (simp add: breaker_calls_append q f c) (cases out; simp add: breaker_ops)
qed

definition demo_policy :: breaker_policy where
  "demo_policy = \<lparr>failure_threshold = 2, open_for = 10, half_open_probes = 1\<rparr>"

theorem breaker_trips_and_recovers_witness:
  "breaker_calls demo_policy
     [(0, 1, Some NoRecord), (2, 3, None), (4, 5, Some NoRecord), (6, 7, Some NoRecord), (16, 16, None), (17, 18, None)] new_breaker 0
   = ([Some NoRecord, None, Some NoRecord, Some NoRecord, Some BreakerOpen, None],
      \<lparr>bk_state = StateClosed, bk_failures = 0, bk_opened = 7, bk_probes = 0\<rparr>, 5)"
  using breaker_trips_and_recovers [of demo_policy "[(0, 1, Some NoRecord), (2, 3, None)]"
      "[(4, 5, Some NoRecord), (6, 7, Some NoRecord)]" "[(16, 16, None)]" 17 18 None]
  by (simp add: demo_policy_def)


section \<open>Concurrent callers\<close>

text \<open>
  Any number of callers interleave their sections. The system has the breaker, the clock and the
  calls in flight, each with whether it is a probe and the half-open episode it was admitted in;
  \<open>cs_admitted\<close> keeps all admissions. Episodes are counted by the promotions from open to half-open.
\<close>

record call_sys =
  cs_breaker :: breaker
  cs_now :: int
  cs_episode :: nat
  cs_running :: "(bool \<times> nat) list"
  cs_admitted :: "(bool \<times> nat) list"

definition promoted :: "breaker_policy \<Rightarrow> call_sys \<Rightarrow> nat" where
  "promoted pol s = cs_episode s + (if bk_state (cs_breaker s) = StateOpen
     \<and> bk_state (check_transition pol (cs_now s) (cs_breaker s)) = StateHalfOpen then 1 else 0)"

inductive call_step :: "breaker_policy \<Rightarrow> call_sys \<Rightarrow> call_sys \<Rightarrow> bool" for pol :: breaker_policy where
  call_refused: "breaker_enter pol (cs_now s) (cs_breaker s) = (Inl e, b) \<Longrightarrow>
     call_step pol s (s\<lparr>cs_breaker := b, cs_episode := promoted pol s\<rparr>)"
| call_admitted: "breaker_enter pol (cs_now s) (cs_breaker s) = (Inr probing, b) \<Longrightarrow>
     call_step pol s (s\<lparr>cs_breaker := b, cs_episode := promoted pol s,
        cs_running := (probing, promoted pol s) # cs_running s,
        cs_admitted := (probing, promoted pol s) # cs_admitted s\<rparr>)"
| call_done: "(probing, ep) \<in> set (cs_running s) \<Longrightarrow>
     call_step pol s (s\<lparr>cs_breaker := breaker_leave pol (cs_now s) probing err (cs_breaker s),
        cs_running := remove1 (probing, ep) (cs_running s)\<rparr>)"
| call_observed: "breaker_observe pol (cs_now s) (cs_breaker s) = (st, b) \<Longrightarrow>
     call_step pol s (s\<lparr>cs_breaker := b, cs_episode := promoted pol s\<rparr>)"
| call_time: "0 \<le> d \<Longrightarrow> call_step pol s (s\<lparr>cs_now := cs_now s + d\<rparr>)"

definition calls_start :: "int \<Rightarrow> call_sys" where
  "calls_start now = \<lparr>cs_breaker = new_breaker, cs_now = now, cs_episode = 0, cs_running = [], cs_admitted = []\<rparr>"

inductive calls_reach :: "breaker_policy \<Rightarrow> call_sys \<Rightarrow> bool" for pol :: breaker_policy where
  reach_start: "calls_reach pol (calls_start now)"
| reach_step: "calls_reach pol s \<Longrightarrow> call_step pol s s' \<Longrightarrow> calls_reach pol s'"

inductive_cases call_stepE: "call_step pol s s'"

text \<open>The probes admitted in an episode, and the invariant about them.\<close>

definition probes_of :: "call_sys \<Rightarrow> nat \<Rightarrow> nat" where
  "probes_of s ep = count_list (cs_admitted s) (True, ep)"

definition probes_inv :: "breaker_policy \<Rightarrow> call_sys \<Rightarrow> bool" where
  "probes_inv pol s \<longleftrightarrow>
     (bk_state (cs_breaker s) = StateHalfOpen \<longrightarrow> bk_probes (cs_breaker s) = int (probes_of s (cs_episode s)))
   \<and> (\<forall>ep. int (probes_of s ep) \<le> max 0 (half_open_probes pol))
   \<and> (\<forall>c \<in> set (cs_admitted s). snd c \<le> cs_episode s)"

lemma fresh_episode: "probes_inv pol s \<Longrightarrow> cs_episode s < ep \<Longrightarrow> probes_of s ep = 0"
  by (force simp: probes_inv_def probes_of_def count_list_0_iff)

text \<open>Promotion keeps the invariant: a new episode starts with no probe.\<close>

lemma promote_inv:
  assumes "probes_inv pol s"
  shows "probes_inv pol (s\<lparr>cs_breaker := check_transition pol (cs_now s) (cs_breaker s), cs_episode := promoted pol s\<rparr>)"
proof -
  have 0: "probes_of s (Suc (cs_episode s)) = 0" using fresh_episode [OF assms] by simp
  show ?thesis
    using assms 0 by (fastforce simp: probes_inv_def promoted_def check_transition_def probes_of_def)
qed

lemma call_step_inv: "call_step pol s s' \<Longrightarrow> probes_inv pol s \<Longrightarrow> probes_inv pol s'"
proof (induction rule: call_step.induct)
  case (call_refused s e b)
  then have "b = check_transition pol (cs_now s) (cs_breaker s)"
    by (auto simp: breaker_enter_def Let_def split: breaker_state.splits if_splits)
  then show ?case using promote_inv [OF call_refused(2)] by simp
next
  case (call_admitted s probing b)
  let ?t = "s\<lparr>cs_breaker := check_transition pol (cs_now s) (cs_breaker s), cs_episode := promoted pol s\<rparr>"
  have inv: "probes_inv pol ?t" by (rule promote_inv [OF call_admitted(2)])
  show ?case
  proof (cases "bk_state (cs_breaker ?t) = StateHalfOpen")
    case True
    then have "probing" "b = (cs_breaker ?t)\<lparr>bk_probes := bk_probes (cs_breaker ?t) + 1\<rparr>"
      "bk_probes (cs_breaker ?t) < half_open_probes pol"
      using call_admitted(1) by (auto simp: breaker_enter_def Let_def split: if_splits)
    with inv True show ?thesis by (auto simp: probes_inv_def probes_of_def)
  next
    case False
    then have "\<not> probing" "b = cs_breaker ?t"
      using call_admitted(1) by (auto simp: breaker_enter_def Let_def split: breaker_state.splits)
    with inv False show ?thesis by (auto simp: probes_inv_def probes_of_def)
  qed
next
  case (call_done probing ep s err)
  then show ?case by (auto simp: probes_inv_def probes_of_def breaker_leave_def Let_def)
next
  case (call_observed s st b)
  then show ?case using promote_inv [OF call_observed(2)] by (simp add: breaker_observe_def Let_def)
qed (simp add: probes_inv_def probes_of_def)

lemma calls_reach_inv: "calls_reach pol s \<Longrightarrow> probes_inv pol s"
proof (induction rule: calls_reach.induct)
  case (reach_start now)
  then show ?case by (simp add: probes_inv_def probes_of_def calls_start_def new_breaker_def)
qed (rule call_step_inv)

text \<open>Before it has cooled, an open breaker admits nobody.\<close>

lemma cold_step:
  assumes "call_step pol s s'" "bk_state (cs_breaker s) = StateOpen"
    "cs_now s - bk_opened (cs_breaker s) < open_for pol"
  shows "cs_admitted s' = cs_admitted s"
  using assms(1)
  by (cases rule: call_step.cases) (use assms(2,3) in \<open>auto simp: breaker_enter_def check_transition_def\<close>)

text \<open>
  C21: whatever the interleaving of any number of callers, observers and time, each half-open episode
  admits at most \<open>HalfOpenProbes\<close> probes in all, and no call is admitted while the breaker is open and
  \<open>OpenFor\<close> has not passed.
\<close>

theorem breaker_bounds_probes:
  assumes "calls_reach pol s"
  shows "(\<forall>ep. int (count_list (cs_admitted s) (True, ep)) \<le> max 0 (half_open_probes pol)) \<and>
    (\<forall>s'. call_step pol s s' \<longrightarrow> bk_state (cs_breaker s) = StateOpen \<longrightarrow>
      cs_now s - bk_opened (cs_breaker s) < open_for pol \<longrightarrow> cs_admitted s' = cs_admitted s)"
  using calls_reach_inv [OF assms] cold_step [of pol s] by (auto simp: probes_inv_def probes_of_def)

text \<open>Runs by a list of actions, for concrete interleavings.\<close>

datatype call_action = Enter | Return bool nat "go_error option" | Observe | Pass int

fun call_exec :: "breaker_policy \<Rightarrow> call_action \<Rightarrow> call_sys \<Rightarrow> call_sys option" where
  "call_exec pol Enter s = (case breaker_enter pol (cs_now s) (cs_breaker s) of
       (Inl _, b) \<Rightarrow> Some (s\<lparr>cs_breaker := b, cs_episode := promoted pol s\<rparr>)
     | (Inr p, b) \<Rightarrow> Some (s\<lparr>cs_breaker := b, cs_episode := promoted pol s,
          cs_running := (p, promoted pol s) # cs_running s, cs_admitted := (p, promoted pol s) # cs_admitted s\<rparr>))"
| "call_exec pol (Return p ep err) s = (if (p, ep) \<in> set (cs_running s)
     then Some (s\<lparr>cs_breaker := breaker_leave pol (cs_now s) p err (cs_breaker s), cs_running := remove1 (p, ep) (cs_running s)\<rparr>)
     else None)"
| "call_exec pol Observe s = Some (s\<lparr>cs_breaker := snd (breaker_observe pol (cs_now s) (cs_breaker s)), cs_episode := promoted pol s\<rparr>)"
| "call_exec pol (Pass d) s = (if 0 \<le> d then Some (s\<lparr>cs_now := cs_now s + d\<rparr>) else None)"

fun call_run :: "breaker_policy \<Rightarrow> call_action list \<Rightarrow> call_sys \<Rightarrow> call_sys option" where
  "call_run pol [] s = Some s"
| "call_run pol (a # as) s = (case call_exec pol a s of None \<Rightarrow> None | Some s1 \<Rightarrow> call_run pol as s1)"

lemma call_exec_step: "call_exec pol a s = Some s' \<Longrightarrow> call_step pol s s'"
proof (cases a)
  case Enter
  moreover assume "call_exec pol a s = Some s'"
  ultimately show ?thesis by (auto split: prod.splits sum.splits intro: call_step.intros)
next
  case Observe
  moreover assume "call_exec pol a s = Some s'"
  ultimately show ?thesis
    by (cases "breaker_observe pol (cs_now s) (cs_breaker s)") (auto intro: call_step.intros)
qed (auto split: if_splits intro: call_step.intros)

lemma call_run_reach: "calls_reach pol s \<Longrightarrow> call_run pol as s = Some s' \<Longrightarrow> calls_reach pol s'"
  by (induction as arbitrary: s) (auto split: option.splits dest: call_exec_step intro: reach_step)

definition tripped_run :: "call_action list" where
  "tripped_run = [Enter, Enter, Enter, Return False 0 (Some NoRecord), Return False 0 (Some NoRecord)]"

lemmas call_run_simps = calls_start_def new_breaker_def breaker_enter_def breaker_leave_def breaker_observe_def
  check_transition_def promoted_def demo_policy_def tripped_run_def

text \<open>A tripped breaker refuses at once; after ten units it admits one probe and refuses the next.\<close>

theorem breaker_bounds_probes_witness:
  "\<exists>s s'. call_run demo_policy tripped_run (calls_start 0) = Some s \<and> call_step demo_policy s s'
     \<and> cs_admitted s' = cs_admitted s
     \<and> (\<exists>t. call_run demo_policy [Pass 10, Enter, Enter] s = Some t
          \<and> count_list (cs_admitted t) (True, 1) = 1 \<and> int (count_list (cs_admitted t) (True, 1)) \<le> 1)"
proof -
  obtain s where s: "call_run demo_policy tripped_run (calls_start 0) = Some s"
    "bk_state (cs_breaker s) = StateOpen" "cs_now s - bk_opened (cs_breaker s) < open_for demo_policy"
    by (simp add: call_run_simps)
  have r: "calls_reach demo_policy s" by (rule call_run_reach [OF reach_start s(1)])
  obtain s' where s': "call_step demo_policy s s'" using call_exec_step [of demo_policy Observe s] by auto
  obtain t where t: "call_run demo_policy [Pass 10, Enter, Enter] s = Some t"
    "count_list (cs_admitted t) (True, 1) = 1"
    using s(1) by (auto simp: call_run_simps)
  have rt: "calls_reach demo_policy t" by (rule call_run_reach [OF r t(1)])
  have "int (count_list (cs_admitted t) (True, 1)) \<le> 1"
    using breaker_bounds_probes [OF rt] by (simp add: demo_policy_def)
  moreover have "cs_admitted s' = cs_admitted s" using breaker_bounds_probes [OF r] s(2,3) s' by blast
  ultimately show ?thesis using s(1) s' t by blast
qed

text \<open>
  C39: what the bound does not cover. A call admitted while the breaker was closed and failing late
  reopens a half-open breaker whose probe is still running; the next episode admits another, so
  two probes run at once where one is allowed, and the old one's late success closes the breaker
  while the current probe has not answered.
\<close>

theorem stale_probe_decides:
  "\<exists>s s'. calls_reach demo_policy s \<and> half_open_probes demo_policy = 1
     \<and> cs_running s = [(True, 2), (True, 1)] \<and> cs_episode s = 2
     \<and> call_run demo_policy [Return True 1 None] s = Some s'
     \<and> bk_state (cs_breaker s') = StateClosed \<and> cs_running s' = [(True, 2)]"
proof -
  let ?as = "tripped_run @ [Pass 10, Enter, Return False 0 (Some NoRecord), Pass 10, Enter]"
  obtain s where s: "call_run demo_policy ?as (calls_start 0) = Some s"
    "cs_running s = [(True, 2), (True, 1)]" "cs_episode s = 2" "bk_state (cs_breaker s) = StateHalfOpen"
    by (simp add: call_run_simps)
  then have "calls_reach demo_policy s" using call_run_reach [OF reach_start] by blast
  moreover obtain s' where "call_run demo_policy [Return True 1 None] s = Some s'"
    "bk_state (cs_breaker s') = StateClosed" "cs_running s' = [(True, 2)]"
    using s by (simp add: breaker_leave_def)
  ultimately show ?thesis using s(2,3) by (auto simp: demo_policy_def)
qed

end
