(* ===== verification/Overload.thy ===== *)
theory Overload
  imports Float64 Breaker "HOL-Library.Signed_Division"
begin

text \<open>
  The doors of the write path, package \<open>overload\<close>: bounded admission slots (\<open>p1_admission.go\<close>), the
  token bucket (\<open>p2_bucket.go\<close>), the gate of \<open>cmd/api/main.go\<close> that puts one behind the other, and the
  ordered shutdown (\<open>p4_shutdown.go\<close>).
\<close>

section \<open>Admission\<close>

record admission =
  ad_slots :: int
  ad_wait_budget :: int
  ad_capacity :: int
  ad_in_flight :: int
  ad_accepted :: int
  ad_rejected :: int
  ad_wait_total :: int

text \<open>\<open>make(chan struct{}, n)\<close> panics for a negative \<open>n\<close>.\<close>

definition new_admission :: "int \<Rightarrow> int \<Rightarrow> admission go" where
  "new_admission capacity budget = (if capacity < 0 then Panic
     else Ret \<lparr>ad_slots = 0, ad_wait_budget = budget, ad_capacity = capacity, ad_in_flight = 0,
            ad_accepted = 0, ad_rejected = 0, ad_wait_total = 0\<rparr>)"

text \<open>
  The channel operation of a slot and the counting under the mutex are two steps; a channel operation
  that would block is \<open>None\<close>.
\<close>

definition slot_send :: "admission \<Rightarrow> admission option" where
  "slot_send a = (if ad_slots a < ad_capacity a then Some (a\<lparr>ad_slots := ad_slots a + 1\<rparr>) else None)"

definition slot_receive :: "admission \<Rightarrow> admission option" where
  "slot_receive a = (if 0 < ad_slots a then Some (a\<lparr>ad_slots := ad_slots a - 1\<rparr>) else None)"

definition count_accepted :: "admission \<Rightarrow> admission" where
  "count_accepted a = a\<lparr>ad_in_flight := ad_in_flight a + 1, ad_accepted := ad_accepted a + 1\<rparr>"

definition count_rejected :: "admission \<Rightarrow> admission" where
  "count_rejected a = a\<lparr>ad_rejected := ad_rejected a + 1\<rparr>"

definition count_released :: "admission \<Rightarrow> admission" where
  "count_released a = a\<lparr>ad_in_flight := ad_in_flight a - 1\<rparr>"

text \<open>
  The \<open>select\<close> of \<open>Acquire\<close>: which of its cases it takes is the schedule's choice, among those ready;
  the slot case is ready when the channel has room.
\<close>

datatype acquire_case = SlotFree | WaitOver | CtxDone go_error

fun admission_acquire :: "acquire_case \<Rightarrow> admission \<Rightarrow> (go_error option \<times> admission) option" where
  "admission_acquire SlotFree a = map_option (\<lambda>b. (None, count_accepted b)) (slot_send a)"
| "admission_acquire WaitOver a = Some (Some AdmissionFull, count_rejected a)"
| "admission_acquire (CtxDone e) a = Some (Some e, a)"

definition admission_release :: "admission \<Rightarrow> admission option" where
  "admission_release a = map_option count_released (slot_receive a)"

record admission_stats =
  as_capacity :: int
  as_in_flight :: int
  as_accepted :: int
  as_rejected :: int
  as_wait_total :: int

definition stats :: "admission \<Rightarrow> admission_stats" where
  "stats a = \<lparr>as_capacity = ad_capacity a, as_in_flight = ad_in_flight a, as_accepted = ad_accepted a,
     as_rejected = ad_rejected a, as_wait_total = ad_wait_total a\<rparr>"

section \<open>Interleaved callers of the admission\<close>

text \<open>
  How many callers hold a slot they have not counted yet, are inside, and have given their slot back
  without having counted that; a caller that is inside gives its slot back exactly once.
\<close>

record adm_sys =
  sy_admission :: admission
  sy_entering :: nat
  sy_inside :: nat
  sy_leaving :: nat

inductive adm_step :: "adm_sys \<Rightarrow> adm_sys \<Rightarrow> bool" where
  adm_take: "slot_send (sy_admission s) = Some a \<Longrightarrow>
     adm_step s (s\<lparr>sy_admission := a, sy_entering := Suc (sy_entering s)\<rparr>)"
| adm_count: "sy_entering s = Suc n \<Longrightarrow>
     adm_step s (s\<lparr>sy_admission := count_accepted (sy_admission s), sy_entering := n, sy_inside := Suc (sy_inside s)\<rparr>)"
| adm_timeout: "adm_step s (s\<lparr>sy_admission := count_rejected (sy_admission s)\<rparr>)"
| adm_give: "sy_inside s = Suc n \<Longrightarrow> slot_receive (sy_admission s) = Some a \<Longrightarrow>
     adm_step s (s\<lparr>sy_admission := a, sy_inside := n, sy_leaving := Suc (sy_leaving s)\<rparr>)"
| adm_uncount: "sy_leaving s = Suc n \<Longrightarrow>
     adm_step s (s\<lparr>sy_admission := count_released (sy_admission s), sy_leaving := n\<rparr>)"

inductive adm_reach :: "adm_sys \<Rightarrow> bool" where
  adm_start: "new_admission capacity budget = Ret a \<Longrightarrow>
     adm_reach \<lparr>sy_admission = a, sy_entering = 0, sy_inside = 0, sy_leaving = 0\<rparr>"
| adm_next: "adm_reach s \<Longrightarrow> adm_step s s' \<Longrightarrow> adm_reach s'"

definition adm_inv :: "adm_sys \<Rightarrow> bool" where
  "adm_inv s \<longleftrightarrow> ad_slots (sy_admission s) = int (sy_entering s + sy_inside s)
     \<and> ad_slots (sy_admission s) \<le> ad_capacity (sy_admission s)
     \<and> ad_in_flight (sy_admission s) = int (sy_inside s + sy_leaving s)
     \<and> ad_wait_total (sy_admission s) = 0"

lemmas slot_ops = slot_send_def slot_receive_def count_accepted_def count_rejected_def count_released_def

lemma adm_step_inv: "adm_step s s' \<Longrightarrow> adm_inv s \<Longrightarrow> adm_inv s'"
  by (induction rule: adm_step.induct) (auto simp: adm_inv_def slot_ops split: if_splits)

lemma adm_reach_inv: "adm_reach s \<Longrightarrow> adm_inv s"
proof (induction rule: adm_reach.induct)
  case (adm_start capacity budget a)
  then show ?case by (auto simp: adm_inv_def new_admission_def split: if_splits)
qed (rule adm_step_inv)

text \<open>
  C26: slots are never oversubscribed and never leak. Whatever the interleaving of callers, the slots
  in use are exactly the callers that hold one, never more than the capacity; the in-flight count
  differs from them only by callers between their two steps, so it is exact when none is; and a
  caller inside can always give its slot back without blocking.
\<close>

theorem admission_slots_exact:
  assumes "adm_reach s"
  shows "ad_slots (sy_admission s) = int (sy_entering s + sy_inside s)
    \<and> ad_slots (sy_admission s) \<le> ad_capacity (sy_admission s)
    \<and> as_in_flight (stats (sy_admission s)) + int (sy_entering s) = ad_slots (sy_admission s) + int (sy_leaving s)
    \<and> (0 < sy_inside s \<longrightarrow> slot_receive (sy_admission s) \<noteq> None)"
  using adm_reach_inv [OF assms] by (auto simp: adm_inv_def stats_def slot_ops)

theorem admission_slots_exact_witness:
  "\<exists>s. adm_reach s \<and> sy_inside s = 1 \<and> ad_slots (sy_admission s) = 1 \<and> slot_send (sy_admission s) = None"
proof -
  obtain a where a: "new_admission 1 5 = Ret a" "ad_slots a = 0" "ad_capacity a = 1"
    by (simp add: new_admission_def)
  let ?s0 = "\<lparr>sy_admission = a, sy_entering = 0, sy_inside = 0, sy_leaving = 0\<rparr>"
  let ?s1 = "?s0\<lparr>sy_admission := a\<lparr>ad_slots := 1\<rparr>, sy_entering := 1\<rparr>"
  let ?s2 = "?s1\<lparr>sy_admission := count_accepted (a\<lparr>ad_slots := 1\<rparr>), sy_entering := 0, sy_inside := 1\<rparr>"
  have "adm_step ?s0 ?s1" using adm_take [of ?s0 "a\<lparr>ad_slots := 1\<rparr>"] a by (simp add: slot_send_def)
  moreover have "adm_step ?s1 ?s2" using adm_count [of ?s1 0] by simp
  ultimately have r: "adm_reach ?s2" using adm_start [OF a(1)] adm_next by blast
  from admission_slots_exact [OF r] show ?thesis
    using r a(3) by (intro exI [of _ ?s2]) (simp add: slot_ops)
qed


section \<open>Token bucket\<close>

text \<open>
  Clock readings are nanoseconds whose differences fit 64 bits; the multiplication and addition of
  the refill are rounded separately (the compiler may fuse them on some architectures).
\<close>

record token_bucket =
  tb_capacity :: rat
  tb_refill :: rat
  tb_tokens :: rat
  tb_last :: int

definition new_token_bucket :: "int \<Rightarrow> rat \<Rightarrow> int \<Rightarrow> token_bucket" where
  "new_token_bucket capacity refill now = \<lparr>tb_capacity = fl (of_int capacity), tb_refill = refill,
     tb_tokens = fl (of_int capacity), tb_last = now\<rparr>"

text \<open>\<open>Duration.Seconds\<close>: whole seconds and the rest, each as a float.\<close>

definition duration_seconds :: "int \<Rightarrow> rat" where
  "duration_seconds d = fl (fl (of_int (d sdiv 10 ^ 9)) + fl (fl (of_int (d smod 10 ^ 9)) / 10 ^ 9))"

definition token_level :: "int \<Rightarrow> token_bucket \<Rightarrow> rat" where
  "token_level now b =
     (let t = fl (tb_tokens b + fl (duration_seconds (now - tb_last b) * tb_refill b))
      in if tb_capacity b < t then tb_capacity b else t)"

definition allow :: "int \<Rightarrow> token_bucket \<Rightarrow> bool \<times> token_bucket" where
  "allow now b =
     (let t = token_level now b; b1 = b\<lparr>tb_tokens := t, tb_last := now\<rparr> in
      if 1 \<le> t then (True, b1\<lparr>tb_tokens := fl (t - 1)\<rparr>) else (False, b1))"

definition tokens :: "int \<Rightarrow> token_bucket \<Rightarrow> rat" where
  "tokens now b = token_level now b"

text \<open>Requests at the given readings, with what each was answered.\<close>

fun allow_all :: "int list \<Rightarrow> token_bucket \<Rightarrow> bool list \<times> token_bucket" where
  "allow_all [] b = ([], b)"
| "allow_all (t # ts) b = (case allow t b of (x, b1) \<Rightarrow>
     (case allow_all ts b1 of (xs, b2) \<Rightarrow> (x # xs, b2)))"

definition bucket_ok :: "int \<Rightarrow> token_bucket \<Rightarrow> bool" where
  "bucket_ok c b \<longleftrightarrow> 0 \<le> c \<and> c \<le> 2 ^ 53 \<and> tb_capacity b = of_int c
     \<and> 0 \<le> tb_refill b \<and> 0 \<le> tb_tokens b \<and> tb_tokens b \<le> of_int c"

lemma pow5: "(u::rat) ^ 5 = u ^ 4 * u"
  by (simp add: eval_nat_numeral)

lemma ulp_half_pos: "0 < ulp_half"
  by (simp add: ulp_half_def)

lemma fl_le: "0 \<le> x \<Longrightarrow> fl x \<le> x + ulp_half * x"
  using fl_error [of x] by linarith

lemma new_bucket_ok: "0 \<le> c \<Longrightarrow> c \<le> 2 ^ 53 \<Longrightarrow> 0 \<le> r \<Longrightarrow> bucket_ok c (new_token_bucket c r now)"
  by (simp add: bucket_ok_def new_token_bucket_def fl_int)

lemma duration_seconds_bounds:
  assumes "0 \<le> d"
  shows "0 \<le> duration_seconds d" "duration_seconds d \<le> of_int d / 10 ^ 9 * (1 + ulp_half) ^ 3"
proof -
  let ?u = "1 + ulp_half" and ?q = "of_int (d div 10 ^ 9) :: rat" and ?m = "of_int (d mod 10 ^ 9) :: rat"
  have u: "1 \<le> ?u" by (simp add: ulp_half_def)
  have sd: "d sdiv 10 ^ 9 = d div 10 ^ 9" "d smod 10 ^ 9 = d mod 10 ^ 9"
    using assms by (simp_all add: signed_divide_int_def signed_modulo_int_def sgn_if zero_le_mult_iff)
  have q0: "0 \<le> ?q" and m0: "0 \<le> ?m" using assms by (simp_all add: pos_imp_zdiv_nonneg_iff)
  have dm: "of_int d / 10 ^ 9 = ?q + ?m / 10 ^ 9"
  proof -
    have "of_int d = (of_int (10 ^ 9 * (d div 10 ^ 9) + d mod 10 ^ 9) :: rat)" by simp
    also have "\<dots> = 10 ^ 9 * ?q + ?m" by (simp only: of_int_add of_int_mult of_int_power of_int_numeral)
    finally show ?thesis by (simp add: field_simps)
  qed
  have a: "0 \<le> fl ?q" "fl ?q \<le> ?q * ?u" using fl_nonneg [OF q0] fl_le [OF q0] by (simp_all add: algebra_simps)
  have b: "0 \<le> fl ?m" "fl ?m \<le> ?m * ?u" using fl_nonneg [OF m0] fl_le [OF m0] by (simp_all add: algebra_simps)
  have c: "0 \<le> fl (fl ?m / 10 ^ 9)" using b by (intro fl_nonneg) simp
  have "fl (fl ?m / 10 ^ 9) \<le> fl ?m / 10 ^ 9 * ?u" using fl_le [of "fl ?m / 10 ^ 9"] b by (simp add: algebra_simps)
  also have "\<dots> \<le> ?m * ?u / 10 ^ 9 * ?u" using b u by (intro mult_right_mono divide_right_mono) auto
  finally have d1: "fl (fl ?m / 10 ^ 9) \<le> ?m / 10 ^ 9 * ?u ^ 2" by (simp add: power2_eq_square algebra_simps)
  have "?q * ?u \<le> ?q * ?u ^ 2" using q0 u by (intro mult_left_mono) (auto simp: power2_eq_square)
  with a d1 have s: "fl ?q + fl (fl ?m / 10 ^ 9) \<le> of_int d / 10 ^ 9 * ?u ^ 2" unfolding dm by (simp add: algebra_simps)
  have s0: "0 \<le> fl ?q + fl (fl ?m / 10 ^ 9)" using a c by simp
  show "0 \<le> duration_seconds d" unfolding duration_seconds_def sd by (rule fl_nonneg [OF s0])
  have "duration_seconds d \<le> (fl ?q + fl (fl ?m / 10 ^ 9)) * ?u"
    unfolding duration_seconds_def sd using fl_le [OF s0] by (simp add: algebra_simps)
  also have "\<dots> \<le> of_int d / 10 ^ 9 * ?u ^ 2 * ?u" using s u by (intro mult_right_mono) auto
  finally show "duration_seconds d \<le> of_int d / 10 ^ 9 * ?u ^ 3" by (simp add: power3_eq_cube power2_eq_square mult.assoc)
qed

text \<open>One refill and one request: the level stays within the capacity, and it gains at most the refill.\<close>

lemma token_level_bounds:
  assumes "bucket_ok c b" "tb_last b \<le> now"
  shows "0 \<le> token_level now b" "token_level now b \<le> of_int c"
    "token_level now b \<le> tb_tokens b + ulp_half * of_int c
       + tb_refill b * (of_int (now - tb_last b) / 10 ^ 9) * (1 + ulp_half) ^ 5"
proof -
  let ?u = "1 + ulp_half" and ?d = "now - tb_last b"
  let ?inc = "fl (duration_seconds ?d * tb_refill b)"
  have u: "1 \<le> ?u" by (simp add: ulp_half_def)
  note ds = duration_seconds_bounds [of ?d]
  have r0: "0 \<le> tb_refill b" and t0: "0 \<le> tb_tokens b" "tb_tokens b \<le> of_int c" "tb_capacity b = of_int c" "0 \<le> c"
    using assms(1) by (auto simp: bucket_ok_def)
  have p0: "0 \<le> duration_seconds ?d * tb_refill b" using ds assms(2) r0 by simp
  have i0: "0 \<le> ?inc" by (rule fl_nonneg [OF p0])
  have "?inc \<le> duration_seconds ?d * tb_refill b * ?u" using fl_le [OF p0] by (simp add: algebra_simps)
  also have "\<dots> \<le> of_int ?d / 10 ^ 9 * ?u ^ 3 * tb_refill b * ?u"
    using ds(2) assms(2) r0 u by (intro mult_right_mono) auto
  also have "\<dots> = tb_refill b * (of_int ?d / 10 ^ 9) * ?u ^ 4" by (simp add: power_def algebra_simps numeral_eq_Suc)
  finally have i1: "?inc \<le> tb_refill b * (of_int ?d / 10 ^ 9) * ?u ^ 4" .
  have s0: "0 \<le> tb_tokens b + ?inc" using t0 i0 by simp
  show "0 \<le> token_level now b" using fl_nonneg [OF s0] t0 by (simp add: token_level_def Let_def)
  show "token_level now b \<le> of_int c" using t0 by (simp add: token_level_def Let_def)
  have "token_level now b \<le> fl (tb_tokens b + ?inc)" by (simp add: token_level_def Let_def)
  also have "\<dots> \<le> tb_tokens b + ulp_half * tb_tokens b + ?inc * ?u"
    using fl_le [OF s0] by (simp add: algebra_simps)
  also have "\<dots> \<le> tb_tokens b + ulp_half * of_int c + tb_refill b * (of_int ?d / 10 ^ 9) * ?u ^ 4 * ?u"
    using mult_left_mono [OF t0(2), of ulp_half] mult_right_mono [OF i1, of ?u] u ulp_half_pos by linarith
  finally show "token_level now b \<le> tb_tokens b + ulp_half * of_int c
       + tb_refill b * (of_int ?d / 10 ^ 9) * ?u ^ 5"
    by (simp only: pow5 mult.assoc)
qed


lemma allow_step:
  assumes "bucket_ok c b" "tb_last b \<le> now" "allow now b = (x, b')"
  shows "bucket_ok c b'" "tb_last b' = now" "tb_refill b' = tb_refill b"
    "(if x then 1 else 0) + tb_tokens b' \<le> tb_tokens b + 2 * ulp_half * of_int c
       + tb_refill b * (of_int (now - tb_last b) / 10 ^ 9) * (1 + ulp_half) ^ 5"
proof -
  note tl = token_level_bounds [OF assms(1,2)]
  have ok: "0 \<le> c" "c \<le> 2 ^ 53" using assms(1) by (auto simp: bucket_ok_def)
  have dec: "0 \<le> fl (t - 1)" "fl (t - 1) \<le> of_int c" "fl (t - 1) \<le> t - 1 + ulp_half * of_int c"
    if "1 \<le> t" "t \<le> of_int c" for t
  proof -
    show "0 \<le> fl (t - 1)" using that by (intro fl_nonneg) simp
    have "fl (t - 1) \<le> fl (of_int c)" using that by (intro fl_mono) simp
    then show "fl (t - 1) \<le> of_int c" using fl_int [of c] ok by simp
    show "fl (t - 1) \<le> t - 1 + ulp_half * of_int c"
      using fl_le [of "t - 1"] that mult_left_mono [of "t - 1" "of_int c" ulp_half] ulp_half_pos by linarith
  qed
  note d = dec [OF _ tl(2)]
  show "tb_last b' = now" "tb_refill b' = tb_refill b"
    using assms(3) by (auto simp: allow_def Let_def split: if_splits)
  show "bucket_ok c b'"
    using assms(1,3) tl d by (auto simp: bucket_ok_def allow_def Let_def split: if_splits)
  have "0 \<le> ulp_half * of_int c" using ok ulp_half_pos by simp
  then show "(if x then 1 else 0) + tb_tokens b' \<le> tb_tokens b + 2 * ulp_half * of_int c
       + tb_refill b * (of_int (now - tb_last b) / 10 ^ 9) * (1 + ulp_half) ^ 5"
    using assms(3) tl d(3) by (auto simp: allow_def Let_def split: if_splits)
qed

lemma allow_all_bound:
  assumes "bucket_ok c b" "sorted (tb_last b # ts)" "allow_all ts b = (xs, b')"
  shows "bucket_ok c b' \<and> of_nat (length (filter id xs)) + tb_tokens b' \<le>
    tb_tokens b + tb_refill b * (of_int (last (tb_last b # ts) - tb_last b) / 10 ^ 9) * (1 + ulp_half) ^ 5
      + of_nat (length ts) * (2 * ulp_half * of_int c)"
  using assms
proof (induction ts arbitrary: b xs b')
  case (Cons t ts)
  obtain x b1 ys where a: "allow t b = (x, b1)" "allow_all ts b1 = (ys, b')" "xs = x # ys"
    using Cons.prems(3) by (auto split: prod.splits)
  have le: "tb_last b \<le> t" using Cons.prems(2) by simp
  note st = allow_step [OF Cons.prems(1) le a(1)]
  have "sorted (tb_last b1 # ts)" using Cons.prems(2) st(2) by simp
  note ih = Cons.IH [OF st(1) this a(2)]
  let ?r = "tb_refill b" and ?u5 = "(1 + ulp_half) ^ 5" and ?e = "2 * ulp_half * of_int c :: rat"
  have split: "?r * (of_int (last (t # ts) - tb_last b) / 10 ^ 9) * ?u5
      = ?r * (of_int (last (t # ts) - t) / 10 ^ 9) * ?u5 + ?r * (of_int (t - tb_last b) / 10 ^ 9) * ?u5"
    by (simp add: field_simps)
  have n: "of_nat (length (filter id xs)) = (if x then 1 else 0) + (of_nat (length (filter id ys)) :: rat)"
    by (simp add: a(3))
  have "of_nat (length (filter id ys)) + tb_tokens b' \<le> tb_tokens b1
      + ?r * (of_int (last (t # ts) - t) / 10 ^ 9) * ?u5 + of_nat (length ts) * ?e"
    using ih unfolding st(2,3) by blast
  then have "of_nat (length (filter id xs)) + tb_tokens b' \<le> tb_tokens b
      + ?r * (of_int (last (t # ts) - tb_last b) / 10 ^ 9) * ?u5 + of_nat (length ts) * ?e + ?e"
    using st(4) unfolding n split by linarith
  moreover have "last (tb_last b # t # ts) = last (t # ts)" by simp
  moreover have "of_nat (length (t # ts)) * ?e = of_nat (length ts) * ?e + ?e" by (simp add: algebra_simps)
  ultimately show ?case using ih by (simp only: add.assoc)
qed simp

text \<open>
  C22: the token bucket limits the rate. For requests at readings that never go back, starting from a
  full bucket of \<open>c\<close> tokens, the level always stays between 0 and the capacity, and the number of
  requests let through is at most \<open>c\<close> plus the rate times the elapsed seconds, up to the rounding of
  floating point: a relative error of \<open>(1 + 2^-53)^5\<close> of the refill and \<open>2^-52\<close> tokens times the
  capacity for each request.
\<close>

theorem token_bucket_limits_rate:
  assumes "0 \<le> c" "c \<le> 2 ^ 53" "0 \<le> rate" "sorted (t0 # ts)"
    and "allow_all ts (new_token_bucket c rate t0) = (xs, b)"
  shows "0 \<le> tb_tokens b \<and> tb_tokens b \<le> of_int c
    \<and> of_nat (length (filter id xs)) \<le> of_int c
        + rate * (of_int (last (t0 # ts) - t0) / 10 ^ 9) * (1 + ulp_half) ^ 5
        + of_nat (length ts) * (of_int c / 2 ^ 52)"
proof -
  let ?b = "new_token_bucket c rate t0"
  have b: "tb_last ?b = t0" "tb_refill ?b = rate" "tb_tokens ?b = of_int c"
    using assms(1,2) by (simp_all add: new_token_bucket_def fl_int)
  have s: "sorted (tb_last ?b # ts)" using assms(4) b(1) by simp
  from allow_all_bound [OF new_bucket_ok [OF assms(1-3)] s assms(5)] show ?thesis
    by (simp add: b bucket_ok_def ulp_half_def algebra_simps)
qed

text \<open>Two tokens, three requests at once, and a fourth one second later.\<close>

theorem token_bucket_limits_rate_witness:
  "\<exists>b. allow_all [0, 0, 0, 10 ^ 9] (new_token_bucket 2 1 0) = ([True, True, False, True], b)
     \<and> 0 \<le> tb_tokens b \<and> tb_tokens b \<le> 2
     \<and> (3::rat) \<le> 2 + 1 * (1 + ulp_half) ^ 5 + 4 * (2 / 2 ^ 52)"
proof -
  have fl: "fl 1 = 1" "fl 2 = 2" using fl_int [of 1] fl_int [of 2] by simp_all
  obtain b where b: "allow_all [0, 0, 0, 10 ^ 9] (new_token_bucket 2 1 0) = ([True, True, False, True], b)"
    by (simp add: new_token_bucket_def allow_def token_level_def duration_seconds_def fl
        signed_divide_int_def signed_modulo_int_def)
  from token_bucket_limits_rate [OF _ _ _ _ b] b show ?thesis by (intro exI [of _ b]) simp
qed

section \<open>The gate of the write path (cmd/api/main.go)\<close>

text \<open>
  First the token bucket, then a slot, then the handler; \<open>defer\<close> releases the slot however the
  handler ends, a panic included. \<open>env\<close> is what other requests do to the admission while the handler
  runs. The outcome is \<open>None\<close> only if a channel operation would block for ever.
\<close>

record gate_counts =
  gc_rate_rejected :: nat
  gc_rate_accepted :: nat
  gc_adm_rejected :: nat
  gc_adm_accepted :: nat

record gate =
  gt_bucket :: token_bucket
  gt_admission :: admission
  gt_counts :: gate_counts

datatype gate_reply = GateAborted int degraded_payload "int option" | GatePassed "unit go"

definition overload_gate :: "(go_error \<Rightarrow> string) \<Rightarrow> int \<Rightarrow> acquire_case \<Rightarrow> (admission \<Rightarrow> admission)
    \<Rightarrow> ('w \<Rightarrow> unit go \<times> 'w) \<Rightarrow> gate \<Rightarrow> 'w \<Rightarrow> (gate_reply \<times> gate \<times> 'w) option" where
  "overload_gate text now choice env handler g w =
     (case allow now (gt_bucket g) of (allowed, tb) \<Rightarrow>
       let g1 = g\<lparr>gt_bucket := tb\<rparr>; n = gt_counts g in
       if \<not> allowed then
         (let (status, payload) = write_path_failure text RateLimited
          in Some (GateAborted status payload (Some (dp_retry_after payload)),
               g1\<lparr>gt_counts := n\<lparr>gc_rate_rejected := gc_rate_rejected n + 1\<rparr>\<rparr>, w))
       else
         (let n1 = n\<lparr>gc_rate_accepted := gc_rate_accepted n + 1\<rparr> in
          case admission_acquire choice (gt_admission g) of
            None \<Rightarrow> None
          | Some (Some e, a) \<Rightarrow>
             (let (status, payload) = write_path_failure text e
              in Some (GateAborted status payload None,
                   g1\<lparr>gt_admission := a, gt_counts := n1\<lparr>gc_adm_rejected := gc_adm_rejected n1 + 1\<rparr>\<rparr>, w))
          | Some (None, a) \<Rightarrow>
             (case handler w of (r, w') \<Rightarrow>
               (case admission_release (env a) of
                  None \<Rightarrow> None
                | Some a' \<Rightarrow> Some (GatePassed r,
                     g1\<lparr>gt_admission := a', gt_counts := n1\<lparr>gc_adm_accepted := gc_adm_accepted n1 + 1\<rparr>\<rparr>, w')))))"

text \<open>
  the gate either aborts with 429 or 503, never a success and never degraded, without running the
  handler or touching a slot, or runs the handler once and gives its slot back even if the handler
  panics: with other requests that return the slots they take and leave ours alone, slots and
  in-flight count end as they began.
\<close>

theorem overload_gate_returns_slot:
  assumes "overload_gate text now choice env handler g w = Some (reply, g', w')"
    and "\<And>a. ad_slots (env a) = ad_slots a \<and> ad_in_flight (env a) = ad_in_flight a"
  shows "ad_slots (gt_admission g') = ad_slots (gt_admission g)
    \<and> ad_in_flight (gt_admission g') = ad_in_flight (gt_admission g)
    \<and> (case reply of
        GateAborted status payload _ \<Rightarrow> w' = w \<and> status \<in> {429, 503} \<and> \<not> dp_degraded payload
      | GatePassed r \<Rightarrow> (r, w') = handler w \<and> choice = SlotFree
          \<and> ad_slots (gt_admission g) < ad_capacity (gt_admission g))"
  using assms
  by (cases choice)
    (auto simp: overload_gate_def write_path_failure_def admission_release_def slot_ops Let_def
      split: prod.splits option.splits if_splits)

definition demo_gate :: gate where
  "demo_gate = \<lparr>gt_bucket = new_token_bucket 2 1 0,
     gt_admission = \<lparr>ad_slots = 0, ad_wait_budget = 5, ad_capacity = 1, ad_in_flight = 0, ad_accepted = 0,
        ad_rejected = 0, ad_wait_total = 0\<rparr>,
     gt_counts = \<lparr>gc_rate_rejected = 0, gc_rate_accepted = 0, gc_adm_rejected = 0, gc_adm_accepted = 0\<rparr>\<rparr>"

theorem overload_gate_returns_slot_witness:
  "\<exists>g'. overload_gate (\<lambda>e. '''') 0 SlotFree (\<lambda>a. a) (\<lambda>w. (Panic, w + 1)) demo_gate (0::nat)
     = Some (GatePassed Panic, g', 1) \<and> ad_slots (gt_admission g') = 0"
proof -
  have fl: "fl 1 = 1" "fl 2 = 2" using fl_int [of 1] fl_int [of 2] by simp_all
  obtain g' where g: "overload_gate (\<lambda>e. '''') 0 SlotFree (\<lambda>a. a) (\<lambda>w. (Panic, w + 1)) demo_gate (0::nat)
     = Some (GatePassed Panic, g', 1)"
    by (simp add: overload_gate_def demo_gate_def new_token_bucket_def allow_def token_level_def
        duration_seconds_def fl slot_ops admission_release_def signed_divide_int_def signed_modulo_int_def)
  from overload_gate_returns_slot [OF g] show ?thesis
    by (intro exI [of _ g'] conjI g) (simp add: demo_gate_def)
qed

section \<open>Shutdown\<close>

text \<open>
  The steps share one context: \<open>expired\<close> says of a state whether its deadline has passed, \<open>clock\<close> what the
  wall clock reads there.
\<close>

type_synonym 'w shutdown_step = "string \<times> ('w \<Rightarrow> go_error option \<times> 'w)"

record shutdown_report =
  sr_completed :: "string list"
  sr_failed :: string
  sr_err :: "go_error option"
  sr_elapsed :: int

fun run_steps :: "('w \<Rightarrow> bool) \<Rightarrow> 'w shutdown_step list \<Rightarrow> string list \<Rightarrow> 'w
    \<Rightarrow> (string list \<times> string \<times> go_error option) \<times> 'w" where
  "run_steps expired [] completed w = ((completed, '''', None), w)"
| "run_steps expired ((name, fn) # steps) completed w =
     (if expired w then ((completed, name, Some ShutdownTimeout), w)
      else (case fn w of
          (Some e, w1) \<Rightarrow> ((completed, name, Some e), w1)
        | (None, w1) \<Rightarrow> run_steps expired steps (completed @ [name]) w1))"

definition shutdown :: "('w \<Rightarrow> bool) \<Rightarrow> ('w \<Rightarrow> int) \<Rightarrow> 'w shutdown_step list \<Rightarrow> 'w \<Rightarrow> shutdown_report \<times> 'w" where
  "shutdown expired clock steps w = (case run_steps expired steps [] w of
     ((completed, failed, err), w') \<Rightarrow>
       (\<lparr>sr_completed = completed, sr_failed = failed, sr_err = err, sr_elapsed = clock w' - clock w\<rparr>, w'))"

text \<open>Every step of the list started in time and succeeded, from \<open>w\<close> to \<open>w'\<close>.\<close>

fun all_ran :: "('w \<Rightarrow> bool) \<Rightarrow> 'w shutdown_step list \<Rightarrow> 'w \<Rightarrow> 'w \<Rightarrow> bool" where
  "all_ran expired [] w w' \<longleftrightarrow> w' = w"
| "all_ran expired ((name, fn) # steps) w w' \<longleftrightarrow>
     \<not> expired w \<and> fst (fn w) = None \<and> all_ran expired steps (snd (fn w)) w'"

text \<open>Where the run stopped: after \<open>pre\<close>, in the state \<open>w1\<close>, at the step \<open>failed\<close>.\<close>

definition stopped_at :: "('w \<Rightarrow> bool) \<Rightarrow> 'w shutdown_step list \<Rightarrow> 'w shutdown_step list \<Rightarrow> string
    \<Rightarrow> go_error option \<Rightarrow> 'w \<Rightarrow> 'w \<Rightarrow> bool" where
  "stopped_at expired steps pre failed err w w' \<longleftrightarrow>
     (\<exists>fn post w1. steps = pre @ (failed, fn) # post \<and> all_ran expired pre w w1
        \<and> (expired w1 \<and> w' = w1 \<and> err = Some ShutdownTimeout \<or> \<not> expired w1 \<and> fn w1 = (err, w') \<and> err \<noteq> None))"

lemma stopped_at_Cons:
  assumes "\<not> expired w" "fst (fn w) = None" "stopped_at expired steps pre failed err (snd (fn w)) w'"
  shows "stopped_at expired ((name, fn) # steps) ((name, fn) # pre) failed err w w'"
  using assms by (fastforce simp: stopped_at_def)

lemma run_steps_outcome:
  assumes "run_steps expired steps finished w = ((completed, failed, err), w')"
  shows "err = None \<and> completed = finished @ map fst steps \<and> failed = '''' \<and> all_ran expired steps w w' \<or>
    (\<exists>pre. completed = finished @ map fst pre \<and> stopped_at expired steps pre failed err w w')"
  using assms
proof (induction expired steps finished w rule: run_steps.induct)
  case (2 expired name fn steps finished w)
  show ?case
  proof (cases "\<not> expired w \<and> fst (fn w) = None")
    case True
    then obtain w1 where f: "fn w = (None, w1)" by (cases "fn w") auto
    with True "2.prems" have r: "run_steps expired steps (finished @ [name]) w1 = ((completed, failed, err), w')" by simp
    from True f "2.IH" [OF _ f [symmetric] _ r] stopped_at_Cons [of expired w fn steps _ failed err w' name]
    show ?thesis by fastforce
  next
    case False
    with "2.prems" have "failed = name" "completed = finished"
      "expired w \<and> w' = w \<and> err = Some ShutdownTimeout \<or> \<not> expired w \<and> fn w = (err, w') \<and> err \<noteq> None"
      by (auto split: prod.splits option.splits if_splits)
    then have "completed = finished @ map fst [] \<and> stopped_at expired ((name, fn) # steps) [] failed err w w'"
      by (simp add: stopped_at_def)
    then show ?thesis by blast
  qed
qed simp

text \<open>
  shutdown runs the declared order and stops where it says. Either every step started before the
  deadline and succeeded, in order, and the report lists them all; or the report lists exactly
  the steps before the failed one, each of which ran and succeeded, the failed one either was not
  started because the deadline had passed or returned the reported error, and no later step ran.
\<close>

theorem shutdown_stops_where_reported:
  assumes "shutdown expired clock steps w = (rep, w')"
  shows "sr_err rep = None \<and> sr_completed rep = map fst steps \<and> sr_failed rep = '''' \<and> all_ran expired steps w w' \<or>
    (\<exists>pre fn post w1. steps = pre @ (sr_failed rep, fn) # post \<and> sr_completed rep = map fst pre
       \<and> all_ran expired pre w w1
       \<and> (expired w1 \<and> w' = w1 \<and> sr_err rep = Some ShutdownTimeout
          \<or> \<not> expired w1 \<and> fn w1 = (sr_err rep, w') \<and> sr_err rep \<noteq> None))"
proof -
  obtain completed failed err where r: "run_steps expired steps [] w = ((completed, failed, err), w')"
    "rep = \<lparr>sr_completed = completed, sr_failed = failed, sr_err = err, sr_elapsed = clock w' - clock w\<rparr>"
    using assms by (auto simp: shutdown_def split: prod.splits)
  from run_steps_outcome [OF r(1)] show ?thesis by (simp add: r(2) stopped_at_def) blast
qed

text \<open>The state is the time; the second step takes too long, so the third is never started.\<close>

theorem shutdown_stops_where_reported_witness:
  "\<exists>rep. shutdown (\<lambda>t. 10 \<le> t) (\<lambda>t. t)
       [(''stop-http'', \<lambda>t. (None, t + 3)), (''drain-inflight'', \<lambda>t. (None, t + 9)), (''stop-consumer'', \<lambda>t. (None, t))]
       (0::int) = (rep, 12)
     \<and> sr_completed rep = [''stop-http'', ''drain-inflight''] \<and> sr_failed rep = ''stop-consumer''
     \<and> sr_err rep = Some ShutdownTimeout"
proof -
  let ?steps = "[(''stop-http'', \<lambda>t. (None, t + 3)), (''drain-inflight'', \<lambda>t. (None, t + 9)), (''stop-consumer'', \<lambda>t. (None, t))]
    :: int shutdown_step list"
  obtain rep where r: "shutdown (\<lambda>t. 10 \<le> t) (\<lambda>t. t) ?steps 0 = (rep, 12)"
    "sr_completed rep = [''stop-http'', ''drain-inflight'']" "sr_failed rep = ''stop-consumer''"
    "sr_err rep \<noteq> None"
    by (simp add: shutdown_def)
  from shutdown_stops_where_reported [OF r(1)] r show ?thesis by auto
qed

end
