(* ===== verification/Expire.thy ===== *)
theory Expire
  imports Overload Prededuct "HOL-Library.List_Lexorder" "HOL-Library.Char_ord" "HOL-Library.Multiset"
begin

text \<open>
  Package \<open>expire\<close>: the index of expiring orders as a Redis sorted set, claimed in batches by one Lua
  step (\<open>p1_claim.go\<close>); closing an order and giving its stock back (\<open>p2_close.go\<close>); the latency
  samples and the scanner loop (\<open>p3_latency.go\<close>). Instants are nanoseconds since the epoch.
\<close>

section \<open>The sorted set\<close>

text \<open>Redis orders the members of a sorted set by score, those of one score by their bytes.\<close>

datatype zmember = ZMember (z_score: int) (z_name: string)

instantiation zmember :: linorder
begin

definition less_eq_zmember :: "zmember \<Rightarrow> zmember \<Rightarrow> bool" where
  "less_eq_zmember a b \<longleftrightarrow> z_score a < z_score b \<or> z_score a = z_score b \<and> z_name a \<le> z_name b"

definition less_zmember :: "zmember \<Rightarrow> zmember \<Rightarrow> bool" where
  "less_zmember a b \<longleftrightarrow> z_score a < z_score b \<or> z_score a = z_score b \<and> z_name a < z_name b"

instance
  by standard (auto simp: less_eq_zmember_def less_zmember_def zmember.expand)

end

definition zset_at :: "string \<Rightarrow> redis \<Rightarrow> go_error + (string \<times> int) list" where
  "zset_at k r = (case rlookup r k of
       None \<Rightarrow> Inr [] | Some (RZSet l) \<Rightarrow> Inr l | Some _ \<Rightarrow> Inl ScriptError)"

definition zput :: "string \<Rightarrow> int \<Rightarrow> (string \<times> int) list \<Rightarrow> (string \<times> int) list" where
  "zput m s l = (if m \<in> fst ` set l then map (\<lambda>(m', s'). if m' = m then (m, s) else (m', s')) l else l @ [(m, s)])"

definition zadd :: "string \<Rightarrow> int \<Rightarrow> string \<Rightarrow> redis \<Rightarrow> (go_error + nat) \<times> redis" where
  "zadd k s m r = (case zset_at k r of
       Inl e \<Rightarrow> (Inl e, r)
     | Inr l \<Rightarrow> (Inr (if m \<in> fst ` set l then 0 else 1), rmodify k (RZSet (zput m s l)) r))"

definition zrem :: "string \<Rightarrow> string \<Rightarrow> redis \<Rightarrow> (go_error + nat) \<times> redis" where
  "zrem k m r = (case zset_at k r of
       Inl e \<Rightarrow> (Inl e, r)
     | Inr l \<Rightarrow> (if m \<notin> fst ` set l then (Inr 0, r)
         else (Inr 1, (let l' = filter (\<lambda>(m', _). m' \<noteq> m) l in
            if l' = [] then rdel k r else rmodify k (RZSet l') r))))"

text \<open>\<open>ZRANGE key -inf now BYSCORE LIMIT 0 n\<close>: a negative count means no limit.\<close>

definition zrange_due :: "int \<Rightarrow> int \<Rightarrow> (string \<times> int) list \<Rightarrow> string list" where
  "zrange_due now n l =
     (let due = map z_name (sort (map (\<lambda>(m, s). ZMember s m) (filter (\<lambda>(_, s). s \<le> now) l)))
      in if n < 0 then due else take (nat n) due)"

lemma map_of_put:
  "map_of (map (\<lambda>(m', s'). if m' = m then (m, s) else (m', s')) l) x
     = (if x = m \<and> m \<in> fst ` set l then Some s else map_of l x)"
proof (induction l)
  case (Cons y l)
  then show ?case by (cases y; cases "fst y = m"; cases "x = m") simp_all
qed simp

lemma map_of_snoc: "m \<notin> fst ` set l \<Longrightarrow> map_of (l @ [(m, s)]) x = (if x = m then Some s else map_of l x)"
proof (induction l)
  case (Cons y l)
  then show ?case by (cases y) (auto simp del: map_of_append)
qed simp

lemma zput_lookup: "map_of (zput m s l) = (map_of l)(m \<mapsto> s)"
proof
  fix x
  show "map_of (zput m s l) x = ((map_of l)(m \<mapsto> s)) x"
    by (cases "m \<in> fst ` set l") (simp_all only: zput_def map_of_put map_of_snoc if_True if_False fun_upd_def simp_thms)
qed

lemma zput_map_fst: "map fst (map (\<lambda>(m', s'). if m' = m then (m, s) else (m', s')) l) = map fst l"
  by (induction l) auto

lemma zput_keys: "fst ` set (zput m s l) = insert m (fst ` set l)"
  by (simp add: dom_map_of_conv_image_fst [symmetric] zput_lookup)

lemma zput_distinct: "distinct (map fst l) \<Longrightarrow> distinct (map fst (zput m s l))"
  unfolding zput_def by (cases "m \<in> fst ` set l") (simp_all only: zput_map_fst if_True if_False, simp)

section \<open>Indexing and claiming\<close>

definition expire_zset_key :: string where
  "expire_zset_key = ''seckill:order:expire''"

definition unix_milli :: "int \<Rightarrow> int" where
  "unix_milli t = t div 10 ^ 6"

definition index_order :: "string \<Rightarrow> int \<Rightarrow> world \<Rightarrow> (go_error + unit) \<times> world" where
  "index_order oid expires_at w = (case on_redis (zadd expire_zset_key (unix_milli expires_at) oid) w of
       (Inl e, w') \<Rightarrow> (Inl e, w') | (Inr _, w') \<Rightarrow> (Inr (), w'))"

definition claim_due_script :: "string \<Rightarrow> int \<Rightarrow> int \<Rightarrow> int \<Rightarrow> redis \<Rightarrow> (go_error + string list) \<times> redis" where
  "claim_due_script k now batch new_score r = (case zset_at k r of
       Inl e \<Rightarrow> (Inl e, r)
     | Inr l \<Rightarrow> (let due = zrange_due now batch l in
         (Inr due, if due = [] then r else rmodify k (RZSet (fold (\<lambda>m. zput m new_score) due l)) r)))"

definition claim_due :: "int \<Rightarrow> int \<Rightarrow> int \<Rightarrow> world \<Rightarrow> (go_error + string list) \<times> world" where
  "claim_due now batch extension w =
     on_redis (claim_due_script expire_zset_key (unix_milli now) batch (unix_milli (now + extension))) w"

text \<open>The abstract view: the score of each member.\<close>

definition scores :: "string \<Rightarrow> redis \<Rightarrow> string \<rightharpoonup> int" where
  "scores k r = (case zset_at k r of Inl _ \<Rightarrow> Map.empty | Inr l \<Rightarrow> map_of l)"

definition zset_ok :: "string \<Rightarrow> redis \<Rightarrow> bool" where
  "zset_ok k r \<longleftrightarrow> (case zset_at k r of Inl _ \<Rightarrow> False | Inr l \<Rightarrow> distinct (map fst l))"

lemma fold_zput:
  "distinct (map fst l) \<Longrightarrow> distinct (map fst (fold (\<lambda>m. zput m s) ms l))
     \<and> map_of (fold (\<lambda>m. zput m s) ms l) = (\<lambda>m. if m \<in> set ms then Some s else map_of l m)"
proof (induction ms arbitrary: l)
  case (Cons m ms)
  then show ?case using zput_distinct [OF Cons.prems, of m s] by (auto simp: zput_lookup fun_eq_iff)
qed simp

lemma zrange_due_set:
  assumes "distinct (map fst l)"
  shows "distinct (zrange_due now n l)" "set (zrange_due now n l) \<subseteq> {m. \<exists>s \<le> now. map_of l m = Some s}"
    "0 \<le> n \<Longrightarrow> length (zrange_due now n l) \<le> nat n"
    "n < 0 \<or> length l \<le> nat n \<Longrightarrow> set (zrange_due now n l) = {m. \<exists>s \<le> now. map_of l m = Some s}"
proof -
  let ?f = "filter (\<lambda>(_, s). s \<le> now) l"
  let ?z = "map (\<lambda>(m, s). ZMember s m) ?f"
  have sub: "distinct (map fst ?f)" using assms by (simp add: distinct_map_filter)
  have mz: "map z_name ?z = map fst ?f" by (induction l) auto
  have "mset (map z_name (sort ?z)) = mset (map fst ?f)" by (metis mset_map mset_sort mz)
  then have d: "distinct (map z_name (sort ?z))" "set (map z_name (sort ?z)) = fst ` set ?f"
    "length (map z_name (sort ?z)) = length ?f"
    using sub by (metis mset_eq_imp_distinct_iff, metis list.set_map mset_eq_setD, metis length_map length_sort)
  have k: "fst ` set ?f = {m. \<exists>s \<le> now. map_of l m = Some s}"
    using assms by (force simp: map_of_eq_Some_iff)
  show "distinct (zrange_due now n l)" using d(1) by (simp add: zrange_due_def Let_def)
  show "set (zrange_due now n l) \<subseteq> {m. \<exists>s \<le> now. map_of l m = Some s}"
    using d(2) k set_take_subset [of "nat n" "map z_name (sort ?z)"] by (auto simp: zrange_due_def Let_def)
  show "0 \<le> n \<Longrightarrow> length (zrange_due now n l) \<le> nat n" by (simp add: zrange_due_def Let_def)
  show "set (zrange_due now n l) = {m. \<exists>s \<le> now. map_of l m = Some s}" if "n < 0 \<or> length l \<le> nat n"
  proof -
    have "length (map z_name (sort ?z)) \<le> nat n" if "0 \<le> n"
      using that \<open>n < 0 \<or> length l \<le> nat n\<close> d(3) by (auto intro: order_trans [OF length_filter_le])
    then have "zrange_due now n l = map z_name (sort ?z)"
      unfolding zrange_due_def Let_def by (cases "n < 0") (simp_all only: if_True if_False take_all not_less simp_thms not_le if_cancel)
    then show ?thesis using d(2) k by simp
  qed
qed

text \<open>A batch is the earliest of what is due: nothing due was passed over for something later.\<close>

lemma zrange_due_earliest:
  assumes "distinct (map fst l)" "m \<in> set (zrange_due now n l)" "map_of l m = Some s"
    "map_of l m' = Some s'" "s' \<le> now" "m' \<notin> set (zrange_due now n l)"
  shows "s \<le> s'"
proof -
  let ?z = "sort (map (\<lambda>(m, s). ZMember s m) (filter (\<lambda>(_, s). s \<le> now) l))"
  have at: "z_name (?z ! i) = x \<Longrightarrow> i < length ?z \<Longrightarrow> map_of l x = Some (z_score (?z ! i))" for i x
    using nth_mem [of i ?z] assms(1) by (auto simp: map_of_eq_Some_iff)
  have n: "0 \<le> n" "zrange_due now n l = take (nat n) (map z_name ?z)"
  proof -
    show "0 \<le> n"
      using assms(1,4-6) zrange_due_set(4) [of l n now] by (cases "n < 0") auto
    then show "zrange_due now n l = take (nat n) (map z_name ?z)" by (simp add: zrange_due_def Let_def)
  qed
  have m'all: "m' \<in> set (map z_name ?z)"
    using assms(4,5) by (force dest: map_of_SomeD)
  obtain i where i: "i < length ?z" "i < nat n" "z_name (?z ! i) = m"
    using assms(2) unfolding n(2) in_set_conv_nth by auto
  obtain j where j: "j < length ?z" "z_name (?z ! j) = m'"
    using m'all unfolding in_set_conv_nth by auto
  have "\<not> j < nat n"
  proof
    assume "j < nat n"
    then have "m' = take (nat n) (map z_name ?z) ! j" using j by simp
    moreover have "j < length (take (nat n) (map z_name ?z))" using j \<open>j < nat n\<close> by simp
    ultimately show False using assms(6) unfolding n(2) by (metis nth_mem)
  qed
  then have "?z ! i \<le> ?z ! j" using i j by (intro sorted_nth_mono) auto
  then have "z_score (?z ! i) \<le> z_score (?z ! j)" by (auto simp: less_eq_zmember_def)
  then show ?thesis using at [OF i(3,1)] at [OF j(2,1)] assms(3,4) by simp
qed

lemma claim_due_abs:
  assumes "zset_ok k r" "claim_due_script k now batch new_score r = (x, r')"
  shows "\<exists>ms. x = Inr ms \<and> zset_ok k r' \<and> scores k r' = (\<lambda>m. if m \<in> set ms then Some new_score else scores k r m)
    \<and> distinct ms \<and> (\<forall>m \<in> set ms. \<exists>s \<le> now. scores k r m = Some s) \<and> (0 \<le> batch \<longrightarrow> length ms \<le> nat batch)
    \<and> (\<forall>m s m' s'. m \<in> set ms \<longrightarrow> scores k r m = Some s \<longrightarrow> scores k r m' = Some s' \<longrightarrow> s' \<le> now
         \<longrightarrow> m' \<notin> set ms \<longrightarrow> s \<le> s')
    \<and> (\<forall>k'. k' \<noteq> k \<longrightarrow> rlookup r' k' = rlookup r k')"
proof -
  obtain l where l: "zset_at k r = Inr l" "distinct (map fst l)"
    using assms(1) by (auto simp: zset_ok_def split: sum.splits)
  let ?ms = "zrange_due now batch l"
  let ?l' = "fold (\<lambda>m. zput m new_score) ?ms l"
  have x: "x = Inr ?ms" and r': "r' = (if ?ms = [] then r else rmodify k (RZSet ?l') r)"
    using assms(2) l(1) by (auto simp: claim_due_script_def Let_def)
  have at: "zset_at k r' = Inr ?l'" using l(1) by (auto simp: r' zset_at_def)
  note f = fold_zput [OF l(2), of new_score ?ms] and z = zrange_due_set [OF l(2), where now = now and n = batch]
  have sc: "scores k r = map_of l" "scores k r' = (\<lambda>m. if m \<in> set ?ms then Some new_score else map_of l m)"
    using f l(1) at by (simp_all add: scores_def)
  have early: "s \<le> s'" if "m \<in> set ?ms" "map_of l m = Some s" "map_of l m' = Some s'" "s' \<le> now" "m' \<notin> set ?ms"
    for m s m' s'
    by (rule zrange_due_earliest [OF l(2) that])
  have frame: "rlookup r' k' = rlookup r k'" if "k' \<noteq> k" for k' using that by (simp add: r')
  have ok: "zset_ok k r'" using f at by (simp add: zset_ok_def)
  have due: "\<forall>m \<in> set ?ms. \<exists>s \<le> now. map_of l m = Some s" using z(2) by blast
  show ?thesis
    unfolding sc
  proof (intro exI [of _ ?ms] conjI)
    show "\<forall>m s m' s'. m \<in> set ?ms \<longrightarrow> map_of l m = Some s \<longrightarrow> map_of l m' = Some s' \<longrightarrow> s' \<le> now
         \<longrightarrow> m' \<notin> set ?ms \<longrightarrow> s \<le> s'"
      using early by blast
    show "\<forall>k'. k' \<noteq> k \<longrightarrow> rlookup r' k' = rlookup r k'" using frame by blast
    show "0 \<le> batch \<longrightarrow> length ?ms \<le> nat batch" using z(3) by blast
  qed (fact x ok refl z(1) due)+
qed

text \<open>
  C19: the claiming script refines its abstract specification on the scores alone: a batch of at
  most \<open>batchSize\<close> members, all due and none passed over for a later one, moves to the new score, and
  no other score and no other key changes.
\<close>

theorem claim_due_refines:
  assumes "zset_ok k r" "claim_due_script k now batch new_score r = (x, r')"
  shows "\<exists>ms. x = Inr ms \<and> zset_ok k r' \<and> scores k r' = (\<lambda>m. if m \<in> set ms then Some new_score else scores k r m)
    \<and> distinct ms \<and> (\<forall>m \<in> set ms. \<exists>s \<le> now. scores k r m = Some s) \<and> (0 \<le> batch \<longrightarrow> length ms \<le> nat batch)
    \<and> (\<forall>m s m' s'. m \<in> set ms \<longrightarrow> scores k r m = Some s \<longrightarrow> scores k r m' = Some s' \<longrightarrow> s' \<le> now
         \<longrightarrow> m' \<notin> set ms \<longrightarrow> s \<le> s')
    \<and> (\<forall>k'. k' \<noteq> k \<longrightarrow> rlookup r' k' = rlookup r k')"
  by (rule claim_due_abs [OF assms])

text \<open>Two of three due orders, the earlier ones, are claimed.\<close>

definition three_due :: redis where
  "three_due = \<lparr>rkeys = [expire_zset_key \<mapsto> \<lparr>rval = RZSet [(''c'', 30), (''a'', 10), (''b'', 20)], expires = None\<rparr>], rtime = 0\<rparr>"

lemma three_due_lookup: "rlookup three_due k = (if k = expire_zset_key then Some (RZSet [(''c'', 30), (''a'', 10), (''b'', 20)]) else None)"
  by (simp add: three_due_def rlookup_def)

lemma three_due_ok: "zset_ok expire_zset_key three_due"
  by (simp add: zset_ok_def zset_at_def three_due_lookup)

lemmas claim_simps = claim_due_script_def zset_at_def three_due_lookup zrange_due_def Let_def insort_key.simps
  less_eq_zmember_def

theorem claim_due_refines_witness:
  "\<exists>r'. claim_due_script expire_zset_key 50 2 90 three_due = (Inr [''a'', ''b''], r')
     \<and> scores expire_zset_key r' ''a'' = Some 90 \<and> scores expire_zset_key r' ''c'' = Some 30"
proof -
  obtain r' where r: "claim_due_script expire_zset_key 50 2 90 three_due = (Inr [''a'', ''b''], r')"
    by (simp add: claim_simps)
  have "scores expire_zset_key three_due ''c'' = Some 30"
    by (simp add: scores_def zset_at_def three_due_lookup)
  with claim_due_refines [OF three_due_ok r] show ?thesis using r by auto
qed

section \<open>Leases\<close>

text \<open>Claims one after the other, each with its instant, batch size and extension.\<close>

fun claim_all :: "(int \<times> int \<times> int) list \<Rightarrow> world \<Rightarrow> (go_error + string list) list \<times> world" where
  "claim_all [] w = ([], w)"
| "claim_all ((n, b, e) # cs) w = (case claim_due n b e w of (x, w1) \<Rightarrow>
     (case claim_all cs w1 of (xs, w2) \<Rightarrow> (x # xs, w2)))"

text \<open>One claim, whatever happens to the call: a member scored later than now is left alone.\<close>

lemma claim_due_skips:
  assumes "claim_due n b e w = (x, w')" "zset_ok expire_zset_key (wredis w)"
    "scores expire_zset_key (wredis w) m = Some s" "unix_milli n < s"
  shows "zset_ok expire_zset_key (wredis w') \<and> scores expire_zset_key (wredis w') m = Some s
    \<and> (\<forall>ms. x = Inr ms \<longrightarrow> m \<notin> set ms)"
proof -
  let ?c = "claim_due_script expire_zset_key (unix_milli n) b (unix_milli (n + e))"
  obtain y r where c: "?c (wredis w) = (y, r)" by fastforce
  from claim_due_abs [OF assms(2) c] obtain ms where ms: "y = Inr ms" "zset_ok expire_zset_key r"
    "scores expire_zset_key r = (\<lambda>m. if m \<in> set ms then Some (unix_milli (n + e)) else scores expire_zset_key (wredis w) m)"
    "\<forall>m \<in> set ms. \<exists>s \<le> unix_milli n. scores expire_zset_key (wredis w) m = Some s" by blast
  have m: "m \<notin> set ms" using ms(4) assms(3,4) by force
  then have r: "scores expire_zset_key r m = Some s" using ms(3) assms(3) by simp
  from on_redis_cases [OF assms(1) [unfolded claim_due_def]] c
  have "x = y \<and> wredis w' = r \<or> (\<exists>e. x = Inl e) \<and> (wredis w' = wredis w \<or> wredis w' = r)" by auto
  then show ?thesis using ms(1,2) m r assms(2,3) by auto
qed

lemma claim_due_ok:
  assumes "claim_due n b e w = (x, w')" "zset_ok expire_zset_key (wredis w)"
  shows "zset_ok expire_zset_key (wredis w')"
proof -
  let ?c = "claim_due_script expire_zset_key (unix_milli n) b (unix_milli (n + e))"
  from claim_due_abs [OF assms(2), of _ _ _ "fst (?c (wredis w))" "snd (?c (wredis w))"]
  have "zset_ok expire_zset_key (snd (?c (wredis w)))" by fastforce
  with on_redis_cases [OF assms(1) [unfolded claim_due_def]] assms(2) show ?thesis by auto
qed

lemma claim_all_ok:
  "claim_all cs w = (xs, w') \<Longrightarrow> zset_ok expire_zset_key (wredis w) \<Longrightarrow> zset_ok expire_zset_key (wredis w')"
proof (induction cs w arbitrary: xs rule: claim_all.induct)
  case (2 n b e cs w)
  then show ?case by (auto split: prod.splits dest: claim_due_ok)
qed simp

lemma claim_all_skips:
  assumes "claim_all cs w = (xs, w')" "zset_ok expire_zset_key (wredis w)"
    "scores expire_zset_key (wredis w) m = Some s" "\<forall>(n, b, e) \<in> set cs. unix_milli n < s"
  shows "zset_ok expire_zset_key (wredis w') \<and> scores expire_zset_key (wredis w') m = Some s"
  using assms
proof (induction cs w arbitrary: xs rule: claim_all.induct)
  case (2 n b e cs w)
  obtain x w1 ys where c: "claim_due n b e w = (x, w1)" "claim_all cs w1 = (ys, w')"
    using "2.prems"(1) by (auto split: prod.splits)
  from claim_due_skips [OF c(1) "2.prems"(2,3)] "2.prems"(4)
  have "zset_ok expire_zset_key (wredis w1)" "scores expire_zset_key (wredis w1) m = Some s" by auto
  from "2.IH" [OF c(1) [symmetric] c(2) this] "2.prems"(4) show ?case by simp
qed simp

lemma claim_due_Inr:
  assumes "claim_due n b e w = (Inr ms, w')" "zset_ok expire_zset_key (wredis w)"
  shows "zset_ok expire_zset_key (wredis w') \<and> (\<forall>m \<in> set ms. scores expire_zset_key (wredis w') m = Some (unix_milli (n + e)))
    \<and> distinct ms \<and> (\<forall>m \<in> set ms. \<exists>s \<le> unix_milli n. scores expire_zset_key (wredis w) m = Some s)"
proof -
  have "claim_due_script expire_zset_key (unix_milli n) b (unix_milli (n + e)) (wredis w) = (Inr ms, wredis w')"
    using on_redis_Inr [OF assms(1) [unfolded claim_due_def]] by simp
  from claim_due_abs [OF assms(2) this] show ?thesis by auto
qed

lemma unix_milli_mono: "s \<le> t \<Longrightarrow> unix_milli s \<le> unix_milli t"
  by (simp add: unix_milli_def zdiv_mono1)

text \<open>
  C32: two workers never hold the same order. However many other workers claim in between, and
  whatever calls are lost before or after their execution, an order that one claim returned is
  returned by no claim until the extension of its lease has passed.
\<close>

theorem claim_exclusive:
  assumes "zset_ok expire_zset_key (wredis w)"
    and "claim_due n1 b1 e1 w = (Inr ms1, w1)" "claim_all mid w1 = (xs, w2)" "claim_due n2 b2 e2 w2 = (Inr ms2, w3)"
    and "\<forall>(n, b, e) \<in> set mid. n \<le> n2" "unix_milli n2 < unix_milli (n1 + e1)"
  shows "set ms1 \<inter> set ms2 = {} \<and> distinct ms1 \<and> distinct ms2"
proof -
  note c1 = claim_due_Inr [OF assms(2,1)]
  have mid: "\<forall>(n, b, e) \<in> set mid. unix_milli n < unix_milli (n1 + e1)"
    using assms(5,6) unix_milli_mono by (fastforce intro: le_less_trans)
  have held: "zset_ok expire_zset_key (wredis w2) \<and> scores expire_zset_key (wredis w2) m = Some (unix_milli (n1 + e1))"
    if "m \<in> set ms1" for m
    using claim_all_skips [OF assms(3) _ _ mid] c1 that by blast
  have "m \<notin> set ms2" if "m \<in> set ms1" for m
    using claim_due_skips [OF assms(4) _ _ assms(6)] held [OF that] by blast
  moreover have "distinct ms2"
    using claim_due_Inr [OF assms(4)] claim_all_ok [OF assms(3)] c1 by blast
  ultimately show ?thesis using c1 by blast
qed

definition due_world :: world where
  "due_world = demo_world\<lparr>wredis := three_due\<rparr>"

text \<open>One worker claims two orders at 50 ms for 40 ms; another claims at 60 ms and gets the third.\<close>

theorem claim_exclusive_witness:
  "\<exists>w1 w3. claim_due (50 * 10 ^ 6) 2 (40 * 10 ^ 6) due_world = (Inr [''a'', ''b''], w1)
     \<and> claim_due (60 * 10 ^ 6) 9 (40 * 10 ^ 6) w1 = (Inr [''c''], w3)
     \<and> set [''a'', ''b''] \<inter> set [''c''] = {}"
proof -
  let ?w1 = "snd (claim_due (50 * 10 ^ 6) 2 (40 * 10 ^ 6) due_world)"
  let ?w3 = "snd (claim_due (60 * 10 ^ 6) 9 (40 * 10 ^ 6) ?w1)"
  have ok: "zset_ok expire_zset_key (wredis due_world)" using three_due_ok by (simp add: due_world_def)
  have c1: "claim_due (50 * 10 ^ 6) 2 (40 * 10 ^ 6) due_world = (Inr [''a'', ''b''], ?w1)"
    by (simp add: claim_due_def unix_milli_def on_redis_def next_fault_def due_world_def demo_world_def claim_simps)
  have c2: "claim_due (60 * 10 ^ 6) 9 (40 * 10 ^ 6) ?w1 = (Inr [''c''], ?w3)"
    by (simp add: claim_due_def unix_milli_def on_redis_def next_fault_def due_world_def demo_world_def claim_simps zput_def)
  have "set [''a'', ''b''] \<inter> set [''c''] = {}"
    using claim_exclusive [OF ok c1 claim_all.simps(1) c2] by (simp add: unix_milli_def)
  then show ?thesis using c1 c2 by blast
qed

text \<open>
  C25: no order is lost by a worker that claims it and dies. If nobody removes it, once its lease has
  passed the next claim whose batch has room returns it again.
\<close>

theorem claim_returns_after_lease:
  assumes "zset_ok expire_zset_key (wredis w)"
    and "claim_due n1 b1 e1 w = (Inr ms1, w1)" "claim_all mid w1 = (xs, w2)" "claim_due n2 b2 e2 w2 = (Inr ms2, w3)"
    and "\<forall>(n, b, e) \<in> set mid. unix_milli n < unix_milli (n1 + e1)" "unix_milli (n1 + e1) \<le> unix_milli n2"
    and "int (card (dom (scores expire_zset_key (wredis w2)))) \<le> b2"
  shows "set ms1 \<subseteq> set ms2"
proof
  fix m assume m: "m \<in> set ms1"
  note c1 = claim_due_Inr [OF assms(2,1)]
  have s: "zset_ok expire_zset_key (wredis w2)" "scores expire_zset_key (wredis w2) m = Some (unix_milli (n1 + e1))"
    using claim_all_skips [OF assms(3) _ _ assms(5)] c1 m by blast+
  obtain l where l: "zset_at expire_zset_key (wredis w2) = Inr l" "distinct (map fst l)"
    using s(1) by (auto simp: zset_ok_def split: sum.splits)
  have sc: "scores expire_zset_key (wredis w2) = map_of l" using l by (simp add: scores_def)
  have "length l = card (dom (map_of l))"
    using l(2) by (metis distinct_card dom_map_of_conv_image_fst length_map set_map)
  then have b: "length l \<le> nat b2" using assms(7) sc by simp
  have "ms2 = zrange_due (unix_milli n2) b2 l"
    using on_redis_Inr [OF assms(4) [unfolded claim_due_def]] l(1) by (auto simp: claim_due_script_def Let_def)
  then show "m \<in> set ms2"
    using zrange_due_set(4) [OF l(2), where n = b2 and now = "unix_milli n2"] b s(2) sc assms(6) by auto
qed

theorem claim_returns_after_lease_witness:
  "\<exists>w1 ms w3. claim_due (50 * 10 ^ 6) 2 (40 * 10 ^ 6) due_world = (Inr [''a'', ''b''], w1)
     \<and> claim_due (90 * 10 ^ 6) 9 (40 * 10 ^ 6) w1 = (Inr ms, w3) \<and> ''a'' \<in> set ms"
proof -
  let ?w1 = "snd (claim_due (50 * 10 ^ 6) 2 (40 * 10 ^ 6) due_world)"
  have ok: "zset_ok expire_zset_key (wredis due_world)" using three_due_ok by (simp add: due_world_def)
  have c1: "claim_due (50 * 10 ^ 6) 2 (40 * 10 ^ 6) due_world = (Inr [''a'', ''b''], ?w1)"
    by (simp add: claim_due_def unix_milli_def on_redis_def next_fault_def due_world_def demo_world_def claim_simps)
  obtain ms w3 where c2: "claim_due (90 * 10 ^ 6) 9 (40 * 10 ^ 6) ?w1 = (Inr ms, w3)"
    by (simp add: claim_due_def unix_milli_def on_redis_def next_fault_def due_world_def demo_world_def claim_simps zput_def)
  have "scores expire_zset_key (wredis ?w1) = [''c'' \<mapsto> 30, ''a'' \<mapsto> 90, ''b'' \<mapsto> 90]"
    by (simp add: claim_due_def unix_milli_def on_redis_def next_fault_def due_world_def demo_world_def claim_simps
        zput_def scores_def fun_eq_iff)
  then have card: "int (card (dom (scores expire_zset_key (wredis ?w1)))) \<le> 9" by (simp add: card_insert_if)
  have "set [''a'', ''b''] \<subseteq> set ms"
    by (rule claim_returns_after_lease [OF ok c1 claim_all.simps(1) c2 _ _ card]) (simp_all add: unix_milli_def)
  then show ?thesis using c1 c2 by auto
qed

end
