(* ===== verification/Closing.thy ===== *)
theory Closing
  imports Expire
begin

text \<open>
  Closing an expired order and giving its stock back (\<open>internal/expire/p2_close.go\<close>). The right to give
  the stock back is the changed row of one conditional update; other clients (a payment, other
  workers) act between the calls.
\<close>

section \<open>Statements\<close>

definition status_paid :: string where
  "status_paid = ''paid''"

definition status_closed :: string where
  "status_closed = ''closed''"

definition select_compensation :: "int \<Rightarrow> database \<Rightarrow> go_error + int \<times> int" where
  "select_compensation oid d = (case find (\<lambda>o'. o_id o' = oid) (orders d) of
       None \<Rightarrow> Inl SqlNoRows | Some o' \<Rightarrow> Inr (o_product o', o_quantity o'))"

text \<open>\<open>UPDATE orders SET status = ? WHERE id = ? AND status = ?\<close>, with the changed rows.\<close>

definition update_status :: "int \<Rightarrow> string \<Rightarrow> string \<Rightarrow> database \<Rightarrow> nat \<times> database" where
  "update_status oid old new d =
     (let hit = (\<lambda>o'. o_id o' = oid \<and> o_status o' = old) in
      (if new = old then 0 else length (filter hit (orders d)),
       d\<lparr>orders := map (\<lambda>o'. if hit o' then o'\<lparr>o_status := new\<rparr> else o') (orders d)\<rparr>))"

record close_result =
  cr_order :: int
  cr_product :: int
  cr_quantity :: int
  cr_rows :: nat

text \<open>\<open>env\<close> is what others do to the database between the read and the update.\<close>

definition close_created_order :: "(database \<Rightarrow> database) \<Rightarrow> int \<Rightarrow> world \<Rightarrow> (go_error + close_result) \<times> world" where
  "close_created_order env oid w =
     (case on_db (query (select_compensation oid)) w of
        (Inl e, w1) \<Rightarrow> (Inl e, w1)
      | (Inr (p, q), w1) \<Rightarrow>
        (case on_db (exec (update_status oid status_created status_closed)) (w1\<lparr>wdb := env (wdb w1)\<rparr>) of
           (Inl e, w2) \<Rightarrow> (Inl e, w2)
         | (Inr n, w2) \<Rightarrow> (Inr \<lparr>cr_order = oid, cr_product = p, cr_quantity = q, cr_rows = n\<rparr>, w2)))"

definition restore_closed_stock :: "close_result \<Rightarrow> world \<Rightarrow> (go_error + unit) \<times> world" where
  "restore_closed_stock res w = (if cr_rows res \<noteq> 1 then (Inr (), w)
     else rollback_pre_deduct (cr_product res) (cr_quantity res) w)"

definition remove_processed_expiry :: "int \<Rightarrow> world \<Rightarrow> (go_error + unit) \<times> world" where
  "remove_processed_expiry oid w = (case on_redis (zrem expire_zset_key (show_int oid)) w of
       (Inl e, w') \<Rightarrow> (Inl e, w') | (Inr _, w') \<Rightarrow> (Inr (), w'))"

text \<open>
  The close is two calls. A worker's read, and its update with the pair it read; with \<open>env\<close> in between they
  are \<open>CloseCreatedOrder\<close>.
\<close>

definition read_compensation :: "int \<Rightarrow> world \<Rightarrow> (go_error + int \<times> int) \<times> world" where
  "read_compensation oid w = on_db (query (select_compensation oid)) w"

definition try_close :: "int \<Rightarrow> int \<times> int \<Rightarrow> world \<Rightarrow> (go_error + close_result) \<times> world" where
  "try_close oid c w = (case on_db (exec (update_status oid status_created status_closed)) w of
       (Inl e, w') \<Rightarrow> (Inl e, w')
     | (Inr n, w') \<Rightarrow> (Inr \<lparr>cr_order = oid, cr_product = fst c, cr_quantity = snd c, cr_rows = n\<rparr>, w'))"

lemma close_in_two:
  "close_created_order env oid w = (case read_compensation oid w of
       (Inl e, w1) \<Rightarrow> (Inl e, w1)
     | (Inr c, w1) \<Rightarrow> try_close oid c (w1\<lparr>wdb := env (wdb w1)\<rparr>))"
  by (auto simp: close_created_order_def read_compensation_def try_close_def split: prod.splits sum.splits)

section \<open>The order's row\<close>

definition row :: "int \<Rightarrow> database \<Rightarrow> order option" where
  "row oid d = find (\<lambda>o'. o_id o' = oid) (orders d)"

lemma status_neq [simp]:
  "status_created \<noteq> status_closed" "status_closed \<noteq> status_created" "status_paid \<noteq> status_closed"
  "status_closed \<noteq> status_paid" "status_paid \<noteq> status_created" "status_created \<noteq> status_paid"
  by (simp_all add: status_created_def status_closed_def status_paid_def)

lemma status_upd_eq [simp]: "ord\<lparr>o_status := a\<rparr> = ord\<lparr>o_status := b\<rparr> \<longleftrightarrow> a = b"
  by (cases ord) simp

lemma map_hit_ids:
  "map o_id (map (\<lambda>o'. if P o' then o'\<lparr>o_status := new\<rparr> else o') os) = map o_id os"
  by simp

lemma update_status_row:
  assumes "distinct (map o_id (orders d))" "row oid d = Some ord" "update_status oid status_created status_closed d = (n, d')"
  shows "distinct (map o_id (orders d'))"
    "o_status ord = status_created \<Longrightarrow> n = 1 \<and> row oid d' = Some (ord\<lparr>o_status := status_closed\<rparr>)"
    "o_status ord \<noteq> status_created \<Longrightarrow> n = 0 \<and> row oid d' = Some ord"
proof -
  let ?hit = "\<lambda>o'. o_id o' = oid \<and> o_status o' = status_created"
  let ?os = "orders d"
  have d': "orders d' = map (\<lambda>o'. if ?hit o' then o'\<lparr>o_status := status_closed\<rparr> else o') ?os"
    "n = length (filter ?hit ?os)"
    using assms(3) by (auto simp: update_status_def Let_def)
  show "distinct (map o_id (orders d'))" using assms(1) unfolding d'(1) map_hit_ids .
  have gen: "(o_status ord = status_created \<longrightarrow> length (filter ?hit os) = 1 \<and>
        find (\<lambda>o'. o_id o' = oid) (map (\<lambda>o'. if ?hit o' then o'\<lparr>o_status := status_closed\<rparr> else o') os)
          = Some (ord\<lparr>o_status := status_closed\<rparr>)) \<and>
      (o_status ord \<noteq> status_created \<longrightarrow> length (filter ?hit os) = 0 \<and>
        find (\<lambda>o'. o_id o' = oid) (map (\<lambda>o'. if ?hit o' then o'\<lparr>o_status := status_closed\<rparr> else o') os) = Some ord)"
    if "distinct (map o_id os)" "find (\<lambda>o'. o_id o' = oid) os = Some ord" for os
    using that
  proof (induction os)
    case (Cons x xs)
    show ?case
    proof (cases "o_id x = oid")
      case True
      have "filter ?hit xs = []" using Cons.prems(1) True by (auto simp: filter_empty_conv) (metis image_eqI)
      with True Cons.prems(2) show ?thesis by (cases "o_status ord = status_created") auto
    next
      case False
      with Cons show ?thesis by simp
    qed
  qed simp
  show "o_status ord = status_created \<Longrightarrow> n = 1 \<and> row oid d' = Some (ord\<lparr>o_status := status_closed\<rparr>)"
    "o_status ord \<noteq> status_created \<Longrightarrow> n = 0 \<and> row oid d' = Some ord"
    using gen [OF assms(1) assms(2) [unfolded row_def]] by (simp_all add: row_def d')
qed

section \<open>What the calls do to the order and to the stock counter\<close>

lemma expire_key_neq [simp]: "stock_key p \<noteq> expire_zset_key" "expire_zset_key \<noteq> stock_key p"
  by (simp_all add: stock_key_def expire_zset_key_def)

lemma zrem_frame: "k' \<noteq> k \<Longrightarrow> counter (snd (zrem k m r)) k' = counter r k'"
  by (auto simp: zrem_def Let_def split: sum.splits)

lemma remove_frame:
  "remove_processed_expiry oid w = (x, w') \<Longrightarrow> wdb w' = wdb w
     \<and> counter (wredis w') (stock_key p) = counter (wredis w) (stock_key p)"
  by (auto simp: remove_processed_expiry_def zrem_frame split: prod.splits sum.splits dest!: on_redis_cases)

lemma read_frame:
  assumes "read_compensation (o_id ord) w = (x, w')" "row (o_id ord) (wdb w) = Some (ord\<lparr>o_status := st\<rparr>)"
  shows "wdb w' = wdb w" "wredis w' = wredis w" "x = Inr c \<Longrightarrow> c = (o_product ord, o_quantity ord)"
  using assms on_db_query_any [OF assms(1) [unfolded read_compensation_def]]
  by (auto simp: select_compensation_def row_def)

text \<open>The update: its changed rows are the right to give the stock back, and only a created order grants it.\<close>

lemma try_close_cases:
  assumes "try_close (o_id ord) c w = (x, w')"
    and "distinct (map o_id (orders (wdb w)))" "row (o_id ord) (wdb w) = Some (ord\<lparr>o_status := st\<rparr>)"
  shows "wredis w' = wredis w \<and> distinct (map o_id (orders (wdb w'))) \<and>
    (\<exists>st'. row (o_id ord) (wdb w') = Some (ord\<lparr>o_status := st'\<rparr>) \<and>
      (case x of
         Inl _ \<Rightarrow> st' = st \<or> st = status_created \<and> st' = status_closed
       | Inr res \<Rightarrow> cr_product res = fst c \<and> cr_quantity res = snd c \<and>
           (cr_rows res = 1 \<and> st = status_created \<and> st' = status_closed \<or>
            cr_rows res = 0 \<and> st \<noteq> status_created \<and> st' = st)))"
proof -
  let ?u = "update_status (o_id ord) status_created status_closed"
  obtain z where z: "on_db (exec ?u) w = (z, w')" and x: "x = map_sum id (\<lambda>n. \<lparr>cr_order = o_id ord,
      cr_product = fst c, cr_quantity = snd c, cr_rows = n\<rparr>) z"
    using assms(1) by (auto simp: try_close_def split: prod.splits sum.splits)
  obtain n d where u: "?u (wdb w) = (n, d)" by fastforce
  note us = update_status_row [OF assms(2,3) u]
  define st2 where "st2 = (if st = status_created then status_closed else st)"
  have d: "distinct (map o_id (orders d))" "row (o_id ord) d = Some (ord\<lparr>o_status := st2\<rparr>)"
    "n = (if st = status_created then 1 else 0)"
    using us by (simp_all add: st2_def split: if_splits)
  have frame: "wredis w' = wredis w" using on_db_cases [OF z] by simp
  from on_db_cases [OF z] u consider "z = Inr n" "wdb w' = d" | e where "z = Inl e" "wdb w' = wdb w"
    | e where "z = Inl e" "wdb w' = d" by (auto simp: exec_def)
  then show ?thesis
  proof cases
    case 1
    then show ?thesis using frame d x by (intro conjI exI [of _ st2]) (auto simp: st2_def)
  next
    case 2
    then show ?thesis using frame assms(2,3) x by (intro conjI exI [of _ st]) auto
  next
    case 3
    then show ?thesis using frame d x by (intro conjI exI [of _ st2]) (auto simp: st2_def)
  qed
qed

text \<open>The restoring call: without the right it does nothing, with it the counter gains the quantity or stays.\<close>

lemma restore_cases:
  assumes "restore_closed_stock res w = (x, w')" "counter (wredis w) (stock_key (cr_product res)) = Some m"
  shows "wdb w' = wdb w \<and>
    (if cr_rows res = 1
     then counter (wredis w') (stock_key (cr_product res)) \<in> {Some m, Some (m + cr_quantity res)}
     else w' = w \<and> x = Inr ())"
proof (cases "cr_rows res = 1")
  case True
  let ?k = "stock_key (cr_product res)"
  obtain v where v: "on_redis (rollback_script ?k (cr_quantity res)) w = (v, w')"
    using assms(1) True by (auto simp: restore_closed_stock_def rollback_pre_deduct_def split: prod.splits sum.splits)
  obtain y r where r: "rollback_script ?k (cr_quantity res) (wredis w) = (y, r)" by fastforce
  have "counter r ?k \<in> {Some m, Some (m + cr_quantity res)}"
    using rollback_script_cases [OF r] assms(2) by auto
  then show ?thesis using True on_redis_cases [OF v] r assms(2) by auto
qed (use assms(1) in \<open>simp add: restore_closed_stock_def\<close>)

lemma restore_calm:
  assumes "calm w" "cr_rows res = 1" "counter (wredis w) (stock_key (cr_product res)) = Some m"
    and "fits_int64 (m + cr_quantity res)"
  shows "\<exists>w'. restore_closed_stock res w = (Inr (), w') \<and> wdb w' = wdb w
     \<and> counter (wredis w') (stock_key (cr_product res)) = Some (m + cr_quantity res)"
proof -
  let ?k = "stock_key (cr_product res)"
  obtain v w' where v: "on_redis (rollback_script ?k (cr_quantity res)) w = (v, w')" by fastforce
  have r: "v = Inr (m + cr_quantity res)" "wredis w' = rmodify ?k (RString (Num (m + cr_quantity res))) (wredis w)"
    using on_redis_calm [OF v assms(1)] incrby_counter [OF assms(3,4)] by (simp_all add: rollback_script_def)
  have "counter (wredis w') ?k = Some (m + cr_quantity res)" by (simp add: r(2))
  moreover have "wdb w' = wdb w" using on_redis_cases [OF v] by simp
  moreover have "restore_closed_stock res w = (Inr (), w')"
    using v r(1) assms(2) by (simp add: restore_closed_stock_def rollback_pre_deduct_def)
  ultimately show ?thesis by blast
qed

section \<open>The workers\<close>

text \<open>
  Any number of workers handle the order \<open>ord\<close>, each with what it has read (\<open>cs_read\<close>) and what its close answered
  (\<open>cs_won\<close>); every call runs under its own schedule of faults, and a worker may die at any time. A worker gives one close
  result to one restoring call: when that call fails it has no right to try again, since it cannot know whether it was
  executed. Others may pay or close the created order, and move the product's counter by amounts that \<open>cs_others\<close> adds up.
\<close>

record closing_sys =
  cs_world :: world
  cs_read :: "nat \<rightharpoonup> int \<times> int"
  cs_won :: "nat \<rightharpoonup> close_result"
  cs_others :: int

definition others_act :: "order \<Rightarrow> int \<Rightarrow> world \<Rightarrow> world \<Rightarrow> bool" where
  "others_act ord d w w' \<longleftrightarrow> distinct (map o_id (orders (wdb w')))
     \<and> (\<forall>st. row (o_id ord) (wdb w) = Some (ord\<lparr>o_status := st\<rparr>) \<longrightarrow>
          row (o_id ord) (wdb w') = Some (ord\<lparr>o_status := st\<rparr>)
          \<or> st = status_created \<and> (\<exists>st' \<in> {status_paid, status_closed}. row (o_id ord) (wdb w') = Some (ord\<lparr>o_status := st'\<rparr>)))
     \<and> (\<forall>m. counter (wredis w) (stock_key (o_product ord)) = Some m \<longrightarrow>
          counter (wredis w') (stock_key (o_product ord)) = Some (m + d))"

inductive closing_step :: "order \<Rightarrow> closing_sys \<Rightarrow> closing_sys \<Rightarrow> bool" for ord :: order where
  closing_read: "read_compensation (o_id ord) ((cs_world s)\<lparr>wfaults := fs\<rparr>) = (x, w') \<Longrightarrow>
     closing_step ord s (s\<lparr>cs_world := w', cs_read := (case x of Inl e \<Rightarrow> cs_read s | Inr c \<Rightarrow> (cs_read s)(i \<mapsto> c))\<rparr>)"
| closing_close: "cs_read s i = Some c \<Longrightarrow> cs_won s i = None \<Longrightarrow>
     try_close (o_id ord) c ((cs_world s)\<lparr>wfaults := fs\<rparr>) = (x, w') \<Longrightarrow>
     closing_step ord s (s\<lparr>cs_world := w', cs_read := (cs_read s)(i := None),
       cs_won := (case x of Inl e \<Rightarrow> cs_won s | Inr res \<Rightarrow> (cs_won s)(i \<mapsto> res))\<rparr>)"
| closing_restore: "cs_won s i = Some res \<Longrightarrow> restore_closed_stock res ((cs_world s)\<lparr>wfaults := fs\<rparr>) = (x, w') \<Longrightarrow>
     closing_step ord s (s\<lparr>cs_world := w', cs_won := (cs_won s)(i := None)\<rparr>)"
| closing_remove: "remove_processed_expiry (o_id ord) ((cs_world s)\<lparr>wfaults := fs\<rparr>) = (x, w') \<Longrightarrow>
     closing_step ord s (s\<lparr>cs_world := w'\<rparr>)"
| closing_dies: "closing_step ord s (s\<lparr>cs_read := (cs_read s)(i := None), cs_won := (cs_won s)(i := None)\<rparr>)"
| closing_others: "others_act ord d (cs_world s) w' \<Longrightarrow>
     closing_step ord s (s\<lparr>cs_world := w', cs_others := cs_others s + d\<rparr>)"

inductive_cases closing_stepE: "closing_step ord s s'"

text \<open>
  The invariant for the initial counter \<open>n\<close>: what is in hand is about this order; nobody holds the right before the order
  is closed, at most one worker does after, and none once the counter has gained the quantity.
\<close>

definition winners :: "closing_sys \<Rightarrow> nat set" where
  "winners s = {i. \<exists>res. cs_won s i = Some res \<and> cr_rows res = 1}"

definition hands_fit :: "order \<Rightarrow> closing_sys \<Rightarrow> bool" where
  "hands_fit ord s \<longleftrightarrow> (\<forall>i c. cs_read s i = Some c \<longrightarrow> c = (o_product ord, o_quantity ord))
     \<and> (\<forall>i res. cs_won s i = Some res \<longrightarrow> cr_product res = o_product ord \<and> cr_quantity res = o_quantity ord)"

definition given_ok :: "order \<Rightarrow> int \<Rightarrow> closing_sys \<Rightarrow> string \<Rightarrow> bool" where
  "given_ok ord n s st \<longleftrightarrow> (let c = counter (wredis (cs_world s)) (stock_key (o_product ord)); m = n + cs_others s in
       st \<in> {status_created, status_paid} \<and> winners s = {} \<and> c = Some m
     \<or> st = status_closed \<and> (\<exists>i. winners s \<subseteq> {i}) \<and> c = Some m
     \<or> st = status_closed \<and> winners s = {} \<and> c = Some (m + o_quantity ord))"

definition closing_inv :: "order \<Rightarrow> int \<Rightarrow> closing_sys \<Rightarrow> bool" where
  "closing_inv ord n s \<longleftrightarrow> distinct (map o_id (orders (wdb (cs_world s)))) \<and> hands_fit ord s
     \<and> (\<exists>st. row (o_id ord) (wdb (cs_world s)) = Some (ord\<lparr>o_status := st\<rparr>) \<and> given_ok ord n s st)"

lemma closing_invE:
  assumes "closing_inv ord n s"
  obtains st where "distinct (map o_id (orders (wdb (cs_world s))))" "hands_fit ord s"
    "row (o_id ord) (wdb (cs_world s)) = Some (ord\<lparr>o_status := st\<rparr>)" "given_ok ord n s st"
  using assms by (auto simp: closing_inv_def)

lemma given_status: "given_ok ord n s st \<Longrightarrow> st \<in> {status_created, status_paid, status_closed}"
  by (auto simp: given_ok_def Let_def)

lemma given_counter: "given_ok ord n s st \<Longrightarrow> \<exists>m. counter (wredis (cs_world s)) (stock_key (o_product ord)) = Some m"
  by (auto simp: given_ok_def Let_def)

text \<open>Fewer winners, the same stores: the bookkeeping holds on.\<close>

lemma given_fewer:
  assumes "given_ok ord n s st" "winners s' \<subseteq> winners s" "cs_others s' = cs_others s"
    and "counter (wredis (cs_world s')) (stock_key (o_product ord)) = counter (wredis (cs_world s)) (stock_key (o_product ord))"
  shows "given_ok ord n s' st"
  using assms by (auto simp: given_ok_def Let_def)

lemma closing_close_inv:
  assumes "cs_read s i = Some c" "cs_won s i = None" "try_close (o_id ord) c ((cs_world s)\<lparr>wfaults := fs\<rparr>) = (x, w')"
    and "closing_inv ord n s"
  shows "closing_inv ord n (s\<lparr>cs_world := w', cs_read := (cs_read s)(i := None),
       cs_won := (case x of Inl e \<Rightarrow> cs_won s | Inr res \<Rightarrow> (cs_won s)(i \<mapsto> res))\<rparr>)" (is "closing_inv ord n ?s'")
proof -
  obtain st where inv: "distinct (map o_id (orders (wdb (cs_world s))))" "hands_fit ord s"
    "row (o_id ord) (wdb (cs_world s)) = Some (ord\<lparr>o_status := st\<rparr>)" "given_ok ord n s st"
    using closing_invE [OF assms(4)] .
  obtain st' where t: "wredis w' = wredis (cs_world s)" "distinct (map o_id (orders (wdb w')))"
    "row (o_id ord) (wdb w') = Some (ord\<lparr>o_status := st'\<rparr>)"
    "case x of Inl _ \<Rightarrow> st' = st \<or> st = status_created \<and> st' = status_closed
       | Inr res \<Rightarrow> cr_product res = fst c \<and> cr_quantity res = snd c \<and>
           (cr_rows res = 1 \<and> st = status_created \<and> st' = status_closed \<or>
            cr_rows res = 0 \<and> st \<noteq> status_created \<and> st' = st)"
    using try_close_cases [OF assms(3)] inv(1,3) by auto
  have c: "c = (o_product ord, o_quantity ord)"
    using inv(2) assms(1) unfolding hands_fit_def by blast
  have hands: "hands_fit ord ?s'"
    using inv(2) t(4) c by (auto simp: hands_fit_def split: sum.splits)
  have "given_ok ord n ?s' st'"
  proof (cases x)
    case (Inl e)
    then have "winners ?s' = winners s" by (simp add: winners_def)
    then show ?thesis using inv(4) t(1,4) Inl by (auto simp: given_ok_def Let_def)
  next
    case (Inr res)
    show ?thesis
    proof (cases "cr_rows res = 1")
      case True
      then have "winners s = {}" using inv(4) t(4) Inr by (auto simp: given_ok_def Let_def)
      then have "winners ?s' \<subseteq> {i}" using Inr by (auto simp: winners_def split: if_splits)
      then show ?thesis using inv(4) t(1,4) Inr True by (auto simp: given_ok_def Let_def)
    next
      case False
      then have "winners ?s' \<subseteq> winners s" using Inr by (auto simp: winners_def split: if_splits)
      from given_fewer [OF inv(4) this] t(1,4) Inr False show ?thesis by simp
    qed
  qed
  then show ?thesis using t(2,3) hands by (auto simp: closing_inv_def)
qed

lemma closing_restore_inv:
  assumes "cs_won s i = Some res" "restore_closed_stock res ((cs_world s)\<lparr>wfaults := fs\<rparr>) = (x, w')" "closing_inv ord n s"
  shows "closing_inv ord n (s\<lparr>cs_world := w', cs_won := (cs_won s)(i := None)\<rparr>)" (is "closing_inv ord n ?s'")
proof -
  obtain st where inv: "distinct (map o_id (orders (wdb (cs_world s))))" "hands_fit ord s"
    "row (o_id ord) (wdb (cs_world s)) = Some (ord\<lparr>o_status := st\<rparr>)" "given_ok ord n s st"
    using closing_invE [OF assms(3)] .
  have r: "cr_product res = o_product ord" "cr_quantity res = o_quantity ord"
    using inv(2) assms(1) by (auto simp: hands_fit_def)
  obtain m where m: "counter (wredis (cs_world s)) (stock_key (o_product ord)) = Some m"
    using given_counter [OF inv(4)] by blast
  note rc = restore_cases [OF assms(2), of m]
  have sub: "winners ?s' \<subseteq> winners s" by (auto simp: winners_def split: if_splits)
  have "given_ok ord n ?s' st"
  proof (cases "cr_rows res = 1")
    case False
    then have "wredis w' = wredis (cs_world s)" using rc m r by simp
    then show ?thesis using given_fewer [OF inv(4) sub] by simp
  next
    case True
    then have i: "i \<in> winners s" using assms(1) by (simp add: winners_def)
    then have st: "st = status_closed" "counter (wredis (cs_world s)) (stock_key (o_product ord)) = Some (n + cs_others s)"
      and one: "winners s \<subseteq> {i}"
      using inv(4) by (auto simp: given_ok_def Let_def)
    have "winners ?s' = {}" using one by (auto simp: winners_def split: if_splits)
    then show ?thesis using rc m r True st by (auto simp: given_ok_def Let_def)
  qed
  moreover have "wdb w' = wdb (cs_world s)" using rc m r by simp
  moreover have "hands_fit ord ?s'" using inv(2) by (auto simp: hands_fit_def split: if_splits)
  ultimately show ?thesis using inv(1,3) by (auto simp: closing_inv_def)
qed

lemma closing_others_inv:
  assumes "others_act ord d (cs_world s) w'" "closing_inv ord n s"
  shows "closing_inv ord n (s\<lparr>cs_world := w', cs_others := cs_others s + d\<rparr>)" (is "closing_inv ord n ?s'")
proof -
  obtain st where inv: "distinct (map o_id (orders (wdb (cs_world s))))" "hands_fit ord s"
    "row (o_id ord) (wdb (cs_world s)) = Some (ord\<lparr>o_status := st\<rparr>)" "given_ok ord n s st"
    using closing_invE [OF assms(2)] .
  obtain st' where o: "row (o_id ord) (wdb w') = Some (ord\<lparr>o_status := st'\<rparr>)"
    "st' = st \<or> st = status_created \<and> st' \<in> {status_paid, status_closed}"
    using assms(1) inv(3) unfolding others_act_def by blast
  have k: "counter (wredis (cs_world s)) (stock_key (o_product ord)) = Some m \<Longrightarrow>
      counter (wredis w') (stock_key (o_product ord)) = Some (m + d)" for m
    using assms(1) by (simp add: others_act_def)
  have w: "winners ?s' = winners s" by (simp add: winners_def)
  have "given_ok ord n ?s' st'"
    using inv(4) o(2) w by (auto simp: given_ok_def Let_def dest: k)
  moreover have "hands_fit ord ?s'" using inv(2) by (simp add: hands_fit_def)
  moreover have "distinct (map o_id (orders (wdb w')))" using assms(1) by (simp add: others_act_def)
  ultimately show ?thesis using o(1) by (auto simp: closing_inv_def)
qed

lemma closing_step_inv:
  assumes "closing_step ord s s'" "closing_inv ord n s"
  shows "closing_inv ord n s'"
  using assms(1)
proof (cases rule: closing_step.cases)
  case (closing_read fs x w' i)
  obtain st where inv: "distinct (map o_id (orders (wdb (cs_world s))))" "hands_fit ord s"
    "row (o_id ord) (wdb (cs_world s)) = Some (ord\<lparr>o_status := st\<rparr>)" "given_ok ord n s st"
    using closing_invE [OF assms(2)] .
  note r = read_frame [OF closing_read(2), of st]
  have "winners s' = winners s" using closing_read(1) by (simp add: winners_def)
  then have "given_ok ord n s' st"
    using given_fewer [OF inv(4), of s'] closing_read(1) r(2) inv(3) by simp
  moreover have "hands_fit ord s'"
    using inv(2,3) closing_read(1) r(3) by (auto simp: hands_fit_def split: sum.splits)
  ultimately show ?thesis using inv(1,3) r(1) closing_read(1) by (auto simp: closing_inv_def)
next
  case (closing_close i c fs x w')
  then show ?thesis using closing_close_inv [OF closing_close(2-4) assms(2)] by simp
next
  case (closing_restore i res fs x w')
  then show ?thesis using closing_restore_inv [OF closing_restore(2,3) assms(2)] by simp
next
  case (closing_remove fs x w')
  from remove_frame [OF closing_remove(2), of "o_product ord"] assms(2) closing_remove(1) show ?thesis
    by (simp add: closing_inv_def given_ok_def winners_def hands_fit_def)
next
  case (closing_dies i)
  obtain st where inv: "distinct (map o_id (orders (wdb (cs_world s))))" "hands_fit ord s"
    "row (o_id ord) (wdb (cs_world s)) = Some (ord\<lparr>o_status := st\<rparr>)" "given_ok ord n s st"
    using closing_invE [OF assms(2)] .
  have "winners s' \<subseteq> winners s" using closing_dies by (auto simp: winners_def split: if_splits)
  from given_fewer [OF inv(4) this] have "given_ok ord n s' st" using closing_dies by simp
  moreover have "hands_fit ord s'" using inv(2) closing_dies by (auto simp: hands_fit_def split: if_splits)
  ultimately show ?thesis using inv(1,3) closing_dies by (auto simp: closing_inv_def)
next
  case (closing_others d w')
  then show ?thesis using closing_others_inv [OF closing_others(2) assms(2)] by simp
qed

lemma closing_reach_inv: "(closing_step ord)\<^sup>*\<^sup>* s s' \<Longrightarrow> closing_inv ord n s \<Longrightarrow> closing_inv ord n s'"
  by (induction rule: rtranclp_induct) (auto dest: closing_step_inv)

definition closing_start :: "world \<Rightarrow> closing_sys" where
  "closing_start w = \<lparr>cs_world = w, cs_read = Map.empty, cs_won = Map.empty, cs_others = 0\<rparr>"

lemma order_self: "o_status ord = st \<Longrightarrow> ord\<lparr>o_status := st\<rparr> = ord"
  by (cases ord) simp

lemma closing_start_inv:
  assumes "distinct (map o_id (orders (wdb w)))" "row (o_id ord) (wdb w) = Some ord"
    and "o_status ord \<in> {status_created, status_paid, status_closed}"
    and "counter (wredis w) (stock_key (o_product ord)) = Some n"
  shows "closing_inv ord n (closing_start w)"
proof -
  have "row (o_id ord) (wdb w) = Some (ord\<lparr>o_status := o_status ord\<rparr>)" using assms(2) order_self [OF refl, of ord] by simp
  moreover have "given_ok ord n (closing_start w) (o_status ord)"
    using assms(3,4) by (auto simp: given_ok_def closing_start_def winners_def)
  moreover have "hands_fit ord (closing_start w)" "cs_world (closing_start w) = w" by (simp_all add: hands_fit_def closing_start_def)
  ultimately show ?thesis using assms(1) unfolding closing_inv_def by metis
qed

text \<open>A worker alone, whose calls all answer.\<close>

lemma close_calm:
  assumes "calm w" "distinct (map o_id (orders (wdb w)))" "row (o_id ord) (wdb w) = Some (ord\<lparr>o_status := st\<rparr>)"
  shows "\<exists>res w'. close_created_order (\<lambda>d. d) (o_id ord) w = (Inr res, w') \<and> calm w' \<and> wredis w' = wredis w
     \<and> cr_product res = o_product ord \<and> cr_quantity res = o_quantity ord
     \<and> (cr_rows res = 1 \<and> st = status_created \<and> row (o_id ord) (wdb w') = Some (ord\<lparr>o_status := status_closed\<rparr>)
        \<or> cr_rows res = 0 \<and> st \<noteq> status_created \<and> row (o_id ord) (wdb w') = Some (ord\<lparr>o_status := st\<rparr>))"
proof -
  obtain y w1 where y: "read_compensation (o_id ord) w = (y, w1)" by fastforce
  have 1: "y = Inr (o_product ord, o_quantity ord)" "calm w1" "wdb w1 = wdb w" "wredis w1 = wredis w"
    using on_db_calm [OF y [unfolded read_compensation_def] assms(1)] read_frame [OF y assms(3)] assms(3)
    by (auto simp: query_def select_compensation_def row_def)
  obtain x w2 where x: "try_close (o_id ord) (o_product ord, o_quantity ord) w1 = (x, w2)" by fastforce
  obtain z where z: "on_db (exec (update_status (o_id ord) status_created status_closed)) w1 = (z, w2)"
    and xz: "x = Inl e \<Longrightarrow> z = Inl e" for e
    using x by (auto simp: try_close_def split: prod.splits sum.splits)
  have "calm w2" "\<exists>n. z = Inr n" using on_db_calm [OF z 1(2)] by (auto simp: exec_def)
  then obtain res where res: "x = Inr res" using xz by (cases x) auto
  have "w1\<lparr>wdb := wdb w1\<rparr> = w1" by simp
  then have "close_created_order (\<lambda>d. d) (o_id ord) w = (Inr res, w2)"
    using y 1(1) x res by (simp add: close_in_two)
  then show ?thesis
    using try_close_cases [OF x, of st] 1 assms(2,3) res \<open>calm w2\<close> by (intro exI [of _ res] exI [of _ w2]) auto
qed

text \<open>Once the order is closed and nobody holds the right, no step gives anything back.\<close>

definition stays_closed :: "order \<Rightarrow> int \<Rightarrow> closing_sys \<Rightarrow> bool" where
  "stays_closed ord n s \<longleftrightarrow> distinct (map o_id (orders (wdb (cs_world s))))
     \<and> row (o_id ord) (wdb (cs_world s)) = Some (ord\<lparr>o_status := status_closed\<rparr>)
     \<and> (\<forall>i res. cs_won s i = Some res \<longrightarrow> cr_rows res \<noteq> 1)
     \<and> counter (wredis (cs_world s)) (stock_key (o_product ord)) = Some (n + cs_others s)"

lemma stays_closed_step:
  assumes "closing_step ord s s'" "stays_closed ord n s"
  shows "stays_closed ord n s'"
proof -
  have inv: "distinct (map o_id (orders (wdb (cs_world s))))"
    "row (o_id ord) (wdb (cs_world s)) = Some (ord\<lparr>o_status := status_closed\<rparr>)"
    "\<And>i res. cs_won s i = Some res \<Longrightarrow> cr_rows res \<noteq> 1"
    "counter (wredis (cs_world s)) (stock_key (o_product ord)) = Some (n + cs_others s)"
    using assms(2) by (simp_all add: stays_closed_def)
  show ?thesis
    using assms(1)
  proof (cases rule: closing_step.cases)
    case (closing_read fs x w' i)
    then show ?thesis using read_frame [OF closing_read(2), of status_closed] inv by (simp add: stays_closed_def)
  next
    case (closing_close i c fs x w')
    from try_close_cases [OF closing_close(4), of status_closed] inv(1,2) obtain st' where
      t: "wredis w' = wredis (cs_world s)" "distinct (map o_id (orders (wdb w')))"
      "row (o_id ord) (wdb w') = Some (ord\<lparr>o_status := st'\<rparr>)" "st' = status_closed \<and> (\<forall>res. x = Inr res \<longrightarrow> cr_rows res = 0)"
      by (cases x) auto
    then show ?thesis using closing_close(1) inv by (auto simp: stays_closed_def split: sum.splits if_splits)
  next
    case (closing_restore i res fs x w')
    then have "w' = (cs_world s)\<lparr>wfaults := fs\<rparr>" using inv(3) by (simp add: restore_closed_stock_def)
    then show ?thesis using closing_restore(1) inv by (auto simp: stays_closed_def split: if_splits)
  next
    case (closing_remove fs x w')
    then show ?thesis using remove_frame [OF closing_remove(2), of "o_product ord"] inv by (simp add: stays_closed_def)
  next
    case (closing_dies i)
    then show ?thesis using inv by (auto simp: stays_closed_def split: if_splits)
  next
    case (closing_others d w')
    then have "row (o_id ord) (wdb w') = Some (ord\<lparr>o_status := status_closed\<rparr>)" "distinct (map o_id (orders (wdb w')))"
      "counter (wredis w') (stock_key (o_product ord)) = Some (n + cs_others s + d)"
      using inv(2,4) unfolding others_act_def by auto
    then show ?thesis using closing_others(1) inv(3) by (simp add: stays_closed_def add.assoc)
  qed
qed

lemma stays_closed_reach: "(closing_step ord)\<^sup>*\<^sup>* s s' \<Longrightarrow> stays_closed ord n s \<Longrightarrow> stays_closed ord n s'"
  by (induction rule: rtranclp_induct) (auto dest: stays_closed_step)

lemma stays_closed_later:
  assumes "stays_closed ord n s" "close_created_order (\<lambda>d. d) (o_id ord) (cs_world s) = (Inr res, w')"
  shows "cr_rows res = 0"
proof -
  obtain w0 c where r: "read_compensation (o_id ord) (cs_world s) = (Inr c, w0)"
    and t: "try_close (o_id ord) c (w0\<lparr>wdb := wdb w0\<rparr>) = (Inr res, w')"
    using assms(2) by (auto simp: close_in_two split: prod.splits sum.splits)
  have "wdb w0 = wdb (cs_world s)" using on_db_query_any [OF r [unfolded read_compensation_def]] by simp
  then show ?thesis using try_close_cases [OF t, of status_closed] assms(1) by (auto simp: stays_closed_def)
qed

section \<open>Properties\<close>

text \<open>
  C18: the stock of an expired order is given back at most once. Start with an unpaid order, order ids that are unique, and a stock counter. However many workers read, close, restore and remove, in
  whatever interleaving, dying anywhere, with every call possibly lost or executed without an answer, while others pay or close the order
  between a worker's read and its update and move the counter by what \<open>cs_others\<close> adds up, and each worker hands a close result to one
  restoring call: an order that is not closed has given nothing back, and a closed one its quantity once or not at all. And in every
  state reached, a worker whose calls now answer, with nobody in between, closes an order that is still created and gives its
  quantity back.
\<close>

theorem closing_restores_at_most_once:
  assumes "(closing_step ord)\<^sup>*\<^sup>* (closing_start w) s"
    and "distinct (map o_id (orders (wdb w)))" "row (o_id ord) (wdb w) = Some ord" "o_status ord = status_created"
    and "counter (wredis w) (stock_key (o_product ord)) = Some n"
  shows "(\<exists>st. row (o_id ord) (wdb (cs_world s)) = Some (ord\<lparr>o_status := st\<rparr>) \<and>
       (st \<in> {status_created, status_paid} \<and> counter (wredis (cs_world s)) (stock_key (o_product ord)) = Some (n + cs_others s) \<or>
        st = status_closed \<and> counter (wredis (cs_world s)) (stock_key (o_product ord))
          \<in> {Some (n + cs_others s), Some (n + cs_others s + o_quantity ord)}))
    \<and> (row (o_id ord) (wdb (cs_world s)) = Some ord \<and> calm (cs_world s) \<and> fits_int64 (n + cs_others s + o_quantity ord) \<longrightarrow>
       (\<exists>res w1 w2. close_created_order (\<lambda>d. d) (o_id ord) (cs_world s) = (Inr res, w1)
          \<and> restore_closed_stock res w1 = (Inr (), w2)
          \<and> row (o_id ord) (wdb w2) = Some (ord\<lparr>o_status := status_closed\<rparr>)
          \<and> counter (wredis w2) (stock_key (o_product ord)) = Some (n + cs_others s + o_quantity ord)))"
proof -
  have inv: "closing_inv ord n s" by (rule closing_reach_inv [OF assms(1) closing_start_inv]) (use assms in simp_all)
  then obtain st where i: "distinct (map o_id (orders (wdb (cs_world s))))"
    "row (o_id ord) (wdb (cs_world s)) = Some (ord\<lparr>o_status := st\<rparr>)" "given_ok ord n s st"
    by (rule closing_invE)
  have "\<exists>res w1 w2. close_created_order (\<lambda>d. d) (o_id ord) (cs_world s) = (Inr res, w1)
      \<and> restore_closed_stock res w1 = (Inr (), w2)
      \<and> row (o_id ord) (wdb w2) = Some (ord\<lparr>o_status := status_closed\<rparr>)
      \<and> counter (wredis w2) (stock_key (o_product ord)) = Some (n + cs_others s + o_quantity ord)"
    if c: "row (o_id ord) (wdb (cs_world s)) = Some ord" "calm (cs_world s)" "fits_int64 (n + cs_others s + o_quantity ord)"
  proof -
    have st: "st = status_created" using c(1) i(2) assms(4) by (cases ord) auto
    obtain res w1 where cl: "close_created_order (\<lambda>d. d) (o_id ord) (cs_world s) = (Inr res, w1)" "calm w1"
      "wredis w1 = wredis (cs_world s)" "cr_product res = o_product ord" "cr_quantity res = o_quantity ord" "cr_rows res = 1"
      "row (o_id ord) (wdb w1) = Some (ord\<lparr>o_status := status_closed\<rparr>)"
      using close_calm [OF c(2) i(1,2)] st by auto
    have "counter (wredis w1) (stock_key (cr_product res)) = Some (n + cs_others s)"
      using i(3) st cl(3,4) by (auto simp: given_ok_def Let_def)
    from restore_calm [OF cl(2,6) this] c(3) cl(1,4,5,7) show ?thesis by auto
  qed
  then show ?thesis using i(2,3) unfolding given_ok_def Let_def by blast
qed

definition demo_order :: order where
  "demo_order = \<lparr>o_id = 5, o_product = 1, o_user = 7, o_request = ''r1'', o_quantity = 2, o_status = ''created'', o_created = 0\<rparr>"

definition expired_world :: world where
  "expired_world = warm_world\<lparr>wdb := demo_db\<lparr>orders := [demo_order]\<rparr>\<rparr>"

lemma expired_facts:
  "distinct (map o_id (orders (wdb expired_world)))" "row (o_id demo_order) (wdb expired_world) = Some demo_order"
  "o_status demo_order = status_created" "counter (wredis expired_world) (stock_key (o_product demo_order)) = Some 3"
  "calm expired_world" "o_id demo_order = 5" "o_product demo_order = 1" "o_quantity demo_order = 2"
  "wfaults expired_world = []" "expired_world\<lparr>wfaults := []\<rparr> = expired_world"
  by (simp_all add: expired_world_def demo_order_def row_def status_created_def counter_def warm_lookup calm_def
      warm_world_def demo_world_def) (simp_all add: rlookup_def)

text \<open>
  Two workers read the order; the first closes it, then the second finds it closed; the first restores, the second has no right to.
\<close>

lemmas closing_simps = close_in_two read_compensation_def try_close_def restore_closed_stock_def
  rollback_pre_deduct_def rollback_script_def on_redis_def on_db_def next_fault_def query_def exec_def
  select_compensation_def update_status_def incrby_def fits_int64_def Let_def status_created_def status_closed_def

theorem closing_restores_at_most_once_witness:
  "\<exists>s. (closing_step demo_order)\<^sup>*\<^sup>* (closing_start expired_world) s \<and> cs_won s = Map.empty \<and> cs_others s = 0
     \<and> row 5 (wdb (cs_world s)) = Some (demo_order\<lparr>o_status := status_closed\<rparr>)
     \<and> counter (wredis (cs_world s)) (stock_key 1) = Some 5"
proof -
  let ?S = "closing_step demo_order" and ?c = "(1::int, 2::int)" and ?w0 = "expired_world"
  define w1 where "w1 = ?w0\<lparr>wdb := snd (update_status 5 status_created status_closed (wdb ?w0))\<rparr>"
  define w2 where "w2 = w1\<lparr>wredis := snd (rollback_script (stock_key 1) 2 (wredis w1))\<rparr>"
  let ?r1 = "\<lparr>cr_order = 5, cr_product = 1, cr_quantity = 2, cr_rows = 1\<rparr>"
  let ?r0 = "\<lparr>cr_order = 5, cr_product = 1, cr_quantity = 2, cr_rows = 0\<rparr>"
  have e: "wredis ?w0 = wredis warm_world" "orders (wdb ?w0) = [demo_order]" "o_id demo_order = 5" "o_status demo_order = status_created"
    by (simp_all add: expired_world_def demo_order_def status_created_def)
  have f: "wfaults w1 = []" "w1\<lparr>wfaults := []\<rparr> = w1" "wfaults w2 = []" "w2\<lparr>wfaults := []\<rparr> = w2"
    "orders (wdb w1) = [demo_order\<lparr>o_status := status_closed\<rparr>]"
    using expired_facts(9) e by (simp_all add: w1_def w2_def update_status_def)
  have runs: "read_compensation 5 ?w0 = (Inr ?c, ?w0)" "try_close 5 ?c ?w0 = (Inr ?r1, w1)" "try_close 5 ?c w1 = (Inr ?r0, w1)"
    "restore_closed_stock ?r0 w2 = (Inr (), w2)"
    using expired_facts(9) f e
    by (simp_all add: closing_simps w1_def [symmetric])
      (auto simp: w1_def closing_simps demo_order_def split: sum.splits)
  obtain x where x: "restore_closed_stock ?r1 w1 = (x, w2)"
    using f(1) by (cases "fst (rollback_script (stock_key 1) 2 (wredis w1))")
      (auto simp: restore_closed_stock_def rollback_pre_deduct_def on_redis_def w2_def)
  let ?s1 = "closing_start ?w0\<lparr>cs_read := [0 \<mapsto> ?c]\<rparr>" and ?s2 = "closing_start ?w0\<lparr>cs_read := [0 \<mapsto> ?c, 1 \<mapsto> ?c]\<rparr>"
  let ?s3 = "closing_start w1\<lparr>cs_read := [1 \<mapsto> ?c], cs_won := [0 \<mapsto> ?r1]\<rparr>"
  let ?s4 = "closing_start w1\<lparr>cs_won := [0 \<mapsto> ?r1, 1 \<mapsto> ?r0]\<rparr>" and ?s5 = "closing_start w2\<lparr>cs_won := [1 \<mapsto> ?r0]\<rparr>"
  have 1: "?S (closing_start ?w0) ?s1"
    using closing_read [where ord = demo_order and s = "closing_start ?w0" and fs = "[]" and x = "Inr ?c" and w' = ?w0 and i = 0] runs(1) expired_facts(6,10) by (simp add: closing_start_def)
  have 2: "?S ?s1 ?s2"
    using closing_read [where ord = demo_order and s = ?s1 and fs = "[]" and x = "Inr ?c" and w' = ?w0 and i = 1] runs(1) expired_facts(6,10) by (simp add: closing_start_def)
  have 3: "?S ?s2 ?s3"
    using closing_close [where ord = demo_order and s = ?s2 and i = 0 and c = ?c and fs = "[]" and x = "Inr ?r1" and w' = w1] runs(2) expired_facts(6,10)
    by (simp add: closing_start_def fun_upd_twist)
  have 4: "?S ?s3 ?s4"
    using closing_close [where ord = demo_order and s = ?s3 and i = 1 and c = ?c and fs = "[]" and x = "Inr ?r0" and w' = w1] runs(3) expired_facts(6) f(2) by (simp add: closing_start_def)
  have 5: "?S ?s4 ?s5"
    using closing_restore [where ord = demo_order and s = ?s4 and i = 0 and res = ?r1 and fs = "[]" and x = x and w' = w2] x f(2) by (simp add: closing_start_def fun_upd_twist)
  have 6: "?S ?s5 (closing_start w2)"
    using closing_restore [where ord = demo_order and s = ?s5 and i = 1 and res = ?r0 and fs = "[]" and x = "Inr ()" and w' = w2] runs(4) f(4) by (simp add: closing_start_def)
  note r = converse_rtranclp_into_rtranclp [of ?S]
  have reach: "?S\<^sup>*\<^sup>* (closing_start ?w0) (closing_start w2)"
    by (rule r [OF 1 r [OF 2 r [OF 3 r [OF 4 r [OF 5 r_into_rtranclp [of ?S, OF 6]]]]]])
  have row: "row 5 (wdb w2) = Some (demo_order\<lparr>o_status := status_closed\<rparr>)"
    using f(5) e(3) by (simp add: row_def w2_def)
  have "counter (wredis w2) (stock_key 1) \<noteq> Some 3"
    by (simp add: w2_def w1_def e rollback_script_def incrby_def warm_lookup fits_int64_def)
  with closing_restores_at_most_once [OF reach expired_facts(1-4)] row reach show ?thesis
    by (intro exI [of _ "closing_start w2"]) (auto simp: closing_start_def expired_facts)
qed

text \<open>
  C40: nothing repairs a restoration that failed after the closing. When a worker's update closed the order and its restoring call is
  lost, it gets the error, and from then on, through any steps of any later workers and any actions of others, the order stays closed and
  the counter moves by what the others do and nothing else: the quantity is gone. No later worker notices: its close changes no row, its restoring
  answers success and does nothing.
\<close>

theorem closing_loses_stock:
  assumes "close_created_order env (o_id ord) w = (Inr res, w1)"
    and "distinct (map o_id (orders (env (wdb w))))" "row (o_id ord) (env (wdb w)) = Some ord" "o_status ord = status_created"
    and "counter (wredis w) (stock_key (o_product ord)) = Some n"
    and "wfaults w1 = Lost e # fs" "restore_closed_stock res w1 = (x, w2)"
    and "(closing_step ord)\<^sup>*\<^sup>* (closing_start w2) s"
  shows "x = Inl (net_err e) \<and> row (o_id ord) (wdb (cs_world s)) = Some (ord\<lparr>o_status := status_closed\<rparr>)
    \<and> counter (wredis (cs_world s)) (stock_key (o_product ord)) = Some (n + cs_others s)
    \<and> (\<forall>res' w3. close_created_order (\<lambda>d. d) (o_id ord) (cs_world s) = (Inr res', w3) \<longrightarrow>
         cr_rows res' = 0 \<and> restore_closed_stock res' w3 = (Inr (), w3))"
proof -
  obtain w0 c where r: "read_compensation (o_id ord) w = (Inr c, w0)"
    and t: "try_close (o_id ord) c (w0\<lparr>wdb := env (wdb w0)\<rparr>) = (Inr res, w1)"
    using assms(1) by (auto simp: close_in_two split: prod.splits sum.splits)
  have w0: "wdb w0 = wdb w" "wredis w0 = wredis w"
    using on_db_query_any [OF r [unfolded read_compensation_def]] by simp_all
  have row0: "row (o_id ord) (env (wdb w)) = Some (ord\<lparr>o_status := status_created\<rparr>)"
    using assms(3) order_self [OF assms(4)] by simp
  have c1: "wredis w1 = wredis w" "distinct (map o_id (orders (wdb w1)))"
    "row (o_id ord) (wdb w1) = Some (ord\<lparr>o_status := status_closed\<rparr>)" "cr_rows res = 1"
    using try_close_cases [OF t, of status_created] assms(2) row0 w0 by auto
  have lost: "x = Inl (net_err e)" "wredis w2 = wredis w1" "wdb w2 = wdb w1"
    using assms(6,7) c1(4) by (auto simp: restore_closed_stock_def rollback_pre_deduct_def on_redis_def next_fault_def)
  let ?ord = "ord\<lparr>o_status := status_closed\<rparr>"
  have inv0: "stays_closed ord n (closing_start w2)"
    using c1 lost assms(5) by (simp add: stays_closed_def closing_start_def)
  have inv: "stays_closed ord n s" by (rule stays_closed_reach [OF assms(8) inv0])
  have "cr_rows res' = 0 \<and> restore_closed_stock res' w3 = (Inr (), w3)"
    if later: "close_created_order (\<lambda>d. d) (o_id ord) (cs_world s) = (Inr res', w3)" for res' w3
    using stays_closed_later [OF inv later] by (simp add: restore_closed_stock_def)
  then show ?thesis using lost(1) inv by (simp add: stays_closed_def)
qed

text \<open>One worker closes the order and its restoring call is lost; a second worker then finds nothing to do.\<close>

theorem closing_loses_stock_witness:
  "\<exists>res w1 x w2. close_created_order (\<lambda>d. d) 5 (expired_world\<lparr>wfaults := [NoFault, NoFault, Lost NetDeadline]\<rparr>) = (Inr res, w1)
     \<and> restore_closed_stock res w1 = (x, w2) \<and> x = Inl ContextDeadlineExceeded
     \<and> row 5 (wdb w2) = Some (demo_order\<lparr>o_status := status_closed\<rparr>) \<and> counter (wredis w2) (stock_key 1) = Some 3"
proof -
  let ?w = "expired_world\<lparr>wfaults := [NoFault, NoFault, Lost NetDeadline]\<rparr>"
  have e: "orders (wdb expired_world) = [demo_order]" "o_status demo_order = ''created''"
    by (simp_all add: expired_world_def demo_order_def)
  obtain res w1 where cl: "close_created_order (\<lambda>d. d) (o_id demo_order) ?w = (Inr res, w1)" "wfaults w1 = Lost NetDeadline # []"
    using e by (auto simp: closing_simps demo_order_def)
  obtain x w2 where rs: "restore_closed_stock res w1 = (x, w2)" by fastforce
  have c: "counter (wredis ?w) (stock_key (o_product demo_order)) = Some 3" using expired_facts(4) by simp
  from closing_loses_stock [OF cl(1) _ _ expired_facts(3) c cl(2) rs rtranclp.rtrancl_refl] expired_facts(1,2)
  have "x = Inl ContextDeadlineExceeded" "row (o_id demo_order) (wdb w2) = Some (demo_order\<lparr>o_status := status_closed\<rparr>)"
    "counter (wredis w2) (stock_key (o_product demo_order)) = Some 3"
    by (simp_all add: closing_start_def)
  then show ?thesis using cl(1) rs expired_facts(6,7) by auto
qed

end
