(* ===== verification/Latency.thy ===== *)
theory Latency
  imports Overload "HOL-Library.Multiset"
begin

text \<open>
  The rest of package \<open>expire\<close>: the fake clock and the scanner's shutdown step of \<open>model.go\<close>, the latency
  samples with their nearest-rank percentiles and the scanner loop of \<open>p3_latency.go\<close>.
\<close>

section \<open>Percentiles\<close>

text \<open>A \<open>float64\<close> argument of a caller; both comparisons of the check are false for \<open>NaN\<close>.\<close>

datatype float_arg = Finite rat | NotANumber | PlusInfinity | MinusInfinity

fun percentile_refused :: "float_arg \<Rightarrow> bool" where
  "percentile_refused (Finite p) \<longleftrightarrow> p \<le> 0 \<or> 1 < p"
| "percentile_refused NotANumber \<longleftrightarrow> False"
| "percentile_refused PlusInfinity \<longleftrightarrow> True"
| "percentile_refused MinusInfinity \<longleftrightarrow> True"

text \<open>
  The rank of a percentile; the conversion of \<open>NaN\<close> to an integer is some \<open>nan\<close> that the architecture
  chooses. Indexing out of range panics.
\<close>

fun percentile_rank :: "int \<Rightarrow> nat \<Rightarrow> float_arg \<Rightarrow> int" where
  "percentile_rank nan n (Finite p) = \<lceil>fl (p * fl (of_nat n))\<rceil>"
| "percentile_rank nan n _ = nan"

fun pick_ranks :: "int list \<Rightarrow> int list \<Rightarrow> int list go" where
  "pick_ranks xs [] = Ret []"
| "pick_ranks xs (rank # ranks) =
     (if rank - 1 < 0 \<or> int (length xs) \<le> rank - 1 then Panic
      else (case pick_ranks xs ranks of Panic \<Rightarrow> Panic | Ret vs \<Rightarrow> Ret (xs ! nat (rank - 1) # vs)))"

definition percentiles :: "int \<Rightarrow> int list \<Rightarrow> float_arg list \<Rightarrow> (go_error + int list) go" where
  "percentiles nan samples requested =
     (if list_ex percentile_refused requested then Ret (Inl InvalidPercentile)
      else if samples = [] then Ret (Inr [])
      else (case pick_ranks (sort samples) (map (percentile_rank nan (length samples)) requested) of
          Panic \<Rightarrow> Panic | Ret vs \<Rightarrow> Ret (Inr vs)))"

lemma fl_nat: "n \<le> 2 ^ 53 \<Longrightarrow> fl (of_nat n) = of_nat n"
proof -
  assume "n \<le> 2 ^ 53"
  then have "int n \<le> int (2 ^ 53)" by (simp only: of_nat_le_iff)
  then have "\<bar>int n\<bar> \<le> 2 ^ 53" by simp
  from fl_int [OF this] show "fl (of_nat n) = of_nat n" unfolding of_int_of_nat_eq .
qed

text \<open>The rank of a percentile in \<open>(0, 1]\<close> is one of the samples' ranks.\<close>

lemma percentile_rank_range:
  assumes "0 < p" "p \<le> 1" "0 < n" "n \<le> 2 ^ 53"
  shows "1 \<le> percentile_rank nan n (Finite p)" "percentile_rank nan n (Finite p) \<le> int n"
proof -
  have "0 < fl (p * of_nat n)" using assms by (intro fl_positive) simp
  then show "1 \<le> percentile_rank nan n (Finite p)" by (simp add: fl_nat [OF assms(4)] less_ceiling_iff flip: add1_zle_eq)
  have "fl (p * of_nat n) \<le> fl (of_nat n)" using assms by (intro fl_mono) (simp add: mult_le_cancel_right1)
  then show "percentile_rank nan n (Finite p) \<le> int n" by (simp add: fl_nat [OF assms(4)] ceiling_le_iff)
qed

text \<open>The element at a position of the sorted list, by how many elements lie at or below it.\<close>

lemma sorted_position:
  assumes "sorted ys" "k < length ys"
  shows "k + 1 \<le> length (filter (\<lambda>y. y \<le> ys ! k) ys)" "length (filter (\<lambda>y. y < ys ! k) ys) \<le> k"
proof -
  have split: "ys = take (Suc k) ys @ drop (Suc k) ys" "ys = take k ys @ drop k ys" by simp_all
  have "\<forall>y \<in> set (take (Suc k) ys). y \<le> ys ! k"
    using assms by (auto simp: in_set_conv_nth sorted_iff_nth_mono)
  then have "length (filter (\<lambda>y. y \<le> ys ! k) (take (Suc k) ys)) = Suc k"
    using assms(2) by (simp add: filter_id_conv [THEN iffD2])
  moreover have "length (filter (\<lambda>y. y \<le> ys ! k) ys)
      = length (filter (\<lambda>y. y \<le> ys ! k) (take (Suc k) ys)) + length (filter (\<lambda>y. y \<le> ys ! k) (drop (Suc k) ys))"
    by (metis filter_append length_append split(1))
  ultimately show "k + 1 \<le> length (filter (\<lambda>y. y \<le> ys ! k) ys)" by simp
  have "\<forall>y \<in> set (drop k ys). \<not> y < ys ! k"
    using assms by (auto simp: in_set_conv_nth sorted_iff_nth_mono not_less)
  then have "filter (\<lambda>y. y < ys ! k) (drop k ys) = []" by (simp add: filter_empty_conv)
  then have "length (filter (\<lambda>y. y < ys ! k) ys) = length (filter (\<lambda>y. y < ys ! k) (take k ys))"
    by (metis filter_append split(2) append_Nil2)
  also have "\<dots> \<le> k" by (rule order_trans [OF length_filter_le]) simp
  finally show "length (filter (\<lambda>y. y < ys ! k) ys) \<le> k" .
qed

lemma length_filter_sort: "length (filter P (sort xs)) = length (filter P xs)"
  by (metis mset_filter mset_sort size_mset)

lemma pick_ranks_Ret:
  assumes "\<forall>r \<in> set ranks. 1 \<le> r \<and> r \<le> int (length ys)"
  shows "pick_ranks ys ranks = Ret (map (\<lambda>r. ys ! nat (r - 1)) ranks)"
  using assms by (induction ranks) auto

text \<open>
  for percentiles in \<open>(0, 1]\<close> and up to \<open>2 ^ 53\<close> samples, \<open>Percentiles\<close> never indexes out of range and
  answers the nearest rank: each result is a sample, at least the share \<open>p\<close> of the samples is at
  most the result, and less than that share lies below it (the share computed in floating point).
\<close>

theorem percentiles_nearest_rank:
  assumes "samples \<noteq> []" "length samples \<le> 2 ^ 53" "\<forall>p \<in> set ps. 0 < p \<and> p \<le> 1"
  shows "\<exists>vs. percentiles nan samples (map Finite ps) = Ret (Inr vs) \<and> length vs = length ps \<and>
    (\<forall>i < length ps. vs ! i \<in> set samples
       \<and> fl (ps ! i * of_nat (length samples)) \<le> of_nat (length (filter (\<lambda>s. s \<le> vs ! i) samples))
       \<and> of_nat (length (filter (\<lambda>s. s < vs ! i) samples)) < fl (ps ! i * of_nat (length samples)))"
proof -
  let ?n = "length samples" and ?ys = "sort samples"
  let ?r = "\<lambda>p. percentile_rank nan ?n (Finite p)"
  have n: "0 < ?n" using assms(1) by simp
  have range: "1 \<le> ?r p \<and> ?r p \<le> int ?n" if "p \<in> set ps" for p
    using percentile_rank_range [OF _ _ n assms(2)] assms(3) that by blast
  have ok: "\<not> list_ex percentile_refused (map Finite ps)" using assms(3) by (auto simp: list_ex_iff)
  have "pick_ranks ?ys (map ?r ps) = Ret (map (\<lambda>r. ?ys ! nat (r - 1)) (map ?r ps))"
    using range by (intro pick_ranks_Ret) auto
  then have run: "percentiles nan samples (map Finite ps) = Ret (Inr (map (\<lambda>p. ?ys ! nat (?r p - 1)) ps))"
    using ok assms(1) by (simp add: percentiles_def comp_def)
  have each: "?ys ! nat (?r p - 1) \<in> set samples
      \<and> fl (p * of_nat ?n) \<le> of_nat (length (filter (\<lambda>s. s \<le> ?ys ! nat (?r p - 1)) samples))
      \<and> of_nat (length (filter (\<lambda>s. s < ?ys ! nat (?r p - 1)) samples)) < fl (p * of_nat ?n)" if "p \<in> set ps" for p
  proof -
    let ?k = "nat (?r p - 1)"
    have "nat (r - 1) < ?n" "int (nat (r - 1)) + 1 = r" if "1 \<le> r" "r \<le> int ?n" for r
      using that by (simp_all add: nat_less_iff)
    then have k: "?k < length ?ys" "int ?k + 1 = ?r p" using range [OF that] unfolding length_sort by blast+
    note pos = sorted_position [OF sorted_sort k(1), unfolded length_filter_sort]
    have c: "fl (p * of_nat ?n) \<le> of_int (?r p)" "of_int (?r p) - 1 < fl (p * of_nat ?n)"
      by (simp_all only: percentile_rank.simps fl_nat [OF assms(2)] le_of_int_ceiling) linarith
    have "(of_int (?r p) :: rat) = of_nat ?k + 1" by (metis k(2) of_int_add of_int_of_nat_eq of_int_1)
    moreover have "(of_nat (?k + 1) :: rat) \<le> of_nat (length (filter (\<lambda>s. s \<le> ?ys ! ?k) samples))"
      "(of_nat (length (filter (\<lambda>s. s < ?ys ! ?k) samples)) :: rat) \<le> of_nat ?k"
      using pos unfolding of_nat_le_iff by simp_all
    moreover have "?ys ! ?k \<in> set samples" using nth_mem [OF k(1)] by simp
    ultimately show ?thesis using c by simp
  qed
  show ?thesis using run each by (intro exI [of _ "map (\<lambda>p. ?ys ! nat (?r p - 1)) ps"]) simp
qed

theorem percentiles_nearest_rank_witness:
  "percentiles 0 [30, 10, 20] [Finite (1/2), Finite 1] = Ret (Inr [20, 30])
     \<and> fl (1/2 * 3) \<le> (of_nat (length (filter (\<lambda>s. s \<le> 20) [30, 10, 20 :: int])) :: rat)"
proof -
  have fl: "fl 3 = 3" "fl (3/2) = 3/2" using fl_int [of 3] fl_exact [of 3 "- 1"] by simp_all
  have c: "\<lceil>3/2 :: rat\<rceil> = 2" by (simp add: ceiling_eq_iff)
  have run: "percentiles 0 [30, 10, 20] [Finite (1/2), Finite 1] = Ret (Inr [20, 30])"
    by (simp add: percentiles_def fl c)
  have "(1/2 :: rat) > 0" "(1/2 :: rat) \<le> 1" by simp_all
  then obtain vs where vs: "percentiles 0 [30, 10, 20] (map Finite [1/2, 1]) = Ret (Inr vs)"
    "\<forall>i < length [1/2, 1 :: rat]. fl ([1/2, 1] ! i * of_nat (length [30, 10, 20 :: int]))
       \<le> of_nat (length (filter (\<lambda>s. s \<le> vs ! i) [30, 10, 20]))"
    using percentiles_nearest_rank [of "[30, 10, 20]" "[1/2, 1]" 0] by auto
  have "fl (1/2 * 3) \<le> (of_nat (length (filter (\<lambda>s. s \<le> vs ! 0) [30, 10, 20])) :: rat)"
    using vs(2) [rule_format, of 0] by simp
  moreover have "vs = [20, 30]" using run vs(1) by simp
  ultimately show ?thesis using run by simp
qed

text \<open>What the check lets through: \<open>NaN\<close> with an architecture that converts it to the least integer panics.\<close>

lemma percentiles_nan_panics:
  "samples \<noteq> [] \<Longrightarrow> percentiles (- (2 ^ 63)) samples [NotANumber] = Panic"
  by (simp add: percentiles_def)

section \<open>Samples\<close>

record latency_collector =
  lc_samples :: "int list"

definition new_latency_collector :: latency_collector where
  "new_latency_collector = \<lparr>lc_samples = []\<rparr>"

definition record_sample :: "int \<Rightarrow> latency_collector \<Rightarrow> latency_collector" where
  "record_sample s c = c\<lparr>lc_samples := lc_samples c @ [s]\<rparr>"

definition latency_samples :: "latency_collector \<Rightarrow> int list" where
  "latency_samples c = sort (lc_samples c)"

text \<open>No report is lost: whatever the order of the workers' reports, the snapshot is all of them, sorted.\<close>

lemma latency_samples_all:
  "latency_samples (fold record_sample ss new_latency_collector) = sort ss"
proof -
  have "lc_samples (fold record_sample ss c) = lc_samples c @ ss" for c
    by (induction ss arbitrary: c) (simp_all add: record_sample_def)
  then show ?thesis by (simp add: latency_samples_def new_latency_collector_def)
qed

lemma latency_samples_order:
  "mset ss = mset ts \<Longrightarrow>
     latency_samples (fold record_sample ss new_latency_collector) = latency_samples (fold record_sample ts new_latency_collector)"
  unfolding latency_samples_all by (metis sorted_list_of_multiset_mset)

section \<open>The injected clock\<close>

text \<open>Waiters by number; \<open>fc_sent\<close> is what their channels were sent before they were closed.\<close>

record fake_clock =
  fc_now :: int
  fc_waiters :: "(int \<times> nat) list"
  fc_sent :: "nat \<rightharpoonup> int"
  fc_next :: nat

definition new_fake_clock :: "int \<Rightarrow> fake_clock" where
  "new_fake_clock start = \<lparr>fc_now = start, fc_waiters = [], fc_sent = Map.empty, fc_next = 0\<rparr>"

definition fake_after :: "int \<Rightarrow> fake_clock \<Rightarrow> nat \<times> fake_clock" where
  "fake_after d c = (fc_next c, c\<lparr>fc_waiters := fc_waiters c @ [(fc_now c + d, fc_next c)], fc_next := fc_next c + 1\<rparr>)"

definition fake_advance :: "int \<Rightarrow> fake_clock \<Rightarrow> fake_clock" where
  "fake_advance d c =
     (let now = fc_now c + d in
      c\<lparr>fc_now := now, fc_waiters := filter (\<lambda>(due, _). now < due) (fc_waiters c),
        fc_sent := fold (\<lambda>(due, i) sent. if now < due then sent else sent(i \<mapsto> now)) (fc_waiters c) (fc_sent c)\<rparr>)"

definition pending_waiters :: "fake_clock \<Rightarrow> nat" where
  "pending_waiters c = length (fc_waiters c)"

text \<open>A waiter fires at the first advance that reaches its instant, with the instant reached, and not before.\<close>

lemma fold_sent_other:
  "i \<notin> snd ` set ws \<Longrightarrow> fold (\<lambda>(due, i) sent. if now < due then sent else sent(i \<mapsto> now)) ws sent i = sent i"
  by (induction ws arbitrary: sent) (auto simp: fun_upd_def)

lemma fake_advance_fires:
  assumes "distinct (map snd (fc_waiters c))" "(due, i) \<in> set (fc_waiters c)" "due \<le> fc_now c + d"
  shows "fc_sent (fake_advance d c) i = Some (fc_now c + d)" "i \<notin> snd ` set (fc_waiters (fake_advance d c))"
proof -
  let ?now = "fc_now c + d"
  obtain xs ys where ws: "fc_waiters c = xs @ (due, i) # ys" using assms(2) by (meson split_list)
  have "i \<notin> snd ` set ys" "i \<notin> snd ` set xs" using assms(1) unfolding ws by auto
  then show "fc_sent (fake_advance d c) i = Some ?now" "i \<notin> snd ` set (fc_waiters (fake_advance d c))"
    using assms(3) by (auto simp: fake_advance_def Let_def ws fold_sent_other)
qed

section \<open>The scanner\<close>

text \<open>
  How each wait of the loop ends is the schedule's choice: the interval is over, or the context is
  done. \<open>None\<close> means the loop still waits.
\<close>

datatype scan_event = IntervalOver | ContextDone

fun run_scanner :: "scan_event list \<Rightarrow> ('w \<Rightarrow> go_error option \<times> 'w) \<Rightarrow> 'w \<Rightarrow> go_error option option \<times> 'w" where
  "run_scanner [] scan w = (None, w)"
| "run_scanner (ContextDone # es) scan w = (Some None, w)"
| "run_scanner (IntervalOver # es) scan w = (case scan w of
     (Some e, w1) \<Rightarrow> (Some (Some e), w1)
   | (None, w1) \<Rightarrow> run_scanner es scan w1)"

text \<open>Cancelling ends the loop without an error, after exactly the scans before it.\<close>

fun scan_times :: "nat \<Rightarrow> ('w \<Rightarrow> go_error option \<times> 'w) \<Rightarrow> 'w \<Rightarrow> go_error option \<times> 'w" where
  "scan_times 0 scan w = (None, w)"
| "scan_times (Suc n) scan w = (case scan w of (Some e, w1) \<Rightarrow> (Some e, w1) | (None, w1) \<Rightarrow> scan_times n scan w1)"

lemma run_scanner_cancelled:
  "run_scanner (replicate n IntervalOver @ ContextDone # es) scan w = (case scan_times n scan w of (x, w1) \<Rightarrow> (Some x, w1))"
  by (induction n arbitrary: w) (auto split: prod.splits option.splits)

text \<open>How the shutdown step's wait for the scanner ends.\<close>

datatype stop_case = ScannerDone "go_error option" | StopDeadline go_error

definition scanner_shutdown_step :: "string \<Rightarrow> ('w \<Rightarrow> 'w) \<Rightarrow> ('w \<Rightarrow> stop_case \<times> 'w) \<Rightarrow> 'w shutdown_step" where
  "scanner_shutdown_step name cancel wait = (name, \<lambda>w. case wait (cancel w) of
     (ScannerDone e, w') \<Rightarrow> (e, w') | (StopDeadline e, w') \<Rightarrow> (Some e, w'))"

end
