(* ===== verification/Cache.thy ===== *)
theory Cache
  imports Mq
begin

text \<open>
  Package \<open>cache\<close>: the product read path as cache-aside over Redis (\<open>product.go\<close>), the repository port
  with its SQL implementation and its counting decorator (\<open>repo.go\<close>), keys and JSON (\<open>model.go\<close>).
  Durations are nanoseconds. The repository is an interface, the locale \<open>product_repo\<close>; both
  implementations interpret it, and the coherence of the cache is proved from its laws.
\<close>

section \<open>Products, keys and JSON (model.go)\<close>

record product =
  pr_id :: int
  pr_name :: string
  pr_stock :: int

definition not_found_placeholder :: string where
  "not_found_placeholder = ''__NULL__''"

definition product_key :: "int \<Rightarrow> string" where
  "product_key i = ''seckill:product:'' @ show_int i"

definition marshal_product :: "product \<Rightarrow> payload" where
  "marshal_product p = Doc (JObj [(''id'', JNum (pr_id p)), (''name'', JText (pr_name p)), (''stock'', JNum (pr_stock p))])"

definition unmarshal_product :: "payload \<Rightarrow> go_error + product" where
  "unmarshal_product raw = (case raw of
       Doc JNull \<Rightarrow> Inr \<lparr>pr_id = 0, pr_name = '''', pr_stock = 0\<rparr>
     | Doc (JObj fs) \<Rightarrow> (case (json_num ''id'' fs, json_text ''name'' fs, json_num ''stock'' fs) of
          (Inr i, Inr n, Inr s) \<Rightarrow> Inr \<lparr>pr_id = i, pr_name = n, pr_stock = s\<rparr>
        | _ \<Rightarrow> Inl (Wrapped DecodeError))
     | _ \<Rightarrow> Inl (Wrapped DecodeError))"

lemma unmarshal_marshal:
  "fits_int64 (pr_id p) \<Longrightarrow> fits_int64 (pr_stock p) \<Longrightarrow> unmarshal_product (marshal_product p) = Inr p"
  by (simp add: unmarshal_product_def marshal_product_def json_num_def json_text_def)

lemma marshal_not_placeholder [simp]: "marshal_product p \<noteq> Text not_found_placeholder"
  by (simp add: marshal_product_def)

lemma product_key_inj [simp]: "product_key i = product_key j \<longleftrightarrow> i = j"
  by (simp add: product_key_def)

section \<open>The repository (repo.go)\<close>

text \<open>The state of the cache layer: the two stores, and how often the database was asked for a product.\<close>

type_synonym cstate = "world \<times> nat"

definition at_world :: "(world \<Rightarrow> 'a \<times> world) \<Rightarrow> cstate \<Rightarrow> 'a \<times> cstate" where
  "at_world f s = (case f (fst s) of (x, w) \<Rightarrow> (x, (w, snd s)))"

definition product_view :: "int \<Rightarrow> database \<Rightarrow> product option" where
  "product_view i d = map_option (\<lambda>r. \<lparr>pr_id = i, pr_name = p_name r, pr_stock = p_stock r\<rparr>) (products d i)"

definition select_product :: "int \<Rightarrow> database \<Rightarrow> go_error + product" where
  "select_product i d = (case product_view i d of None \<Rightarrow> Inl SqlNoRows | Some p \<Rightarrow> Inr p)"

text \<open>\<open>UPDATE products SET stock = ?\<close> reports changed rows: none when the value is the old one.\<close>

definition update_stock_stmt :: "int \<Rightarrow> int \<Rightarrow> database \<Rightarrow> nat \<times> database" where
  "update_stock_stmt i n d = (case products d i of None \<Rightarrow> (0, d)
     | Some r \<Rightarrow> (if p_stock r = n then 0 else 1, set_stock i (r\<lparr>p_stock := n\<rparr>) d))"

definition sql_load_product :: "int \<Rightarrow> cstate \<Rightarrow> (go_error + product) \<times> cstate" where
  "sql_load_product i s = (case at_world (on_db (query (select_product i))) s of
       (Inl e, s1) \<Rightarrow> (Inl (if errors_is e SqlNoRows then CacheProductNotFound else e), s1)
     | (Inr p, s1) \<Rightarrow> (Inr p, s1))"

definition sql_update_stock :: "int \<Rightarrow> int \<Rightarrow> cstate \<Rightarrow> (go_error + unit) \<times> cstate" where
  "sql_update_stock i n s = (case at_world (on_db (exec (update_stock_stmt i n))) s of
       (Inl e, s1) \<Rightarrow> (Inl e, s1)
     | (Inr rows, s1) \<Rightarrow>
        (if rows \<noteq> 0 then (Inr (), s1)
         else (case at_world (on_db (query (\<lambda>d. Inr (if products d i = None then 0 else (1::nat))))) s1 of
             (Inl e, s2) \<Rightarrow> (Inl e, s2)
           | (Inr exists, s2) \<Rightarrow> (if exists = 0 then (Inl CacheProductNotFound, s2) else (Inr (), s2)))))"

text \<open>The decorator counts the loads of the repository it wraps.\<close>

definition counting_load :: "(int \<Rightarrow> cstate \<Rightarrow> (go_error + product) \<times> cstate)
    \<Rightarrow> int \<Rightarrow> cstate \<Rightarrow> (go_error + product) \<times> cstate" where
  "counting_load inner i s = inner i (fst s, snd s + 1)"

definition counting_update :: "(int \<Rightarrow> int \<Rightarrow> cstate \<Rightarrow> (go_error + unit) \<times> cstate)
    \<Rightarrow> int \<Rightarrow> int \<Rightarrow> cstate \<Rightarrow> (go_error + unit) \<times> cstate" where
  "counting_update inner i n s = inner i n s"

definition counted_loads :: "cstate \<Rightarrow> nat" where
  "counted_loads s = snd s"

definition reset_loads :: "cstate \<Rightarrow> cstate" where
  "reset_loads s = (fst s, 0)"

section \<open>The cache (product.go)\<close>

record cache_options =
  op_ttl :: int
  op_jitter :: int
  op_miss_ttl :: int

definition default_cache_options :: cache_options where
  "default_cache_options = \<lparr>op_ttl = 10 * 60 * 10 ^ 9, op_jitter = 2 * 60 * 10 ^ 9, op_miss_ttl = 30 * 10 ^ 9\<rparr>"

text \<open>
  \<open>SET\<close> as go-redis sends it for a duration: in milliseconds, at least one; with the duration -1 the key
  keeps its expiry, with another one that is not positive it gets none.
\<close>

definition redis_set_for :: "string \<Rightarrow> payload \<Rightarrow> int \<Rightarrow> redis \<Rightarrow> (go_error + unit) \<times> redis" where
  "redis_set_for k v d r = (Inr (),
     if 0 < d then rset_px k (RString v) (max 1 (d div 10 ^ 6)) r
     else if d = -1 then rmodify k (RString v) r
     else rset k (RString v) r)"

definition redis_del :: "string \<Rightarrow> redis \<Rightarrow> (go_error + nat) \<times> redis" where
  "redis_del k r = (Inr (if rlookup r k = None then 0 else 1), rdel k r)"

text \<open>\<open>rnd\<close> is what \<open>rand.Int63n\<close> answers, from 0 up to the jitter.\<close>

definition ttl_with_jitter :: "cache_options \<Rightarrow> int \<Rightarrow> int" where
  "ttl_with_jitter opts rnd = (if op_jitter opts \<le> 0 then op_ttl opts else op_ttl opts + rnd)"

text \<open>\<open>env\<close> is what others do between loading the product and filling the cache; a failed fill is ignored.\<close>

definition load_and_fill :: "(int \<Rightarrow> cstate \<Rightarrow> (go_error + product) \<times> cstate) \<Rightarrow> cache_options \<Rightarrow> int
    \<Rightarrow> (cstate \<Rightarrow> cstate) \<Rightarrow> int \<Rightarrow> cstate \<Rightarrow> (go_error + product) \<times> cstate" where
  "load_and_fill load opts rnd env i s = (case load i s of
       (Inl e, s1) \<Rightarrow>
         (Inl e, if errors_is e CacheProductNotFound
                 then snd (at_world (on_redis (redis_set_for (product_key i) (Text not_found_placeholder) (op_miss_ttl opts))) (env s1))
                 else s1)
     | (Inr p, s1) \<Rightarrow>
         (Inr p, snd (at_world (on_redis (redis_set_for (product_key i) (marshal_product p) (ttl_with_jitter opts rnd))) (env s1))))"

text \<open>
  \<open>flight\<close> stands for \<open>singleflight.Group.Do\<close>, which runs the function or shares the answer of a run
  that is in flight for the same key.
\<close>

type_synonym flight = "string \<Rightarrow> (cstate \<Rightarrow> (go_error + product) \<times> cstate) \<Rightarrow> cstate \<Rightarrow> (go_error + product) \<times> cstate"

definition cache_get :: "(int \<Rightarrow> cstate \<Rightarrow> (go_error + product) \<times> cstate) \<Rightarrow> flight \<Rightarrow> cache_options \<Rightarrow> int
    \<Rightarrow> (cstate \<Rightarrow> cstate) \<Rightarrow> int \<Rightarrow> cstate \<Rightarrow> (go_error + product) \<times> cstate" where
  "cache_get load flight opts rnd env i s = (case at_world (on_redis (redis_get (product_key i))) s of
       (Inr raw, s1) \<Rightarrow> (if raw = Text not_found_placeholder then Inl CacheProductNotFound else unmarshal_product raw, s1)
     | (Inl e, s1) \<Rightarrow>
         (if errors_is e RedisNil then flight (product_key i) (load_and_fill load opts rnd env i) s1 else (Inl e, s1)))"

fun cache_warm :: "(int \<Rightarrow> cstate \<Rightarrow> (go_error + product) \<times> cstate) \<Rightarrow> cache_options \<Rightarrow> (int \<times> int) list
    \<Rightarrow> cstate \<Rightarrow> (go_error + unit) \<times> cstate" where
  "cache_warm load opts [] s = (Inr (), s)"
| "cache_warm load opts ((i, rnd) # ids) s = (case load_and_fill load opts rnd (\<lambda>s. s) i s of
     (Inr _, s1) \<Rightarrow> cache_warm load opts ids s1
   | (Inl e, s1) \<Rightarrow> (if errors_is e CacheProductNotFound then cache_warm load opts ids s1 else (Inl e, s1)))"

definition cache_update_stock :: "(int \<Rightarrow> int \<Rightarrow> cstate \<Rightarrow> (go_error + unit) \<times> cstate) \<Rightarrow> int \<Rightarrow> int
    \<Rightarrow> cstate \<Rightarrow> (go_error + unit) \<times> cstate" where
  "cache_update_stock upd i n s = (case upd i n s of
       (Inl e, s1) \<Rightarrow> (Inl e, s1)
     | (Inr _, s1) \<Rightarrow> (case at_world (on_redis (redis_del (product_key i))) s1 of
          (Inl e, s2) \<Rightarrow> (Inl e, s2) | (Inr _, s2) \<Rightarrow> (Inr (), s2)))"

section \<open>The repository as an interface\<close>

locale product_repo =
  fixes load :: "int \<Rightarrow> cstate \<Rightarrow> (go_error + product) \<times> cstate"
    and upd :: "int \<Rightarrow> int \<Rightarrow> cstate \<Rightarrow> (go_error + unit) \<times> cstate"
  assumes load_frame: "load i s = (x, s') \<Longrightarrow> wredis (fst s') = wredis (fst s) \<and> wdb (fst s') = wdb (fst s)"
    and load_value: "load i s = (x, s') \<Longrightarrow>
      x = (case product_view i (wdb (fst s)) of None \<Rightarrow> Inl CacheProductNotFound | Some p \<Rightarrow> Inr p)
      \<or> (\<exists>n. x = Inl (net_err n))"
    and upd_frame: "upd i n s = (y, s') \<Longrightarrow> wredis (fst s') = wredis (fst s)"
    and upd_value: "upd i n s = (Inr (), s') \<Longrightarrow>
      product_view i (wdb (fst s')) = map_option (pr_stock_update (\<lambda>_. n)) (product_view i (wdb (fst s)))
      \<and> (\<forall>j. j \<noteq> i \<longrightarrow> product_view j (wdb (fst s')) = product_view j (wdb (fst s)))"

section \<open>Coherence\<close>

text \<open>What a cache entry may say of a product, and the products whose numbers the JSON can carry.\<close>

definition entry_true :: "int \<Rightarrow> database \<Rightarrow> rvalue option \<Rightarrow> bool" where
  "entry_true i d v \<longleftrightarrow> (case v of
       None \<Rightarrow> True
     | Some (RString raw) \<Rightarrow> (case product_view i d of
          None \<Rightarrow> raw = Text not_found_placeholder | Some p \<Rightarrow> raw = marshal_product p)
     | Some _ \<Rightarrow> False)"

definition fits_products :: "database \<Rightarrow> bool" where
  "fits_products d \<longleftrightarrow> (\<forall>i p. product_view i d = Some p \<longrightarrow> fits_int64 (pr_id p) \<and> fits_int64 (pr_stock p))"

definition coherent :: "cstate \<Rightarrow> bool" where
  "coherent s \<longleftrightarrow> (\<forall>i. entry_true i (wdb (fst s)) (rlookup (wredis (fst s)) (product_key i))) \<and> fits_products (wdb (fst s))"

text \<open>What is documented of \<open>singleflight\<close> for a call while no other is in flight for its key: it runs the function.\<close>

definition flies_alone :: "flight \<Rightarrow> bool" where
  "flies_alone fl \<longleftrightarrow> (\<forall>k f s. fl k f s = f s)"

lemma entry_true_cong: "product_view i d = product_view i d' \<Longrightarrow> entry_true i d v = entry_true i d' v"
  by (simp only: entry_true_def)

lemma redis_set_for_lookup:
  "snd (redis_set_for k v d r) = r' \<Longrightarrow> rlookup r' k' = (if k' = k then Some (RString v) else rlookup r k')"
  by (auto simp: redis_set_for_def)

lemma at_world_eq: "at_world f s = (x, s') \<longleftrightarrow> f (fst s) = (x, fst s') \<and> snd s' = snd s"
  by (cases s'; cases "f (fst s)") (auto simp: at_world_def)

lemma fill_coherent:
  assumes "coherent s" "snd (at_world (on_redis (redis_set_for (product_key i) v d)) s) = s'"
    "entry_true i (wdb (fst s)) (Some (RString v))"
  shows "coherent s'" "wdb (fst s') = wdb (fst s)"
proof -
  let ?c = "redis_set_for (product_key i) v d"
  obtain x where "at_world (on_redis ?c) s = (x, s')" using assms(2) by (metis prod.collapse)
  then have c: "on_redis ?c (fst s) = (x, fst s')" by (simp add: at_world_eq)
  show db: "wdb (fst s') = wdb (fst s)" using on_redis_cases [OF c] by simp
  have "wredis (fst s') = wredis (fst s) \<or> wredis (fst s') = snd (?c (wredis (fst s)))" using on_redis_cases [OF c] by auto
  then show "coherent s'"
    using assms(1,3) db redis_set_for_lookup [of "product_key i" v d "wredis (fst s)", OF refl]
    by (elim disjE) (auto simp: coherent_def)
qed

context product_repo
begin

lemma load_fill_coherent:
  assumes "coherent s" "load_and_fill load opts rnd (\<lambda>s. s) i s = (x, s')"
  shows "coherent s'" "wdb (fst s') = wdb (fst s)"
    "x = (case product_view i (wdb (fst s)) of None \<Rightarrow> Inl CacheProductNotFound | Some p \<Rightarrow> Inr p) \<or> (\<exists>n. x = Inl (net_err n))"
proof -
  obtain y s1 where l: "load i s = (y, s1)" by (rule prod.exhaust)
  note fr = load_frame [OF l] and val = load_value [OF l]
  have c1: "coherent s1" using assms(1) fr by (simp add: coherent_def)
  have x: "x = y" using assms(2) l by (auto simp: load_and_fill_def split: sum.splits)
  then show "x = (case product_view i (wdb (fst s)) of None \<Rightarrow> Inl CacheProductNotFound | Some p \<Rightarrow> Inr p) \<or> (\<exists>n. x = Inl (net_err n))"
    using val by simp
  have "coherent s' \<and> wdb (fst s') = wdb (fst s1)"
  proof (cases y)
    case (Inr p)
    then have v: "product_view i (wdb (fst s1)) = Some p" using val fr by (auto split: option.splits)
    have "snd (at_world (on_redis (redis_set_for (product_key i) (marshal_product p) (ttl_with_jitter opts rnd))) s1) = s'"
      using assms(2) l Inr by (simp add: load_and_fill_def)
    from fill_coherent [OF c1 this] v show ?thesis by (simp add: entry_true_def)
  next
    case (Inl e)
    show ?thesis
    proof (cases "errors_is e CacheProductNotFound")
      case False
      then show ?thesis using assms(2) l Inl c1 by (simp add: load_and_fill_def)
    next
      case True
      then have v: "product_view i (wdb (fst s1)) = None" using val fr Inl by (auto split: option.splits)
      have "snd (at_world (on_redis (redis_set_for (product_key i) (Text not_found_placeholder) (op_miss_ttl opts))) s1) = s'"
        using assms(2) l Inl True by (simp add: load_and_fill_def)
      from fill_coherent [OF c1 this] v show ?thesis by (simp add: entry_true_def)
    qed
  qed
  then show "coherent s'" "wdb (fst s') = wdb (fst s)" using fr by simp_all
qed

text \<open>A read of a coherent cache answers what the database holds, from either side.\<close>

lemma get_coherent:
  assumes "coherent s" "cache_get load fl opts rnd (\<lambda>s. s) i s = (x, s')" "flies_alone fl"
  shows "coherent s'" "wdb (fst s') = wdb (fst s)"
    "x = (case product_view i (wdb (fst s)) of None \<Rightarrow> Inl CacheProductNotFound | Some p \<Rightarrow> Inr p) \<or> (\<exists>n. x = Inl (net_err n))"
proof -
  obtain y s1 where g: "at_world (on_redis (redis_get (product_key i))) s = (y, s1)" by (rule prod.exhaust)
  then have c: "on_redis (redis_get (product_key i)) (fst s) = (y, fst s1)" by (simp add: at_world_eq)
  have get: "snd (redis_get (product_key i) r) = r" for r
    by (simp add: redis_get_def split: option.splits rvalue.splits)
  have fr: "wredis (fst s1) = wredis (fst s) \<and> wdb (fst s1) = wdb (fst s)" using on_redis_cases [OF c] get by auto
  have c1: "coherent s1" using assms(1) fr by (simp add: coherent_def)
  have ent: "entry_true i (wdb (fst s)) (rlookup (wredis (fst s)) (product_key i))" "fits_products (wdb (fst s))"
    using assms(1) by (simp_all add: coherent_def)
  have "coherent s' \<and> wdb (fst s') = wdb (fst s1) \<and>
    (x = (case product_view i (wdb (fst s)) of None \<Rightarrow> Inl CacheProductNotFound | Some p \<Rightarrow> Inr p) \<or> (\<exists>n. x = Inl (net_err n)))"
  proof (cases y)
    case (Inr raw)
    then have "rlookup (wredis (fst s)) (product_key i) = Some (RString raw)"
      using on_redis_Inr [of "redis_get (product_key i)" "fst s" raw] c
      by (auto simp: redis_get_def split: option.splits rvalue.splits)
    with ent have e: "case product_view i (wdb (fst s)) of None \<Rightarrow> raw = Text not_found_placeholder | Some p \<Rightarrow> raw = marshal_product p"
      by (simp add: entry_true_def)
    have "x = (if raw = Text not_found_placeholder then Inl CacheProductNotFound else unmarshal_product raw)" "s' = s1"
      using assms(2) g Inr by (simp_all add: cache_get_def)
    with e ent(2) c1 show ?thesis
      by (auto simp: fits_products_def unmarshal_marshal split: option.splits)
  next
    case (Inl e)
    show ?thesis
    proof (cases "errors_is e RedisNil")
      case True
      then have "load_and_fill load opts rnd (\<lambda>s. s) i s1 = (x, s')"
        using assms(2) g Inl assms(3) [unfolded flies_alone_def, rule_format, of "product_key i" _ s1] by (simp add: cache_get_def)
      from load_fill_coherent [OF c1 this] fr show ?thesis by simp
    next
      case False
      have "fst (redis_get (product_key i) (wredis (fst s))) \<noteq> Inl ScriptError"
        using ent(1) by (auto simp: redis_get_def entry_true_def split: option.splits rvalue.splits)
      then have "e = RedisNil \<or> (\<exists>n. e = net_err n)"
        using on_redis_cases [OF c] Inl by (auto simp: redis_get_def split: option.splits rvalue.splits)
      then show ?thesis using False assms(2) g Inl c1 by (auto simp: cache_get_def)
    qed
  qed
  then show "coherent s'" "wdb (fst s') = wdb (fst s)"
    "x = (case product_view i (wdb (fst s)) of None \<Rightarrow> Inl CacheProductNotFound | Some p \<Rightarrow> Inr p) \<or> (\<exists>n. x = Inl (net_err n))"
    using fr by simp_all
qed

end

context product_repo
begin

lemma warm_coherent:
  "coherent s \<Longrightarrow> cache_warm load opts ids s = (x, s') \<Longrightarrow> coherent s' \<and> wdb (fst s') = wdb (fst s)"
proof (induction ids arbitrary: s)
  case (Cons a ids)
  obtain i rnd where a: "a = (i, rnd)" by (cases a)
  obtain y s1 where l: "load_and_fill load opts rnd (\<lambda>s. s) i s = (y, s1)" by (rule prod.exhaust)
  note f = load_fill_coherent(1,2) [OF Cons.prems(1) l]
  show ?case using Cons.IH [OF f(1)] Cons.prems(2) f l a by (auto split: sum.splits if_splits)
qed simp

text \<open>A successful update writes the database and drops the entry, in this order.\<close>

lemma update_coherent:
  assumes "coherent s" "cache_update_stock upd i n s = (Inr (), s')" "fits_int64 n"
  shows "coherent s'"
proof -
  obtain s1 where u: "upd i n s = (Inr (), s1)"
    using assms(2) by (cases "upd i n s") (auto simp: cache_update_stock_def split: sum.splits)
  then obtain m where "at_world (on_redis (redis_del (product_key i))) s1 = (Inr m, s')"
    using assms(2) by (cases "at_world (on_redis (redis_del (product_key i))) s1")
      (auto simp: cache_update_stock_def split: sum.splits)
  then have c: "on_redis (redis_del (product_key i)) (fst s1) = (Inr m, fst s')" by (simp add: at_world_eq)
  have r: "wredis (fst s') = rdel (product_key i) (wredis (fst s))" "wdb (fst s') = wdb (fst s1)"
    using on_redis_Inr [OF c] upd_frame [OF u] by (simp_all add: redis_del_def)
  note v = upd_value [OF u]
  have "entry_true j (wdb (fst s')) (rlookup (wredis (fst s')) (product_key j))" for j
  proof (cases "j = i")
    case False
    have "entry_true j (wdb (fst s)) (rlookup (wredis (fst s)) (product_key j))"
      using assms(1) by (simp add: coherent_def)
    then show ?thesis
      using False v r entry_true_cong [of j "wdb (fst s1)" "wdb (fst s)"] by simp
  qed (simp add: r entry_true_def)
  moreover have "fits_products (wdb (fst s'))"
  proof -
    have "fits_int64 (pr_id p) \<and> fits_int64 (pr_stock p)" if "product_view j (wdb (fst s1)) = Some p" for j p
      using that v assms(1,3) by (cases "j = i") (auto simp: coherent_def fits_products_def)
    then show ?thesis by (simp add: fits_products_def r)
  qed
  ultimately show ?thesis by (simp add: coherent_def)
qed

end

interpretation sql_repo: product_repo sql_load_product sql_update_stock
proof unfold_locales
  fix i n s and x :: "go_error + product" and y :: "go_error + unit" and s' :: cstate
  show "wredis (fst s') = wredis (fst s) \<and> wdb (fst s') = wdb (fst s)"
    and "x = (case product_view i (wdb (fst s)) of None \<Rightarrow> Inl CacheProductNotFound | Some p \<Rightarrow> Inr p)
      \<or> (\<exists>n. x = Inl (net_err n))" if "sql_load_product i s = (x, s')"
  proof -
    obtain z s1 where q: "at_world (on_db (query (select_product i))) s = (z, s1)" by (rule prod.exhaust)
    then have "on_db (query (select_product i)) (fst s) = (z, fst s1)" by (simp add: at_world_eq)
    note c = on_db_query_any [OF this]
    have x: "s' = s1" "x = (case z of Inl e \<Rightarrow> Inl (if errors_is e SqlNoRows then CacheProductNotFound else e) | Inr p \<Rightarrow> Inr p)"
      using that q by (auto simp: sql_load_product_def split: sum.splits)
    show "wredis (fst s') = wredis (fst s) \<and> wdb (fst s') = wdb (fst s)" using c x(1) by simp
    show "x = (case product_view i (wdb (fst s)) of None \<Rightarrow> Inl CacheProductNotFound | Some p \<Rightarrow> Inr p)
      \<or> (\<exists>n. x = Inl (net_err n))"
      using c unfolding x(2) by (auto simp: select_product_def split: option.splits)
  qed
  show "wredis (fst s') = wredis (fst s)" if "sql_update_stock i n s = (y, s')"
    using that unfolding sql_update_stock_def
    by (auto simp: at_world_eq split: prod.splits sum.splits if_splits dest!: on_db_cases)
  show "product_view i (wdb (fst s')) = map_option (pr_stock_update (\<lambda>_. n)) (product_view i (wdb (fst s)))
      \<and> (\<forall>j. j \<noteq> i \<longrightarrow> product_view j (wdb (fst s')) = product_view j (wdb (fst s)))"
    if ok: "sql_update_stock i n s = (Inr (), s')"
  proof -
    obtain z s1 where u: "at_world (on_db (exec (update_stock_stmt i n))) s = (z, s1)" by (rule prod.exhaust)
    with ok obtain rows where z: "z = Inr rows" by (cases z) (simp_all add: sql_update_stock_def)
    have "on_db (exec (update_stock_stmt i n)) (fst s) = (Inr rows, fst s1)" using u z by (simp add: at_world_eq)
    note e = on_db_exec_Inr [OF this]
    have "wdb (fst s') = wdb (fst s1)"
      using ok u z by (auto simp: sql_update_stock_def at_world_eq split: prod.splits sum.splits if_splits dest!: on_db_query_Inr)
    moreover have "wdb (fst s1) = snd (update_stock_stmt i n (wdb (fst s)))" using e by simp
    ultimately show ?thesis
      by (auto simp: update_stock_stmt_def product_view_def set_stock_def split: option.splits)
  qed
qed

text \<open>What \<open>cmd/api\<close> wires: the SQL repository behind the counting decorator.\<close>

definition app_load :: "int \<Rightarrow> cstate \<Rightarrow> (go_error + product) \<times> cstate" where
  "app_load = counting_load sql_load_product"

definition app_update :: "int \<Rightarrow> int \<Rightarrow> cstate \<Rightarrow> (go_error + unit) \<times> cstate" where
  "app_update = counting_update sql_update_stock"

interpretation app_repo: product_repo app_load app_update
proof unfold_locales
  fix i n s and x :: "go_error + product" and y :: "go_error + unit" and s' :: cstate
  show "wredis (fst s') = wredis (fst s) \<and> wdb (fst s') = wdb (fst s)" if "app_load i s = (x, s')"
    using sql_repo.load_frame [OF that [unfolded app_load_def counting_load_def]] by simp
  show "x = (case product_view i (wdb (fst s)) of None \<Rightarrow> Inl CacheProductNotFound | Some p \<Rightarrow> Inr p)
      \<or> (\<exists>n. x = Inl (net_err n))" if "app_load i s = (x, s')"
    using sql_repo.load_value [OF that [unfolded app_load_def counting_load_def]] by simp
  show "wredis (fst s') = wredis (fst s)" if "app_update i n s = (y, s')"
    using sql_repo.upd_frame [OF that [unfolded app_update_def counting_update_def]] .
  show "product_view i (wdb (fst s')) = map_option (pr_stock_update (\<lambda>_. n)) (product_view i (wdb (fst s)))
      \<and> (\<forall>j. j \<noteq> i \<longrightarrow> product_view j (wdb (fst s')) = product_view j (wdb (fst s)))"
    if "app_update i n s = (Inr (), s')"
    using sql_repo.upd_value [OF that [unfolded app_update_def counting_update_def]] .
qed

section \<open>Operations in any order\<close>

text \<open>
  What can happen to the wired cache, under any schedule of faults: reads, warming, updates that
  reported success, and time. An update that reported an error is left out: it may have changed the
  database and not dropped the entry, which then lives until its expiry.
\<close>

inductive cache_step :: "flight \<Rightarrow> cache_options \<Rightarrow> cstate \<Rightarrow> cstate \<Rightarrow> bool" for fl opts where
  step_get: "cache_get app_load fl opts rnd (\<lambda>s. s) i ((fst s)\<lparr>wfaults := fs\<rparr>, snd s) = (x, s') \<Longrightarrow> cache_step fl opts s s'"
| step_warm: "cache_warm app_load opts ids ((fst s)\<lparr>wfaults := fs\<rparr>, snd s) = (y, s') \<Longrightarrow> cache_step fl opts s s'"
| step_update: "cache_update_stock app_update i n ((fst s)\<lparr>wfaults := fs\<rparr>, snd s) = (Inr (), s') \<Longrightarrow>
     fits_int64 n \<Longrightarrow> cache_step fl opts s s'"
| step_time: "0 \<le> d \<Longrightarrow> cache_step fl opts s
     ((fst s)\<lparr>wredis := (wredis (fst s))\<lparr>rtime := rtime (wredis (fst s)) + d\<rparr>\<rparr>, snd s)"

inductive cache_reach :: "flight \<Rightarrow> cache_options \<Rightarrow> cstate \<Rightarrow> cstate \<Rightarrow> bool" for fl opts s where
  reach_here: "cache_reach fl opts s s"
| reach_more: "cache_reach fl opts s t \<Longrightarrow> cache_step fl opts t u \<Longrightarrow> cache_reach fl opts s u"

lemma quiet_state: "wfaults (fst s) = [] \<Longrightarrow> ((fst s)\<lparr>wfaults := []\<rparr>, snd s) = s"
  by (cases s; cases "fst s") simp

lemma step_get_quiet:
  "cache_get app_load fl opts rnd (\<lambda>s. s) i s = (x, s') \<Longrightarrow> wfaults (fst s) = [] \<Longrightarrow> cache_step fl opts s s'"
  using step_get [where s = s and fs = "[]"] by (simp only: quiet_state)

lemma step_update_quiet:
  "cache_update_stock app_update i n s = (Inr (), s') \<Longrightarrow> wfaults (fst s) = [] \<Longrightarrow> fits_int64 n \<Longrightarrow> cache_step fl opts s s'"
  using step_update [where s = s and fs = "[]"] by (simp only: quiet_state)

lemma coherent_faults [simp]: "coherent (w\<lparr>wfaults := fs\<rparr>, n) = coherent (w, n)"
  by (simp add: coherent_def)

lemma rlookup_later: "0 \<le> d \<Longrightarrow> rlookup (r\<lparr>rtime := rtime r + d\<rparr>) k \<in> {rlookup r k, None}"
  by (auto simp: rlookup_def split: option.splits)

lemma coherent_later:
  assumes "coherent s" "0 \<le> d"
  shows "coherent ((fst s)\<lparr>wredis := (wredis (fst s))\<lparr>rtime := rtime (wredis (fst s)) + d\<rparr>\<rparr>, snd s)"
proof -
  have "entry_true i (wdb (fst s)) (rlookup ((wredis (fst s))\<lparr>rtime := rtime (wredis (fst s)) + d\<rparr>) (product_key i))" for i
    using assms(1) rlookup_later [OF assms(2), of "wredis (fst s)" "product_key i"]
    by (auto simp: coherent_def entry_true_def [of _ _ None])
  then show ?thesis using assms(1) by (simp add: coherent_def)
qed

lemma cache_step_coherent: "cache_step fl opts s s' \<Longrightarrow> flies_alone fl \<Longrightarrow> coherent s \<Longrightarrow> coherent s'"
proof (induction rule: cache_step.induct)
  case (step_get rnd i fs s x s')
  show ?case by (rule app_repo.get_coherent(1) [OF _ step_get(1,2)]) (use step_get(3) in \<open>cases s; simp\<close>)
next
  case (step_warm ids fs s y s')
  have "coherent ((fst s)\<lparr>wfaults := fs\<rparr>, snd s)" using step_warm(3) by (cases s) simp
  from app_repo.warm_coherent [OF this step_warm(1)] show ?case by simp
next
  case (step_update i n fs s s')
  show ?case by (rule app_repo.update_coherent [OF _ step_update(1,2)]) (use step_update(4) in \<open>cases s; simp\<close>)
qed (rule coherent_later)

text \<open>
  C20: the cache serves the database. Starting from a coherent cache (an empty one, for example), after any
  sequence of reads, warmings, successful updates and expiries, under any faults of their calls, a
  read answers exactly the product the database holds, or that there is none, or a transport error:
  cached or not, fresh from an update or not.
\<close>

theorem cache_serves_database:
  assumes "coherent s0" "flies_alone fl" "cache_reach fl opts s0 s"
    and "cache_get app_load fl opts rnd (\<lambda>s. s) i s = (x, s')"
  shows "x = (case product_view i (wdb (fst s)) of None \<Rightarrow> Inl CacheProductNotFound | Some p \<Rightarrow> Inr p)
    \<or> (\<exists>n. x = Inl (net_err n))"
proof -
  have "coherent s"
    using assms(3) by (induction rule: cache_reach.induct) (use assms(1,2) cache_step_coherent in blast)+
  from app_repo.get_coherent(3) [OF this assms(4,2)] show ?thesis .
qed

definition alone :: flight where
  "alone k f s = f s"

lemma alone_flies [simp]: "flies_alone alone"
  by (simp add: flies_alone_def alone_def)

lemma demo_coherent: "coherent (demo_world, 0)"
  by (auto simp: coherent_def demo_world_def demo_db_def rlookup_def entry_true_def fits_products_def
      product_view_def fits_int64_def)

lemmas cache_run_simps = cache_get_def cache_update_stock_def at_world_def on_redis_def on_db_def next_fault_def
  redis_get_def redis_del_def redis_set_for_def load_and_fill_def app_load_def app_update_def counting_load_def
  counting_update_def sql_load_product_def sql_update_stock_def select_product_def product_view_def query_def exec_def
  update_stock_stmt_def set_stock_def alone_def ttl_with_jitter_def default_cache_options_def

text \<open>Read, update, read: the second read sees the update.\<close>

theorem cache_serves_database_witness:
  "\<exists>s1 s2 s3 p. cache_get app_load alone default_cache_options 0 (\<lambda>s. s) 1 (demo_world, 0) = (Inr p, s1)
     \<and> pr_stock p = 3 \<and> cache_update_stock app_update 1 9 s1 = (Inr (), s2)
     \<and> cache_get app_load alone default_cache_options 0 (\<lambda>s. s) 1 s2 = (Inr (p\<lparr>pr_stock := 9\<rparr>), s3)"
proof -
  let ?o = default_cache_options
  let ?g = "cache_get app_load alone ?o 0 (\<lambda>s. s) 1"
  let ?s1 = "snd (?g (demo_world, 0))"
  let ?s2 = "snd (cache_update_stock app_update 1 9 ?s1)"
  have lk: "rlookup \<lparr>rkeys = Map.empty, rtime = 0\<rparr> k = None" for k
    by (simp add: rlookup_def)
  note run = cache_run_simps lk demo_world_def demo_db_def
  have g1: "?g (demo_world, 0) = (Inr \<lparr>pr_id = 1, pr_name = ''shoe'', pr_stock = 3\<rparr>, ?s1)"
    by (simp add: run)
  have u: "cache_update_stock app_update 1 9 ?s1 = (Inr (), ?s2)"
    by (simp add: run)
  have v: "product_view 1 (wdb (fst ?s2)) = Some \<lparr>pr_id = 1, pr_name = ''shoe'', pr_stock = 9\<rparr>"
    by (simp add: run)
  have calm: "wfaults (fst ?s1) = []" "wfaults (fst ?s2) = []" by (simp_all add: run)
  have "cache_step alone ?o (demo_world, 0) ?s1"
    by (rule step_get_quiet [OF g1]) (simp add: demo_world_def)
  moreover have "cache_step alone ?o ?s1 ?s2"
    by (rule step_update_quiet [OF u calm(1)]) (simp add: fits_int64_def)
  ultimately have r: "cache_reach alone ?o (demo_world, 0) ?s2" by (blast intro: reach_here reach_more)
  obtain x s3 where g2: "?g ?s2 = (x, s3)" by (rule prod.exhaust)
  have "\<nexists>n. x = Inl (net_err n)" using g2 calm(2) by (auto simp: run)
  with cache_serves_database [OF demo_coherent alone_flies r g2] v
  have "x = Inr \<lparr>pr_id = 1, pr_name = ''shoe'', pr_stock = 9\<rparr>" by simp
  then show ?thesis using g1 u g2 by (intro exI conjI) (assumption | simp)+
qed

section \<open>What a hit spares, and the window that remains\<close>

text \<open>The entry a miss leaves behind, as long as its lifetime lasts.\<close>

lemma set_for_lifetime:
  assumes "0 < d" "0 \<le> dt" "dt < max 1 (d div 10 ^ 6)"
  shows "rlookup ((snd (redis_set_for k v d r))\<lparr>rtime := rtime r + dt\<rparr>) k = Some (RString v)"
  using assms by (auto simp: redis_set_for_def rset_px_def rlookup_def less_max_iff_disj)

lemma load_fill_calm:
  assumes "load_and_fill app_load opts rnd (\<lambda>s. s) i s = (x, s')" "calm (fst s)"
  shows "x = (case product_view i (wdb (fst s)) of None \<Rightarrow> Inl CacheProductNotFound | Some p \<Rightarrow> Inr p)"
    "counted_loads s' = counted_loads s + 1"
    "wredis (fst s') = snd (case product_view i (wdb (fst s)) of
        None \<Rightarrow> redis_set_for (product_key i) (Text not_found_placeholder) (op_miss_ttl opts) (wredis (fst s))
      | Some p \<Rightarrow> redis_set_for (product_key i) (marshal_product p) (ttl_with_jitter opts rnd) (wredis (fst s)))"
proof -
  let ?v = "product_view i (wdb (fst s))"
  obtain y s1 where l: "app_load i s = (y, s1)" by (rule prod.exhaust)
  obtain z w1 where q: "on_db (query (select_product i)) (fst s) = (z, w1)" by (rule prod.exhaust)
  note c = on_db_calm [OF q assms(2)] and fr = on_db_query_any [OF q]
  have z: "z = (case ?v of None \<Rightarrow> Inl SqlNoRows | Some p \<Rightarrow> Inr p)"
    using c by (simp add: query_def select_product_def split: option.splits)
  have y: "y = (case ?v of None \<Rightarrow> Inl CacheProductNotFound | Some p \<Rightarrow> Inr p)" and s1: "s1 = (w1, snd s + 1)"
    using l q z by (auto simp: app_load_def counting_load_def sql_load_product_def at_world_def split: option.splits)
  define k v d where "k = product_key i"
    and "v = (case ?v of None \<Rightarrow> Text not_found_placeholder | Some p \<Rightarrow> marshal_product p)"
    and "d = (case ?v of None \<Rightarrow> op_miss_ttl opts | Some p \<Rightarrow> ttl_with_jitter opts rnd)"
  have run: "x = y" "s' = snd (at_world (on_redis (redis_set_for k v d)) s1)"
    using assms(1) l y by (auto simp: load_and_fill_def k_def v_def d_def split: option.splits)
  obtain u w2 where r: "on_redis (redis_set_for k v d) w1 = (u, w2)" by (rule prod.exhaust)
  have s': "s' = (w2, snd s + 1)" using run(2) r s1 by (simp add: at_world_def)
  show "x = (case ?v of None \<Rightarrow> Inl CacheProductNotFound | Some p \<Rightarrow> Inr p)" using run(1) y by simp
  show "counted_loads s' = counted_loads s + 1" by (simp add: s' counted_loads_def)
  have "wredis w2 = snd (redis_set_for k v d (wredis w1))" using on_redis_calm [OF r] c by simp
  then show "wredis (fst s') = snd (case ?v of
        None \<Rightarrow> redis_set_for (product_key i) (Text not_found_placeholder) (op_miss_ttl opts) (wredis (fst s))
      | Some p \<Rightarrow> redis_set_for (product_key i) (marshal_product p) (ttl_with_jitter opts rnd) (wredis (fst s)))"
    using fr by (simp add: s' k_def v_def d_def split: option.splits)
qed

lemma calm_get_redis:
  "on_redis (redis_get k) w = (y, w1) \<Longrightarrow> calm w \<Longrightarrow> calm w1 \<and> wredis w1 = wredis w \<and> wdb w1 = wdb w
     \<and> y = (case rlookup (wredis w) k of None \<Rightarrow> Inl RedisNil | Some (RString p) \<Rightarrow> Inr p | Some _ \<Rightarrow> Inl ScriptError)"
  using on_redis_calm [of "redis_get k" w y w1] on_redis_cases [of "redis_get k" w y w1]
  by (auto simp: redis_get_def split: option.splits rvalue.splits)

text \<open>
  one miss is one load, and then none. When every call answers, a read that finds no entry asks the
  database once; every later read within the entry's lifetime answers the same, a product or its
  absence, without another load, whatever has happened to the database.
\<close>

theorem cache_hit_spares_database:
  assumes "calm (fst s)" "flies_alone fl" "fits_products (wdb (fst s))"
    and "rlookup (wredis (fst s)) (product_key i) = None"
    and "cache_get app_load fl opts rnd (\<lambda>s. s) i s = (x, s1)"
    and "wredis (fst s2) = (wredis (fst s1))\<lparr>rtime := rtime (wredis (fst s)) + dt\<rparr>" "calm (fst s2)"
    and "0 < op_miss_ttl opts" "0 < ttl_with_jitter opts rnd" "0 \<le> dt"
    and "dt < max 1 (op_miss_ttl opts div 10 ^ 6)" "dt < max 1 (ttl_with_jitter opts rnd div 10 ^ 6)"
  shows "counted_loads s1 = counted_loads s + 1 \<and>
    fst (cache_get app_load fl' opts rnd' env i s2) = x \<and>
    counted_loads (snd (cache_get app_load fl' opts rnd' env i s2)) = counted_loads s2"
proof -
  let ?v = "product_view i (wdb (fst s))"
  obtain y w0 where g: "on_redis (redis_get (product_key i)) (fst s) = (y, w0)" by (rule prod.exhaust)
  note c = calm_get_redis [OF g assms(1)]
  have lf: "load_and_fill app_load opts rnd (\<lambda>s. s) i (w0, snd s) = (x, s1)"
    using assms(2,4,5) g c by (simp add: cache_get_def at_world_def flies_alone_def)
  note f = load_fill_calm [OF lf] 
  define raw where "raw = (case ?v of None \<Rightarrow> Text not_found_placeholder | Some p \<Rightarrow> marshal_product p)"
  have look: "rlookup (wredis (fst s2)) (product_key i) = Some (RString raw)"
    using f(3) c assms(6,8-12) by (auto simp: raw_def set_for_lifetime split: option.splits)
  obtain z w2 where g2: "on_redis (redis_get (product_key i)) (fst s2) = (z, w2)" by (rule prod.exhaust)
  have z: "z = Inr raw" using calm_get_redis [OF g2 assms(7)] look by simp
  have again: "cache_get app_load fl' opts rnd' env i s2
      = (if raw = Text not_found_placeholder then Inl CacheProductNotFound else unmarshal_product raw, (w2, snd s2))"
    using g2 z by (simp add: cache_get_def at_world_def)
  have "(if raw = Text not_found_placeholder then Inl CacheProductNotFound else unmarshal_product raw) = x"
    using f(1) c assms(3) by (auto simp: raw_def fits_products_def unmarshal_marshal split: option.splits)
  then show ?thesis using again f(2) c by (simp add: counted_loads_def)
qed

text \<open>The product 2 does not exist: it is looked up once, and the second read is answered by the placeholder.\<close>

theorem cache_hit_spares_database_witness:
  "\<exists>s1. cache_get app_load alone default_cache_options 0 (\<lambda>s. s) 2 (demo_world, 0) = (Inl CacheProductNotFound, s1)
     \<and> counted_loads s1 = 1
     \<and> counted_loads (snd (cache_get app_load alone default_cache_options 0 (\<lambda>s. s) 2 s1)) = 1"
proof -
  let ?o = default_cache_options
  let ?s1 = "snd (cache_get app_load alone ?o 0 (\<lambda>s. s) 2 (demo_world, 0))"
  have lk: "rlookup \<lparr>rkeys = Map.empty, rtime = 0\<rparr> k = None" for k
    by (simp add: rlookup_def)
  note run = cache_run_simps lk demo_world_def demo_db_def
  have g: "cache_get app_load alone ?o 0 (\<lambda>s. s) 2 (demo_world, 0) = (Inl CacheProductNotFound, ?s1)"
    by (simp add: run)
  have "calm (fst (demo_world, 0::nat))" "rlookup (wredis (fst (demo_world, 0::nat))) (product_key 2) = None"
    by (simp_all add: calm_def demo_world_def lk)
  moreover have "fits_products (wdb (fst (demo_world, 0::nat)))" using demo_coherent by (simp add: coherent_def)
  moreover have "wredis (fst ?s1) = (wredis (fst ?s1))\<lparr>rtime := rtime (wredis (fst (demo_world, 0::nat))) + 0\<rparr>" "calm (fst ?s1)"
    by (simp_all add: run calm_def)
  ultimately have "counted_loads ?s1 = counted_loads (demo_world, 0) + 1 \<and>
      counted_loads (snd (cache_get app_load alone ?o 0 (\<lambda>s. s) 2 ?s1)) = counted_loads ?s1"
    using cache_hit_spares_database [OF _ alone_flies _ _ g, of ?s1 0 alone 0 "\<lambda>s. s"]
    by (simp add: default_cache_options_def ttl_with_jitter_def)
  then show ?thesis using g by (intro exI [of _ ?s1]) (simp add: counted_loads_def)
qed

text \<open>
  The window the source documents: a reader that loaded the old stock fills the cache after an update
  changed the database and dropped the entry; the old value then stays until it expires.
\<close>

lemma stale_backfill_window:
  "\<exists>p s1. cache_get app_load alone default_cache_options 0
       (\<lambda>s. snd (cache_update_stock app_update 1 9 s)) 1 (demo_world, 0) = (Inr p, s1)
     \<and> fst (cache_get app_load alone default_cache_options 0 (\<lambda>s. s) 1 s1) = Inr p
     \<and> pr_stock p = 3 \<and> map_option pr_stock (product_view 1 (wdb (fst s1))) = Some 9"
proof -
  have lk: "rlookup \<lparr>rkeys = Map.empty, rtime = 0\<rparr> k = None" for k
    by (simp add: rlookup_def)
  show ?thesis
    by (simp add: cache_run_simps lk demo_world_def demo_db_def marshal_product_def unmarshal_product_def
        json_num_def json_text_def fits_int64_def)
qed

end
