(* ===== verification/Services.thy ===== *)
theory Services
  imports Cache Inventory Breaker
begin

text \<open>
  The split deployment: the ports of \<open>internal/ports\<close>, their gRPC servers and clients
  (\<open>internal/adapter/grpcserver\<close>, \<open>internal/adapter/grpcclient\<close>), the asynchronous order service
  (\<open>internal/asyncorder\<close>) with the producer of \<open>cmd/order-service\<close>, and the HTTP gateway
  (\<open>internal/gateway\<close>). A port is a function on the world; a remote port is the client's mapping
  around \<open>rpc\<close> around the server's mapping around the port it serves.
\<close>

section \<open>Calls over the wire\<close>

text \<open>
  \<open>status.Code\<close>, \<open>status.FromContextError\<close> and the failures of the transport as gRPC documents them. A
  handler that panics takes its process down, and the client finds it unavailable.
\<close>

fun status_code :: "go_error \<Rightarrow> grpc_code" where
  "status_code (StatusError c) = c"
| "status_code (Wrapped e) = status_code e"
| "status_code _ = CodeUnknown"

definition from_context_error :: "go_error \<Rightarrow> grpc_code" where
  "from_context_error e = (if errors_is e ContextDeadlineExceeded then CodeDeadlineExceeded
     else if errors_is e ContextCanceled then CodeCanceled else CodeUnknown)"

fun net_code :: "net_error \<Rightarrow> grpc_code" where
  "net_code (NetOther s) = CodeUnavailable"
| "net_code NetCanceled = CodeCanceled"
| "net_code NetDeadline = CodeDeadlineExceeded"

definition rpc :: "(world \<Rightarrow> (go_error + 'a) go \<times> world) \<Rightarrow> world \<Rightarrow> (go_error + 'a) \<times> world" where
  "rpc handler w = (case next_fault w of
       (NoFault, w1) \<Rightarrow> (case handler w1 of
            (Ret x, w2) \<Rightarrow> (x, w2) | (Panic, w2) \<Rightarrow> (Inl (StatusError CodeUnavailable), w2))
     | (Lost e, w1) \<Rightarrow> (Inl (StatusError (net_code e)), w1)
     | (Unacked e, w1) \<Rightarrow> (Inl (StatusError (net_code e)), snd (handler w1)))"

lemma rpc_cases:
  assumes "rpc handler w = (x, w')"
  shows "\<exists>w1. wredis w1 = wredis w \<and> wdb w1 = wdb w \<and> wlog w1 = wlog w \<and>
    (handler w1 = (Ret x, w') \<or> (\<exists>c. x = Inl (StatusError c) \<and> c \<in> {CodeUnavailable, CodeCanceled, CodeDeadlineExceeded})
       \<and> (w' = w1 \<or> w' = snd (handler w1)))"
proof -
  obtain f w1 where f: "next_fault w = (f, w1)" by (rule prod.exhaust)
  note fr = next_fault_frame [OF f]
  have codes: "net_code e \<in> {CodeUnavailable, CodeCanceled, CodeDeadlineExceeded}" for e by (cases e) auto
  show ?thesis
    using assms f fr codes by (intro exI [of _ w1]) (auto simp: rpc_def split: fault.splits prod.splits go.splits)
qed

section \<open>Inventory: server and client\<close>

text \<open>The message carries the quantity as \<open>int32\<close>.\<close>

definition reserve_status :: "go_error \<Rightarrow> grpc_code" where
  "reserve_status e = (if errors_is e PortsInsufficientStock then CodeFailedPrecondition
     else if errors_is e ContextCanceled \<or> errors_is e ContextDeadlineExceeded then from_context_error e
     else CodeInternal)"

definition server_reserve :: "(reservation_req \<Rightarrow> world \<Rightarrow> (go_error + reservation) go \<times> world)
    \<Rightarrow> reservation_req \<Rightarrow> world \<Rightarrow> (go_error + reservation) go \<times> world" where
  "server_reserve port req w = (case port req w of
       (Panic, w') \<Rightarrow> (Panic, w')
     | (Ret (Inl e), w') \<Rightarrow> (Ret (Inl (StatusError (reserve_status e))), w')
     | (Ret (Inr r), w') \<Rightarrow> (Ret (Inr (r\<lparr>rs_quantity := to_int32 (rs_quantity r)\<rparr>)), w'))"

definition restore_status :: "go_error \<Rightarrow> grpc_code" where
  "restore_status e = (if errors_is e PortsReservationNotFound then CodeNotFound
     else if errors_is e PortsReservationConflict \<or> errors_is e PortsInvalidQuantity then CodeInvalidArgument
     else if errors_is e ContextCanceled \<or> errors_is e ContextDeadlineExceeded then from_context_error e
     else CodeInternal)"

definition server_restore :: "(reservation_req \<Rightarrow> world \<Rightarrow> (go_error + unit) \<times> world)
    \<Rightarrow> reservation_req \<Rightarrow> world \<Rightarrow> (go_error + unit) go \<times> world" where
  "server_restore port req w = (case port req w of
       (Inl e, w') \<Rightarrow> (Ret (Inl (StatusError (restore_status e))), w')
     | (Inr _, w') \<Rightarrow> (Ret (Inr ()), w'))"

definition server_get_product :: "(int \<Rightarrow> world \<Rightarrow> (go_error + product) \<times> world) \<Rightarrow> int \<Rightarrow> world
    \<Rightarrow> (go_error + product) go \<times> world" where
  "server_get_product port i w = (case port i w of
       (Inl e, w') \<Rightarrow> (Ret (Inl (StatusError (if errors_is e PortsCachedProductMiss then CodeNotFound else CodeInternal))), w')
     | (Inr p, w') \<Rightarrow> (Ret (Inr (p\<lparr>pr_stock := to_int32 (pr_stock p)\<rparr>)), w'))"

definition inventory_rpc_error :: "go_error \<Rightarrow> go_error" where
  "inventory_rpc_error e = (case status_code e of
       CodeFailedPrecondition \<Rightarrow> PortsInsufficientStock
     | CodeNotFound \<Rightarrow> PortsReservationNotFound
     | CodeInvalidArgument \<Rightarrow> PortsReservationConflict
     | CodeCanceled \<Rightarrow> ContextCanceled
     | CodeDeadlineExceeded \<Rightarrow> ContextDeadlineExceeded
     | _ \<Rightarrow> e)"

definition remote_reserve :: "(reservation_req \<Rightarrow> world \<Rightarrow> (go_error + reservation) go \<times> world)
    \<Rightarrow> reservation_req \<Rightarrow> world \<Rightarrow> (go_error + reservation) go \<times> world" where
  "remote_reserve port req w =
     (case rpc (server_reserve port (req\<lparr>rq_quantity := to_int32 (rq_quantity req)\<rparr>)) w of
        (Inl e, w') \<Rightarrow> (Ret (Inl (inventory_rpc_error e)), w')
      | (Inr r, w') \<Rightarrow> (Ret (Inr r), w'))"

definition remote_restore :: "(reservation_req \<Rightarrow> world \<Rightarrow> (go_error + unit) \<times> world)
    \<Rightarrow> reservation_req \<Rightarrow> world \<Rightarrow> (go_error + unit) \<times> world" where
  "remote_restore port req w =
     (case rpc (server_restore port (req\<lparr>rq_quantity := to_int32 (rq_quantity req)\<rparr>)) w of
        (Inl e, w') \<Rightarrow> (Inl (inventory_rpc_error e), w')
      | (Inr _, w') \<Rightarrow> (Inr (), w'))"

section \<open>Asynchronous orders\<close>

definition reservation_of :: "place_req \<Rightarrow> reservation_req" where
  "reservation_of req = \<lparr>rq_request = r_request req, rq_product = r_product req, rq_quantity = r_quantity req\<rparr>"

text \<open>\<open>errors.Join\<close> drops nil errors; the compensation runs on a context of its own.\<close>

definition async_place :: "(reservation_req \<Rightarrow> world \<Rightarrow> (go_error + reservation) go \<times> world)
    \<Rightarrow> (reservation_req \<Rightarrow> world \<Rightarrow> (go_error + unit) \<times> world)
    \<Rightarrow> (place_req \<Rightarrow> int \<Rightarrow> world \<Rightarrow> (go_error + unit) \<times> world)
    \<Rightarrow> int \<Rightarrow> place_req \<Rightarrow> world \<Rightarrow> (go_error + accepted_order) go \<times> world" where
  "async_place rsv rst produce now req w = (case rsv (reservation_of req) w of
       (Panic, w1) \<Rightarrow> (Panic, w1)
     | (Ret (Inl e), w1) \<Rightarrow> (Ret (Inl e), w1)
     | (Ret (Inr _), w1) \<Rightarrow>
        (case produce req now w1 of
           (Inl e, w2) \<Rightarrow> (case rst (reservation_of req) w2 of
                (Inl e', w3) \<Rightarrow> (Ret (Inl (Joined [e, e'])), w3)
              | (Inr _, w3) \<Rightarrow> (Ret (Inl (Joined [e])), w3))
         | (Inr _, w2) \<Rightarrow> (Ret (Inr \<lparr>ao_request = r_request req, ao_status = 202, ao_accepted = now\<rparr>), w2)))"

definition order_produce :: "string \<Rightarrow> place_req \<Rightarrow> int \<Rightarrow> world \<Rightarrow> (go_error + unit) \<times> world" where
  "order_produce topic req now w = produce_sync (order_record topic req now) w"

definition place_status :: "go_error \<Rightarrow> grpc_code" where
  "place_status e = (if errors_is e PortsInsufficientStock then CodeFailedPrecondition
     else if errors_is e PortsInvalidQuantity then CodeInvalidArgument
     else if errors_is e ContextCanceled \<or> errors_is e ContextDeadlineExceeded then from_context_error e
     else CodeInternal)"

definition accepted_proto :: "accepted_order \<Rightarrow> accepted_order" where
  "accepted_proto a = a\<lparr>ao_status := to_int32 (ao_status a)\<rparr>"

definition server_place_async :: "(place_req \<Rightarrow> world \<Rightarrow> (go_error + accepted_order) go \<times> world)
    \<Rightarrow> place_req \<Rightarrow> world \<Rightarrow> (go_error + accepted_order) go \<times> world" where
  "server_place_async port req w = (case port req w of
       (Panic, w') \<Rightarrow> (Panic, w')
     | (Ret (Inl e), w') \<Rightarrow> (Ret (Inl (StatusError (place_status e))), w')
     | (Ret (Inr a), w') \<Rightarrow> (Ret (Inr (accepted_proto a)), w'))"

definition order_rpc_error :: "go_error \<Rightarrow> go_error" where
  "order_rpc_error e = (case status_code e of
       CodeFailedPrecondition \<Rightarrow> PortsInsufficientStock
     | CodeInvalidArgument \<Rightarrow> PortsInvalidQuantity
     | CodeCanceled \<Rightarrow> ContextCanceled
     | CodeDeadlineExceeded \<Rightarrow> ContextDeadlineExceeded
     | _ \<Rightarrow> e)"

definition remote_place_async :: "(place_req \<Rightarrow> world \<Rightarrow> (go_error + accepted_order) go \<times> world)
    \<Rightarrow> place_req \<Rightarrow> world \<Rightarrow> (go_error + accepted_order) \<times> world" where
  "remote_place_async port req w =
     (case rpc (server_place_async port (req\<lparr>r_quantity := to_int32 (r_quantity req)\<rparr>)) w of
        (Inl e, w') \<Rightarrow> (Inl (order_rpc_error e), w')
      | (Inr a, w') \<Rightarrow> (Inr a, w'))"

text \<open>The injected faults of the canary version (\<open>cmd/order-service/main.go\<close>); a delay that is cut short by the
  context is \<open>Some\<close> of its error.\<close>

definition v2_fault_interceptor :: "string \<Rightarrow> string \<Rightarrow> int \<Rightarrow> bool \<Rightarrow> go_error option
    \<Rightarrow> (world \<Rightarrow> (go_error + 'a) go \<times> world) \<Rightarrow> world \<Rightarrow> (go_error + 'a) go \<times> world" where
  "v2_fault_interceptor version mode delay is_place interrupted handler w =
     (if version \<noteq> ''v2'' \<or> \<not> is_place then handler w
      else (case (if mode = ''delay'' \<and> 0 < delay then interrupted else None) of
          Some e \<Rightarrow> (Ret (Inl (StatusError (from_context_error e))), w)
        | None \<Rightarrow> (if mode = ''error'' then (Ret (Inl (StatusError CodeUnavailable)), w) else handler w)))"

section \<open>In-process adapters (internal/adapter/inprocess)\<close>

text \<open>The ports' orders and products have the fields of the packages they come from; only errors change.\<close>

definition adapter_order_error :: "go_error \<Rightarrow> go_error" where
  "adapter_order_error e = (if errors_is e OrderInsufficientStock then PortsInsufficientStock
     else if errors_is e OrderProductNotFound then PortsProductNotFound
     else if errors_is e OrderInvalidQuantity then PortsInvalidQuantity else e)"

definition adapter_place_order :: "(place_req \<Rightarrow> world \<Rightarrow> (go_error + order) \<times> world)
    \<Rightarrow> place_req \<Rightarrow> world \<Rightarrow> (go_error + order) \<times> world" where
  "adapter_place_order place req w = (case place req w of
       (Inl e, w') \<Rightarrow> (Inl (adapter_order_error e), w') | (Inr ord, w') \<Rightarrow> (Inr ord, w'))"

definition adapter_find_order :: "(string \<Rightarrow> world \<Rightarrow> (go_error + order) \<times> world)
    \<Rightarrow> string \<Rightarrow> world \<Rightarrow> (go_error + order) \<times> world" where
  "adapter_find_order finder rid w = (case finder rid w of
       (Inl e, w') \<Rightarrow> (Inl (if errors_is e SqlNoRows then PortsOrderNotFound else e), w') | (Inr ord, w') \<Rightarrow> (Inr ord, w'))"

definition adapter_get_product :: "(int \<Rightarrow> 's \<Rightarrow> (go_error + product) \<times> 's) \<Rightarrow> int \<Rightarrow> 's \<Rightarrow> (go_error + product) \<times> 's" where
  "adapter_get_product get i s = (case get i s of
       (Inl e, s') \<Rightarrow> (Inl (if errors_is e CacheProductNotFound then PortsCachedProductMiss else e), s') | (Inr p, s') \<Rightarrow> (Inr p, s'))"

section \<open>The HTTP gateway (internal/gateway)\<close>

text \<open>
  A reply is its status and its JSON body. A request body that does not bind (no JSON, a required field
  missing or zero) is \<open>None\<close>; \<open>text\<close> is \<open>Error()\<close>; \<open>RouterBody\<close> is what gin itself answers where no route
  matches. Metrics are not modelled.
\<close>

datatype http_body = ErrorBody string | OrderBody order | PendingBody string | ProductBody product
  | AcceptedBody string | PayloadBody degraded_payload | RouterBody

type_synonym http_reply = "int \<times> http_body"

definition bind_order :: "place_req option \<Rightarrow> place_req option" where
  "bind_order body = (case body of None \<Rightarrow> None
     | Some b \<Rightarrow> (if r_request b = '''' \<or> r_product b = 0 \<or> r_user b = 0 \<or> r_quantity b = 0 then None else Some b))"

definition http_place_order :: "(go_error \<Rightarrow> string) \<Rightarrow> (place_req \<Rightarrow> world \<Rightarrow> (go_error + order) \<times> world)
    \<Rightarrow> string \<Rightarrow> place_req option \<Rightarrow> world \<Rightarrow> http_reply \<times> world" where
  "http_place_order text port bad body w = (case bind_order body of
       None \<Rightarrow> ((400, ErrorBody bad), w)
     | Some req \<Rightarrow> (case port req w of
          (Inr ord, w') \<Rightarrow> ((200, OrderBody ord), w')
        | (Inl e, w') \<Rightarrow>
            (if errors_is e PortsInsufficientStock then ((409, ErrorBody (text e)), w')
             else if errors_is e PortsInvalidQuantity \<or> errors_is e PortsProductNotFound then ((400, ErrorBody (text e)), w')
             else ((500, ErrorBody (text e)), w'))))"

definition http_get_order :: "(go_error \<Rightarrow> string) \<Rightarrow> (string \<Rightarrow> world \<Rightarrow> (go_error + order) \<times> world)
    \<Rightarrow> string \<Rightarrow> world \<Rightarrow> http_reply \<times> world" where
  "http_get_order text port rid w = (case port rid w of
       (Inr ord, w') \<Rightarrow> ((200, OrderBody ord), w')
     | (Inl e, w') \<Rightarrow> (if errors_is e PortsOrderNotFound then (202, PendingBody rid) else (500, ErrorBody (text e)), w'))"

definition http_get_product :: "(go_error \<Rightarrow> string) \<Rightarrow> (int \<Rightarrow> 's \<Rightarrow> (go_error + product) \<times> 's)
    \<Rightarrow> int option \<Rightarrow> 's \<Rightarrow> http_reply \<times> 's" where
  "http_get_product text port parsed s = (case parsed of
       None \<Rightarrow> ((400, ErrorBody ''bad id''), s)
     | Some i \<Rightarrow> (case port i s of
          (Inr p, s') \<Rightarrow> ((200, ProductBody p), s')
        | (Inl e, s') \<Rightarrow> ((if errors_is e PortsCachedProductMiss then 404 else 500, ErrorBody (text e)), s')))"

text \<open>\<open>Int64RequestID\<close> over the id generator's answer: the text of the id, and its error.\<close>

definition int64_request_id :: "go_error + int \<Rightarrow> go_error + string" where
  "int64_request_id r = map_sum id show_int r"

definition async_http_place :: "(go_error \<Rightarrow> string) \<Rightarrow> go_error + string
    \<Rightarrow> (place_req \<Rightarrow> world \<Rightarrow> (go_error + accepted_order) \<times> world) \<Rightarrow> string \<Rightarrow> place_req option \<Rightarrow> world
    \<Rightarrow> http_reply \<times> world" where
  "async_http_place text generated port bad body w =
     (case (case body of None \<Rightarrow> None | Some b \<Rightarrow> (if r_product b = 0 then None else Some b)) of
        None \<Rightarrow> ((400, ErrorBody bad), w)
      | Some b \<Rightarrow>
        (case (if r_request b = '''' then generated else Inr (r_request b)) of
           Inl e \<Rightarrow> ((500, ErrorBody (text e)), w)
         | Inr rid \<Rightarrow>
           (case port (b\<lparr>r_request := rid, r_quantity := (if r_quantity b = 0 then 1 else r_quantity b)\<rparr>) w of
              (Inr a, w') \<Rightarrow> ((202, AcceptedBody (ao_request a)), w')
            | (Inl e, w') \<Rightarrow>
                (if errors_is e PortsInsufficientStock then ((409, ErrorBody (text e)), w')
                 else (case write_path_failure text e of (status, payload) \<Rightarrow> ((status, PayloadBody payload), w'))))))"

section \<open>What a reservation port keeps\<close>

lemma net_err_not_port [simp]: "net_err e \<noteq> PortsInsufficientStock" "PortsInsufficientStock \<noteq> net_err e"
  by (cases e; simp)+

text \<open>
  \<open>account req b r\<close>: the stock counter and the quantity this request holds, if it holds its
  reservation, add up to \<open>b\<close>; the reservation's state is one the scripts write.
\<close>

definition holds :: "reservation_req \<Rightarrow> redis \<Rightarrow> bool" where
  "holds req r = held (reservation_key (rq_request req)) ''reserved'' (rq_product req) (rq_quantity req) r"

definition account :: "reservation_req \<Rightarrow> int \<Rightarrow> redis \<Rightarrow> bool" where
  "account req b r \<longleftrightarrow>
     hget (reservation_key (rq_request req)) ''state'' r \<in> {Inr None, Inr (Some (Text ''reserved'')), Inr (Some (Text ''restored''))}
     \<and> (\<exists>n. counter r (stock_key (rq_product req)) = Some n \<and> b = n + (if holds req r then rq_quantity req else 0))"

text \<open>
  The port's laws: a call leaves the database and the log alone and keeps the account; an answered
  reservation is held, an answered restoration is not.
\<close>

locale reservation_port =
  fixes rsv :: "reservation_req \<Rightarrow> world \<Rightarrow> (go_error + reservation) go \<times> world"
    and rst :: "reservation_req \<Rightarrow> world \<Rightarrow> (go_error + unit) \<times> world"
  assumes rsv_frame: "rsv req w = (x, w') \<Longrightarrow> fits_int32 (rq_quantity req) \<Longrightarrow> wdb w' = wdb w \<and> wlog w' = wlog w"
    and rsv_keeps: "rsv req w = (x, w') \<Longrightarrow> fits_int32 (rq_quantity req) \<Longrightarrow> account req b (wredis w) \<Longrightarrow> account req b (wredis w')"
    and rsv_holds: "rsv req w = (Ret (Inr res), w') \<Longrightarrow> fits_int32 (rq_quantity req) \<Longrightarrow> holds req (wredis w')"
    and rsv_refuses: "rsv req w = (Ret (Inl e), w') \<Longrightarrow> fits_int32 (rq_quantity req) \<Longrightarrow> errors_is e PortsInsufficientStock \<Longrightarrow>
      e = PortsInsufficientStock \<and> wredis w' = wredis w"
    and rst_frame: "rst req w = (y, w') \<Longrightarrow> fits_int32 (rq_quantity req) \<Longrightarrow> wdb w' = wdb w \<and> wlog w' = wlog w"
    and rst_keeps: "rst req w = (y, w') \<Longrightarrow> fits_int32 (rq_quantity req) \<Longrightarrow> account req b (wredis w) \<Longrightarrow> account req b (wredis w')"
    and rst_releases: "rst req w = (Inr (), w') \<Longrightarrow> fits_int32 (rq_quantity req) \<Longrightarrow> \<not> holds req (wredis w')"
    and rst_errors: "rst req w = (Inl e, w') \<Longrightarrow> fits_int32 (rq_quantity req) \<Longrightarrow> \<not> errors_is e PortsInsufficientStock"
begin

text \<open>The asynchronous service over any such port and any producer that only appends its record.\<close>

lemma async_place_outcome:
  assumes "async_place rsv rst (order_produce topic) now req w = (x, w')" "fits_int32 (r_quantity req)"
  shows "wdb w' = wdb w" "account (reservation_of req) b (wredis w) \<Longrightarrow> account (reservation_of req) b (wredis w')"
    "x = Ret (Inr a) \<Longrightarrow> a = \<lparr>ao_request = r_request req, ao_status = 202, ao_accepted = now\<rparr>
       \<and> wlog w' = wlog w @ [order_record topic req now] \<and> holds (reservation_of req) (wredis w')"
    "x = Ret (Inl e) \<Longrightarrow> errors_is e PortsInsufficientStock \<Longrightarrow> e = PortsInsufficientStock \<and> wredis w' = wredis w \<and> wlog w' = wlog w"
    "wlog w' \<in> {wlog w, wlog w @ [order_record topic req now]}"
proof -
  let ?r = "reservation_of req"
  have fit: "fits_int32 (rq_quantity ?r)" using assms(2) by (simp add: reservation_of_def)
  obtain y w1 where y: "rsv ?r w = (y, w1)" by (rule prod.exhaust)
  note f1 = rsv_frame [OF y fit] and k1 = rsv_keeps [OF y fit]
  consider "y = Panic" | er where "y = Ret (Inl er)" | res where "y = Ret (Inr res)"
    by (metis go.exhaust sum.exhaust)
  then have "wdb w' = wdb w \<and> (account ?r b (wredis w) \<longrightarrow> account ?r b (wredis w')) \<and>
    (x = Ret (Inr a) \<longrightarrow> a = \<lparr>ao_request = r_request req, ao_status = 202, ao_accepted = now\<rparr>
       \<and> wlog w' = wlog w @ [order_record topic req now] \<and> holds ?r (wredis w')) \<and>
    (x = Ret (Inl e) \<longrightarrow> errors_is e PortsInsufficientStock \<longrightarrow> e = PortsInsufficientStock \<and> wredis w' = wredis w \<and> wlog w' = wlog w) \<and>
    wlog w' \<in> {wlog w, wlog w @ [order_record topic req now]}"
  proof cases
    case 1
    then have "x = Panic" "w' = w1" using assms(1) y by (simp_all add: async_place_def)
    then show ?thesis using f1 k1 by simp
  next
    case 2
    then have "x = Ret (Inl er)" "w' = w1" using assms(1) y by (simp_all add: async_place_def)
    moreover have "errors_is er PortsInsufficientStock \<Longrightarrow> er = PortsInsufficientStock \<and> wredis w1 = wredis w"
      using rsv_refuses [of ?r w er w1] y 2 fit by auto
    ultimately show ?thesis using f1 k1 by auto
  next
    case 3
    have h1: "holds ?r (wredis w1)" using rsv_holds [of ?r w res w1] y 3 fit by simp
    obtain z w2 where z: "produce_sync (order_record topic req now) w1 = (z, w2)" by (rule prod.exhaust)
    note p = produce_sync_cases [OF z]
    show ?thesis
    proof (cases z)
      case (Inr u)
      then have "x = Ret (Inr \<lparr>ao_request = r_request req, ao_status = 202, ao_accepted = now\<rparr>)" "w' = w2"
        using assms(1) y 3 z by (simp_all add: async_place_def order_produce_def)
      then show ?thesis using f1 k1 h1 p Inr by auto
    next
      case (Inl er)
      obtain v w3 where v: "rst ?r w2 = (v, w3)" by (rule prod.exhaust)
      have er: "\<not> errors_is er PortsInsufficientStock" using p Inl by auto
      have x: "w' = w3" "\<exists>es. x = Ret (Inl (Joined es)) \<and> (\<forall>e' \<in> set es. \<not> errors_is e' PortsInsufficientStock)"
        using assms(1) y 3 z Inl v er rst_errors [of ?r w2 _ w3] fit by (auto simp: async_place_def order_produce_def split: sum.splits)
      then have "\<forall>e. x = Ret (Inl e) \<longrightarrow> \<not> errors_is e PortsInsufficientStock" by (auto simp: list_ex_iff)
      then show ?thesis
        using x f1 k1 p rst_frame [OF v fit] rst_keeps [OF v fit, of b] by auto
    qed
  qed
  then show "wdb w' = wdb w" "account ?r b (wredis w) \<Longrightarrow> account ?r b (wredis w')"
    "x = Ret (Inr a) \<Longrightarrow> a = \<lparr>ao_request = r_request req, ao_status = 202, ao_accepted = now\<rparr>
       \<and> wlog w' = wlog w @ [order_record topic req now] \<and> holds ?r (wredis w')"
    "x = Ret (Inl e) \<Longrightarrow> errors_is e PortsInsufficientStock \<Longrightarrow> e = PortsInsufficientStock \<and> wredis w' = wredis w \<and> wlog w' = wlog w"
    "wlog w' \<in> {wlog w, wlog w @ [order_record topic req now]}"
    by blast+
qed

end

section \<open>The ports of the model\<close>

text \<open>The scripts' own errors are Redis errors, and the transport's are no sentinels.\<close>

lemma incrby_error: "incrby k q r = (Inl e, r') \<Longrightarrow> e = ScriptError"
  by (auto simp: incrby_def split: option.splits rvalue.splits payload.splits if_splits)

lemma hget_error: "hget k f r = Inl e \<Longrightarrow> e = ScriptError"
  by (auto simp: hget_def split: option.splits rvalue.splits)

lemma reserve_deduct_error: "reserve_deduct sk rk p q r = (Inl e, r') \<Longrightarrow> e = ScriptError"
  by (auto simp: reserve_deduct_def decrby_def split: option.splits rvalue.splits payload.splits if_splits
      sum.splits prod.splits dest: incrby_error)

lemma reserve_script_error: "reserve_script sk rk p q r = (Inl e, r') \<Longrightarrow> e = ScriptError"
  by (auto simp: reserve_script_def split: option.splits rvalue.splits payload.splits if_splits sum.splits
      dest: hget_error reserve_deduct_error)

lemma restore_script_error: "restore_script sk rk p q r = (Inl e, r') \<Longrightarrow> e = ScriptError"
  by (auto simp: restore_script_def split: option.splits if_splits sum.splits prod.splits
      dest: hget_error incrby_error)

lemmas script_error = reserve_script_error restore_script_error

lemma reserve_frame: "reserve req w = (x, w') \<Longrightarrow> wdb w' = wdb w \<and> wlog w' = wlog w"
  by (auto simp: reserve_def split: if_splits prod.splits sum.splits list.splits dest!: on_redis_cases)

lemma restore_frame: "restore req w = (x, w') \<Longrightarrow> wdb w' = wdb w \<and> wlog w' = wlog w"
  by (auto simp: restore_def split: if_splits prod.splits sum.splits dest!: on_redis_cases)

lemma reserve_refused:
  assumes "reserve req w = (Ret (Inl e), w')" "errors_is e PortsInsufficientStock"
  shows "e = PortsInsufficientStock \<and> wredis w' = wredis w"
proof (cases "rq_request req = '''' \<or> rq_product req \<le> 0 \<or> rq_quantity req \<le> 0")
  case True
  then show ?thesis using assms by (auto simp: reserve_def)
next
  case False
  let ?c = "reserve_script (stock_key (rq_product req)) (reservation_key (rq_request req)) (rq_product req) (rq_quantity req)"
  obtain y w1 where y: "on_redis ?c w = (y, w1)" by (rule prod.exhaust)
  show ?thesis
  proof (cases y)
    case (Inl e')
    then have "e = e'" using assms(1) False y by (simp add: reserve_def)
    then have "errors_is e' PortsInsufficientStock" using assms(2) by simp
    then show ?thesis
      using on_redis_Inl [OF y [unfolded Inl]] by (auto dest: script_error)
  next
    case (Inr reply)
    with assms(1) False y obtain code rest where r: "reply = code # rest" "w1 = w'"
      by (cases reply) (auto simp: reserve_def split: list.splits if_splits)
    then have "e = PortsInsufficientStock \<longrightarrow> code = -1"
      using assms(1) False y Inr by (auto simp: reserve_def split: list.splits if_splits)
    moreover have "e = PortsInsufficientStock"
      using assms False y Inr r by (auto simp: reserve_def split: list.splits if_splits)
    ultimately have "code = -1" "e = PortsInsufficientStock" by simp_all
    moreover have "?c (wredis w) = (Inr (code # rest), wredis w')"
      using on_redis_Inr [OF y [unfolded Inr]] r by simp
    ultimately show ?thesis using reserve_script_cases [of _ _ _ _ "wredis w"] by fastforce
  qed
qed

lemma restore_no_sentinel: "restore req w = (Inl e, w') \<Longrightarrow> \<not> errors_is e PortsInsufficientStock"
  by (auto simp: restore_def split: if_splits prod.splits sum.splits dest!: on_redis_Inl dest: script_error)

lemma account_reserve:
  assumes "account req b r"
  shows "account req b (reserve_step req r)"
proof -
  let ?sk = "stock_key (rq_product req)" and ?rk = "reservation_key (rq_request req)"
  obtain x r1 where run: "reserve_script ?sk ?rk (rq_product req) (rq_quantity req) r = (x, r1)" by (rule prod.exhaust)
  then have "reserve_step req r = r1" by (simp add: reserve_step_def)
  with reserve_script_cases [OF run] assms show ?thesis by (auto simp: account_def holds_def held_def)
qed

lemma account_restore:
  assumes "account req b r"
  shows "account req b (restore_step req r)"
proof -
  let ?sk = "stock_key (rq_product req)" and ?rk = "reservation_key (rq_request req)"
  obtain x r1 where run: "restore_script ?sk ?rk (rq_product req) (rq_quantity req) r = (x, r1)" by (rule prod.exhaust)
  then have step: "restore_step req r = r1" by (simp add: restore_step_def)
  from restore_script_cases [OF run reservation_key_neq(1)] show ?thesis
  proof
    assume "r1 = r \<and> x \<noteq> Inr 1"
    then show ?thesis using assms step by simp
  next
    assume "\<exists>m. x = Inr 1 \<and> m = (case counter r ?sk of Some n \<Rightarrow> n | None \<Rightarrow> 0) + rq_quantity req \<and> counter r1 ?sk = Some m
       \<and> held ?rk ''restored'' (rq_product req) (rq_quantity req) r1 \<and> \<not> held ?rk ''restored'' (rq_product req) (rq_quantity req) r"
    then have c: "x = Inr 1" "counter r1 ?sk = Some ((case counter r ?sk of Some n \<Rightarrow> n | None \<Rightarrow> 0) + rq_quantity req)"
      "held ?rk ''restored'' (rq_product req) (rq_quantity req) r1" by auto
    have "hget ?rk ''product_id'' r = Inr (Some (Num (rq_product req)))" "hget ?rk ''quantity'' r = Inr (Some (Num (rq_quantity req)))"
      "\<exists>st. hget ?rk ''state'' r = Inr (Some st) \<and> st \<noteq> Text ''restored''"
      using run c(1) by (auto simp: restore_script_def split: sum.splits option.splits if_splits)
    then have "holds req r" using assms by (auto simp: account_def holds_def held_def)
    then show ?thesis using assms c step by (auto simp: account_def holds_def held_def)
  qed
qed

lemma restore_releases:
  assumes "restore req w = (Inr (), w')"
  shows "\<not> holds req (wredis w')"
proof -
  let ?sk = "stock_key (rq_product req)" and ?rk = "reservation_key (rq_request req)"
  obtain code where code: "code = 0 \<or> code = 1"
    and run: "restore_script ?sk ?rk (rq_product req) (rq_quantity req) (wredis w) = (Inr code, wredis w')"
    using restore_Inr [OF assms] by blast
  show ?thesis
  proof (cases "code = 1")
    case True
    with restore_script_cases [OF run] show ?thesis by (auto simp: holds_def held_def)
  next
    case False
    then have "code = 0" using code by simp
    with run restore_script_cases [OF run] show ?thesis
      by (auto simp: restore_script_def holds_def held_def split: sum.splits option.splits if_splits prod.splits)
  qed
qed

interpretation local_inventory: reservation_port reserve restore
proof
  fix req w x w' b
  assume s: "reserve req w = (x, w')"
  from reserve_frame [OF s] show "wdb w' = wdb w \<and> wlog w' = wlog w" .
  show "account req b (wredis w')" if "account req b (wredis w)"
    using reserve_effect(1) [OF s] account_reserve [OF that] that by auto
next
  fix req w res w'
  assume "reserve req w = (Ret (Inr res), w')"
  from reserve_effect(2) [OF this] show "holds req (wredis w')" unfolding holds_def by blast
next
  fix req w e w'
  assume "reserve req w = (Ret (Inl e), w')" "errors_is e PortsInsufficientStock"
  then show "e = PortsInsufficientStock \<and> wredis w' = wredis w" by (rule reserve_refused)
next
  fix req w y w' b
  assume s: "restore req w = (y, w')"
  from restore_frame [OF s] show "wdb w' = wdb w \<and> wlog w' = wlog w" .
  show "account req b (wredis w')" if "account req b (wredis w)"
    using restore_effect(1) [OF s] account_restore [OF that] that by auto
next
  fix req w w'
  assume "restore req w = (Inr (), w')"
  then show "\<not> holds req (wredis w')" by (rule restore_releases)
next
  fix req w e w'
  assume "restore req w = (Inl e, w')"
  then show "\<not> errors_is e PortsInsufficientStock" by (rule restore_no_sentinel)
qed

text \<open>
  A port served over the wire keeps the laws, whatever the wire does: a call that is lost has done
  nothing, one whose answer is lost has done what the port does.
\<close>

abbreviation rpc_codes :: "grpc_code set" where
  "rpc_codes \<equiv> {CodeUnavailable, CodeCanceled, CodeDeadlineExceeded}"

lemma snd_server [simp]:
  "snd (server_reserve p req w) = snd (p req w)" "snd (server_restore p' req w) = snd (p' req w)"
  "snd (server_place_async p'' oreq w) = snd (p'' oreq w)"
  by (auto simp: server_reserve_def server_restore_def server_place_async_def split: prod.splits go.splits sum.splits)

lemma remote_reserve_cases:
  assumes "remote_reserve p req w = (x, w')" "fits_int32 (rq_quantity req)"
  shows "\<exists>w1. wredis w1 = wredis w \<and> wdb w1 = wdb w \<and> wlog w1 = wlog w \<and>
    ((\<exists>e. p req w1 = (Ret (Inl e), w') \<and> x = Ret (Inl (inventory_rpc_error (StatusError (reserve_status e)))))
     \<or> (\<exists>r. p req w1 = (Ret (Inr r), w') \<and> x = Ret (Inr (r\<lparr>rs_quantity := to_int32 (rs_quantity r)\<rparr>)))
     \<or> (\<exists>c \<in> rpc_codes. x = Ret (Inl (inventory_rpc_error (StatusError c)))) \<and> (w' = w1 \<or> w' = snd (p req w1)))"
proof -
  have req: "req\<lparr>rq_quantity := to_int32 (rq_quantity req)\<rparr> = req" using assms(2) by (simp add: to_int32_id)
  obtain z v where z: "rpc (server_reserve p req) w = (z, v)" by (rule prod.exhaust)
  then have x: "x = (case z of Inl e \<Rightarrow> Ret (Inl (inventory_rpc_error e)) | Inr r \<Rightarrow> Ret (Inr r))" "w' = v"
    using assms(1) req by (auto simp: remote_reserve_def split: sum.splits)
  obtain w1 where w1: "wredis w1 = wredis w \<and> wdb w1 = wdb w \<and> wlog w1 = wlog w"
    and h: "server_reserve p req w1 = (Ret z, v)
      \<or> (\<exists>c. z = Inl (StatusError c) \<and> c \<in> rpc_codes \<and> (v = w1 \<or> v = snd (server_reserve p req w1)))"
    using rpc_cases [OF z] by blast
  obtain y w2 where y: "p req w1 = (y, w2)" by (rule prod.exhaust)
  have "server_reserve p req w1 = (Ret z, v) \<Longrightarrow>
      (\<exists>e. y = Ret (Inl e) \<and> v = w2 \<and> z = Inl (StatusError (reserve_status e)))
      \<or> (\<exists>r. y = Ret (Inr r) \<and> v = w2 \<and> z = Inr (r\<lparr>rs_quantity := to_int32 (rs_quantity r)\<rparr>))"
    using y by (auto simp: server_reserve_def split: go.splits sum.splits)
  with h w1 y x show ?thesis by (intro exI [of _ w1]) auto
qed

lemma remote_restore_cases:
  assumes "remote_restore p req w = (x, w')" "fits_int32 (rq_quantity req)"
  shows "\<exists>w1. wredis w1 = wredis w \<and> wdb w1 = wdb w \<and> wlog w1 = wlog w \<and>
    ((\<exists>e. p req w1 = (Inl e, w') \<and> x = Inl (inventory_rpc_error (StatusError (restore_status e))))
     \<or> p req w1 = (Inr (), w') \<and> x = Inr ()
     \<or> (\<exists>c \<in> rpc_codes. x = Inl (inventory_rpc_error (StatusError c))) \<and> (w' = w1 \<or> w' = snd (p req w1)))"
proof -
  have req: "req\<lparr>rq_quantity := to_int32 (rq_quantity req)\<rparr> = req" using assms(2) by (simp add: to_int32_id)
  obtain z v where z: "rpc (server_restore p req) w = (z, v)" by (rule prod.exhaust)
  then have x: "x = (case z of Inl e \<Rightarrow> Inl (inventory_rpc_error e) | Inr r \<Rightarrow> Inr ())" "w' = v"
    using assms(1) req by (auto simp: remote_restore_def split: sum.splits)
  obtain w1 where w1: "wredis w1 = wredis w \<and> wdb w1 = wdb w \<and> wlog w1 = wlog w"
    and h: "server_restore p req w1 = (Ret z, v)
      \<or> (\<exists>c. z = Inl (StatusError c) \<and> c \<in> rpc_codes \<and> (v = w1 \<or> v = snd (server_restore p req w1)))"
    using rpc_cases [OF z] by blast
  obtain y w2 where y: "p req w1 = (y, w2)" by (rule prod.exhaust)
  have "server_restore p req w1 = (Ret z, v) \<Longrightarrow>
      (\<exists>e. y = Inl e \<and> v = w2 \<and> z = Inl (StatusError (restore_status e))) \<or> y = Inr () \<and> v = w2 \<and> z = Inr ()"
    using y by (auto simp: server_restore_def split: sum.splits)
  with h w1 y x show ?thesis by (intro exI [of _ w1]) auto
qed

lemma errors_is_rpc [simp]:
  "errors_is (inventory_rpc_error (StatusError c)) t \<longleftrightarrow> inventory_rpc_error (StatusError c) = t"
  by (cases c) (auto simp: inventory_rpc_error_def)

lemma insufficient_code [simp]:
  "inventory_rpc_error (StatusError c) = PortsInsufficientStock \<longleftrightarrow> c = CodeFailedPrecondition"
  "reserve_status e = CodeFailedPrecondition \<longleftrightarrow> errors_is e PortsInsufficientStock"
  "restore_status e \<noteq> CodeFailedPrecondition"
  by (cases c; simp add: inventory_rpc_error_def)
    (auto simp: reserve_status_def restore_status_def from_context_error_def)

context reservation_port
begin

lemma snd_rsv:
  assumes "fits_int32 (rq_quantity req)"
  shows "wdb (snd (rsv req w)) = wdb w \<and> wlog (snd (rsv req w)) = wlog w
    \<and> (account req b (wredis w) \<longrightarrow> account req b (wredis (snd (rsv req w))))"
  by (cases "rsv req w"; use assms rsv_frame rsv_keeps in simp)

lemma snd_rst:
  assumes "fits_int32 (rq_quantity req)"
  shows "wdb (snd (rst req w)) = wdb w \<and> wlog (snd (rst req w)) = wlog w
    \<and> (account req b (wredis w) \<longrightarrow> account req b (wredis (snd (rst req w))))"
  by (cases "rst req w"; use assms rst_frame rst_keeps in simp)

lemma remote_laws: "reservation_port (remote_reserve rsv) (remote_restore rst)"
proof
  fix req w x w' b
  assume s: "remote_reserve rsv req w = (x, w')" and fit: "fits_int32 (rq_quantity req)"
  obtain w1 where w1: "wredis w1 = wredis w" "wdb w1 = wdb w" "wlog w1 = wlog w" and "w' = w1 \<or> w' = snd (rsv req w1)"
    using remote_reserve_cases [OF s fit] by force
  with snd_rsv [OF fit, of w1 b]
  show "wdb w' = wdb w \<and> wlog w' = wlog w" "account req b (wredis w) \<Longrightarrow> account req b (wredis w')" by auto
next
  fix req w res w'
  assume s: "remote_reserve rsv req w = (Ret (Inr res), w')" and fit: "fits_int32 (rq_quantity req)"
  from remote_reserve_cases [OF this] rsv_holds [OF _ fit] show "holds req (wredis w')" by auto
next
  fix req w e w'
  assume s: "remote_reserve rsv req w = (Ret (Inl e), w')" and fit: "fits_int32 (rq_quantity req)"
    and e: "errors_is e PortsInsufficientStock"
  from remote_reserve_cases [OF s fit] e rsv_refuses [OF _ fit]
  show "e = PortsInsufficientStock \<and> wredis w' = wredis w" by auto
next
  fix req w y w' b
  assume s: "remote_restore rst req w = (y, w')" and fit: "fits_int32 (rq_quantity req)"
  obtain w1 where w1: "wredis w1 = wredis w" "wdb w1 = wdb w" "wlog w1 = wlog w" and "w' = w1 \<or> w' = snd (rst req w1)"
    using remote_restore_cases [OF s fit] by force
  with snd_rst [OF fit, of w1 b]
  show "wdb w' = wdb w \<and> wlog w' = wlog w" "account req b (wredis w) \<Longrightarrow> account req b (wredis w')" by auto
next
  fix req w w'
  assume s: "remote_restore rst req w = (Inr (), w')" and fit: "fits_int32 (rq_quantity req)"
  from remote_restore_cases [OF this] rst_releases [OF _ fit] show "\<not> holds req (wredis w')" by auto
next
  fix req w e w'
  assume s: "remote_restore rst req w = (Inl e, w')" and fit: "fits_int32 (rq_quantity req)"
  from remote_restore_cases [OF this] show "\<not> errors_is e PortsInsufficientStock" by auto
qed

end

interpretation remote_inventory: reservation_port "remote_reserve reserve" "remote_restore restore"
  by (rule local_inventory.remote_laws)

section \<open>The order service over the wire\<close>

lemma remote_place_cases:
  assumes "remote_place_async p req w = (x, w')" "fits_int32 (r_quantity req)"
  shows "\<exists>w1. wredis w1 = wredis w \<and> wdb w1 = wdb w \<and> wlog w1 = wlog w \<and>
    ((\<exists>e. p req w1 = (Ret (Inl e), w') \<and> x = Inl (order_rpc_error (StatusError (place_status e))))
     \<or> (\<exists>a. p req w1 = (Ret (Inr a), w') \<and> x = Inr (accepted_proto a))
     \<or> (\<exists>c \<in> rpc_codes. x = Inl (order_rpc_error (StatusError c))) \<and> (w' = w1 \<or> w' = snd (p req w1)))"
proof -
  have req: "req\<lparr>r_quantity := to_int32 (r_quantity req)\<rparr> = req" using assms(2) by (simp add: to_int32_id)
  obtain z v where z: "rpc (server_place_async p req) w = (z, v)" by (rule prod.exhaust)
  then have x: "x = (case z of Inl e \<Rightarrow> Inl (order_rpc_error e) | Inr r \<Rightarrow> Inr r)" "w' = v"
    using assms(1) req by (auto simp: remote_place_async_def split: sum.splits)
  obtain w1 where w1: "wredis w1 = wredis w \<and> wdb w1 = wdb w \<and> wlog w1 = wlog w"
    and h: "server_place_async p req w1 = (Ret z, v)
      \<or> (\<exists>c. z = Inl (StatusError c) \<and> c \<in> rpc_codes \<and> (v = w1 \<or> v = snd (server_place_async p req w1)))"
    using rpc_cases [OF z] by blast
  obtain y w2 where y: "p req w1 = (y, w2)" by (rule prod.exhaust)
  have "server_place_async p req w1 = (Ret z, v) \<Longrightarrow>
      (\<exists>e. y = Ret (Inl e) \<and> v = w2 \<and> z = Inl (StatusError (place_status e)))
      \<or> (\<exists>a. y = Ret (Inr a) \<and> v = w2 \<and> z = Inr (accepted_proto a))"
    using y by (auto simp: server_place_async_def split: go.splits sum.splits)
  with h w1 y x show ?thesis by (intro exI [of _ w1]) auto
qed

lemma errors_is_order_rpc [simp]:
  "errors_is (order_rpc_error (StatusError c)) t \<longleftrightarrow> order_rpc_error (StatusError c) = t"
  "order_rpc_error (StatusError c) = PortsInsufficientStock \<longleftrightarrow> c = CodeFailedPrecondition"
  "place_status e = CodeFailedPrecondition \<longleftrightarrow> errors_is e PortsInsufficientStock"
  by (cases c; simp add: order_rpc_error_def)+
    (auto simp: place_status_def from_context_error_def)

context reservation_port
begin

lemma remote_place_outcome:
  assumes "remote_place_async (async_place rsv rst (order_produce topic) now) req w = (x, w')" "fits_int32 (r_quantity req)"
  shows "wdb w' = wdb w" "account (reservation_of req) b (wredis w) \<Longrightarrow> account (reservation_of req) b (wredis w')"
    "x = Inr a \<Longrightarrow> ao_request a = r_request req \<and> wlog w' = wlog w @ [order_record topic req now]
       \<and> holds (reservation_of req) (wredis w')"
    "x = Inl e \<Longrightarrow> errors_is e PortsInsufficientStock \<Longrightarrow> wredis w' = wredis w \<and> wlog w' = wlog w"
    "wlog w' \<in> {wlog w, wlog w @ [order_record topic req now]}"
proof -
  let ?p = "async_place rsv rst (order_produce topic) now"
  obtain w1 where w1: "wredis w1 = wredis w" "wdb w1 = wdb w" "wlog w1 = wlog w"
    and c: "(\<exists>e. ?p req w1 = (Ret (Inl e), w') \<and> x = Inl (order_rpc_error (StatusError (place_status e))))
     \<or> (\<exists>a. ?p req w1 = (Ret (Inr a), w') \<and> x = Inr (accepted_proto a))
     \<or> (\<exists>c \<in> rpc_codes. x = Inl (order_rpc_error (StatusError c))) \<and> (w' = w1 \<or> w' = snd (?p req w1))"
    using remote_place_cases [OF assms] by blast
  obtain y w2 where y: "?p req w1 = (y, w2)" by (rule prod.exhaust)
  note out = async_place_outcome [OF y assms(2)]
  have w': "w' = w1 \<or> w' = w2" using c y by auto
  then show "wdb w' = wdb w" "wlog w' \<in> {wlog w, wlog w @ [order_record topic req now]}"
    using out(1,5) w1 by auto
  show "account (reservation_of req) b (wredis w')" if "account (reservation_of req) b (wredis w)"
    using w' out(2) [of b] w1 that by auto
  show "ao_request a = r_request req \<and> wlog w' = wlog w @ [order_record topic req now]
       \<and> holds (reservation_of req) (wredis w')" if hx: "x = Inr a"
  proof -
    obtain a' where "y = Ret (Inr a')" "w' = w2" "a = accepted_proto a'"
      using c y hx by auto
    then show ?thesis using out(3) [of a'] w1 by (simp add: accepted_proto_def)
  qed
  show "wredis w' = wredis w \<and> wlog w' = wlog w" if hx: "x = Inl e" "errors_is e PortsInsufficientStock"
  proof -
    obtain e' where "y = Ret (Inl e')" "w' = w2" "errors_is e' PortsInsufficientStock"
      using c y hx by auto
    then show ?thesis using out(4) [of e'] w1 by simp
  qed
qed

end

section \<open>Properties\<close>

text \<open>
  C8: what an order through the three processes amounts to. A client posts an order with a request id, a product
  other than 0 and a quantity that fits the 32 bits the wire carries (\<open>quantity_wraps_on_wire\<close> shows what a larger one becomes) to
  the gateway, which calls the order service, which calls the inventory service and the topic; any call may be lost
  before or after its execution. Then the database is untouched, the stock and what the request holds add up
  as before, and the topic got the request's record at most once; 202 was answered only if it did and the
  reservation is held, and 409 only if nothing at all happened.
\<close>

theorem split_order_accounts:
  assumes "async_http_place text generated
      (remote_place_async (async_place (remote_reserve reserve) (remote_restore restore) (order_produce topic) now))
      bad (Some b) w = ((status, reply), w')"
    and "r_request b \<noteq> ''''" "r_product b \<noteq> 0" "fits_int32 (r_quantity b)"
    and "req = b\<lparr>r_quantity := (if r_quantity b = 0 then 1 else r_quantity b)\<rparr>"
  shows "wdb w' = wdb w
     \<and> (account (reservation_of req) n (wredis w) \<longrightarrow> account (reservation_of req) n (wredis w'))
     \<and> wlog w' \<in> {wlog w, wlog w @ [order_record topic req now]}
     \<and> (status = 202 \<longrightarrow> reply = AcceptedBody (r_request b) \<and> wlog w' = wlog w @ [order_record topic req now]
          \<and> holds (reservation_of req) (wredis w'))
     \<and> (status = 409 \<longrightarrow> wredis w' = wredis w \<and> wlog w' = wlog w)
     \<and> status \<in> {202, 409, 429, 503}"
proof -
  let ?p = "remote_place_async (async_place (remote_reserve reserve) (remote_restore restore) (order_produce topic) now)"
  have fit: "fits_int32 (r_quantity req)" using assms(4,5) by (simp add: fits_int32_def)
  have req: "b\<lparr>r_request := r_request b, r_quantity := (if r_quantity b = 0 then 1 else r_quantity b)\<rparr> = req"
    using assms(5) by simp
  obtain x v where x: "?p req w = (x, v)" by (rule prod.exhaust)
  note out = remote_inventory.remote_place_outcome [OF x fit]
  have wf: "fst (write_path_failure text e) \<in> {429, 503}" for e by (rule write_path_no_success)
  show ?thesis
  proof (cases x)
    case (Inr a)
    then have "w' = v" "status = 202" "reply = AcceptedBody (ao_request a)"
      using assms(1,2,3) req x by (auto simp: async_http_place_def)
    then show ?thesis using out(1,2,5) out(3) [OF Inr] assms(5) by auto
  next
    case (Inl e)
    then have "w' = v" "status = 409 \<and> errors_is e PortsInsufficientStock \<or> status \<in> {429, 503}"
      using assms(1,2,3) req x wf [of e] by (auto simp: async_http_place_def split: if_splits prod.splits)
    then show ?thesis using out(1,2,5) out(4) [OF Inl] by auto
  qed
qed

abbreviation wire_order :: "string \<Rightarrow> int \<Rightarrow> place_req \<Rightarrow> world \<Rightarrow> (go_error + accepted_order) \<times> world" where
  "wire_order topic now \<equiv>
     remote_place_async (async_place (remote_reserve reserve) (remote_restore restore) (order_produce topic) now)"

lemmas wire_simps = remote_place_async_def server_place_async_def async_place_def remote_reserve_def server_reserve_def
  remote_restore_def server_restore_def order_produce_def produce_sync_def rpc_def reservation_of_def accepted_proto_def
  to_int32_def order_record_def

lemma warm_log: "wlog warm_world = []"
  by (simp add: warm_world_def demo_world_def)

theorem split_order_accounts_witness:
  "\<exists>reply w'. async_http_place (\<lambda>e. ''text'') (Inl RedisNil) (wire_order ''orders'' 5) ''bad'' (Some demo_req) warm_world = ((202, reply), w')
     \<and> wlog w' = [order_record ''orders'' demo_req 5] \<and> holds (reservation_of demo_req) (wredis w')"
proof -
  obtain reply w' where run: "async_http_place (\<lambda>e. ''text'') (Inl RedisNil) (wire_order ''orders'' 5) ''bad'' (Some demo_req) warm_world
      = ((202, reply), w')"
    by (simp add: async_http_place_def wire_simps reserve_run_simps demo_req_def warm_lookup warm_faults)
  from split_order_accounts [OF run, of demo_req 0] run warm_log show ?thesis
    by (auto simp: demo_req_def fits_int32_def)
qed

lemma remote_reserve_equiv_call:
  assumes "next_fault w = (NoFault, w1)" "fits_int32 (rq_quantity req)" "reserve req w1 = (Ret (Inr res), w')"
  shows "remote_reserve reserve req w = (Ret (Inr res), w')"
proof -
  have "rs_quantity res = rq_quantity req"
    using assms(3) by (auto simp: reserve_def split: if_splits prod.splits sum.splits list.splits)
  then have "res\<lparr>rs_quantity := to_int32 (rs_quantity res)\<rparr> = res" using assms(2) by (simp add: to_int32_id)
  moreover have "req\<lparr>rq_quantity := to_int32 (rq_quantity req)\<rparr> = req" using assms(2) by (simp add: to_int32_id)
  ultimately show ?thesis using assms(1,3) by (simp add: remote_reserve_def rpc_def server_reserve_def)
qed

text \<open>
  C28: the wire changes no answer that the order service tells apart. When the transport loses nothing, and the
  quantity fits the message, reserving remotely does what reserving locally does, answers the same
  reservation, keeps insufficient stock and the two context errors, and turns every other error
  (a conflicting reservation and a refused quantity among them) into a status Internal.
\<close>

theorem remote_reserve_equiv:
  assumes "next_fault w = (NoFault, w1)" "fits_int32 (rq_quantity req)"
  shows "(\<forall>res w'. reserve req w1 = (Ret (Inr res), w') \<longrightarrow> remote_reserve reserve req w = (Ret (Inr res), w'))
     \<and> (\<forall>e w'. reserve req w1 = (Ret (Inl e), w') \<longrightarrow> remote_reserve reserve req w =
          (Ret (Inl (if errors_is e PortsInsufficientStock then PortsInsufficientStock
             else if errors_is e ContextDeadlineExceeded then ContextDeadlineExceeded
             else if errors_is e ContextCanceled then ContextCanceled
             else StatusError CodeInternal)), w'))
     \<and> snd (remote_reserve reserve req w) = snd (reserve req w1)"
proof -
  have req: "req\<lparr>rq_quantity := to_int32 (rq_quantity req)\<rparr> = req" using assms(2) by (simp add: to_int32_id)
  have qty: "rs_quantity res = rq_quantity req" if "reserve req w1 = (Ret (Inr res), w')" for res w'
    using that by (auto simp: reserve_def split: if_splits prod.splits sum.splits list.splits)
  obtain y w2 where y: "reserve req w1 = (y, w2)" by (rule prod.exhaust)
  consider "y = Panic" | e where "y = Ret (Inl e)" | res where "y = Ret (Inr res)" by (metis go.exhaust sum.exhaust)
  then show ?thesis
  proof cases
    case 1
    then show ?thesis using y assms(1) req by (simp add: remote_reserve_def rpc_def server_reserve_def)
  next
    case 2
    then show ?thesis
      using y assms(1) req
      by (simp add: remote_reserve_def rpc_def server_reserve_def reserve_status_def inventory_rpc_error_def from_context_error_def)
  next
    case 3
    then have "res\<lparr>rs_quantity := to_int32 (rs_quantity res)\<rparr> = res" using qty [of res] y assms(2) by (simp add: to_int32_id)
    then show ?thesis using 3 y assms(1) req by (simp add: remote_reserve_def rpc_def server_reserve_def)
  qed
qed

theorem remote_reserve_equiv_witness:
  "\<exists>res w'. remote_reserve reserve demo_reservation warm_world = (Ret (Inr res), w') \<and> rs_remaining res = 1"
proof -
  obtain res w' where run: "reserve demo_reservation warm_world = (Ret (Inr res), w')" "rs_remaining res = 1"
    by (simp add: reserve_run_simps demo_reservation_def warm_lookup warm_faults)
  have "next_fault warm_world = (NoFault, warm_world)" by (simp add: next_fault_def warm_faults)
  from remote_reserve_equiv [OF this, of demo_reservation] run show ?thesis
    by (auto simp: demo_reservation_def fits_int32_def)
qed

text \<open>
  the quantity travels modulo 2 to the 32nd. An order for \<open>k\<close> times 2 to the 32nd items more is, to the order
  service, the same order: the gateway sends 4294967297 items as one, and the customer is answered that the order was accepted.
\<close>

theorem quantity_wraps_on_wire:
  "remote_place_async port (req\<lparr>r_quantity := r_quantity req + k * 2 ^ 32\<rparr>) w = remote_place_async port req w
   \<and> (\<exists>w'. async_http_place (\<lambda>e. ''text'') (Inl RedisNil) (wire_order ''orders'' 5) ''bad'' (Some (demo_req\<lparr>r_quantity := 2 ^ 32 + 1\<rparr>)) warm_world
        = ((202, AcceptedBody ''r1''), w')
       \<and> wlog w' = [order_record ''orders'' (demo_req\<lparr>r_quantity := 1\<rparr>) 5]
       \<and> counter (wredis w') (stock_key 1) = Some 2)"
proof
  have "to_int32 (r_quantity req + k * 2 ^ 32) = to_int32 (r_quantity req)"
    by (simp add: to_int32_def signed_take_bit_eq_iff_take_bit_eq take_bit_eq_mod)
  then show "remote_place_async port (req\<lparr>r_quantity := r_quantity req + k * 2 ^ 32\<rparr>) w = remote_place_async port req w"
    by (simp add: remote_place_async_def)
next
  show "\<exists>w'. async_http_place (\<lambda>e. ''text'') (Inl RedisNil) (wire_order ''orders'' 5) ''bad'' (Some (demo_req\<lparr>r_quantity := 2 ^ 32 + 1\<rparr>)) warm_world
        = ((202, AcceptedBody ''r1''), w')
       \<and> wlog w' = [order_record ''orders'' (demo_req\<lparr>r_quantity := 1\<rparr>) 5]
       \<and> counter (wredis w') (stock_key 1) = Some 2"
    by (simp add: async_http_place_def wire_simps reserve_run_simps demo_req_def warm_lookup warm_faults warm_log counter_def)
qed

section \<open>Compensations\<close>

text \<open>The two scripts where they must succeed, and the remote calls around them when nothing fails.\<close>

lemma on_redis_NoFault:
  "next_fault w = (NoFault, w1) \<Longrightarrow> on_redis cmd w = (fst (cmd (wredis w)), w1\<lparr>wredis := snd (cmd (wredis w))\<rparr>)"
  by (simp add: on_redis_def next_fault_frame [of w NoFault w1])

definition reservable :: "reservation_req \<Rightarrow> int \<Rightarrow> redis \<Rightarrow> bool" where
  "reservable req n r \<longleftrightarrow> counter r (stock_key (rq_product req)) = Some n
     \<and> (holds req r \<or> hget (reservation_key (rq_request req)) ''state'' r = Inr None \<and> rq_quantity req \<le> n)"

lemma reserve_script_ready:
  assumes "reservable req n r" "0 < rq_quantity req" "0 \<le> n" "fits_int64 n"
  shows "\<exists>code remaining r'. reserve_script (stock_key (rq_product req)) (reservation_key (rq_request req))
        (rq_product req) (rq_quantity req) r = (Inr [code, remaining], r')
     \<and> code \<in> {0, 1} \<and> holds req r' \<and> counter r' (stock_key (rq_product req)) = Some (if holds req r then n else n - rq_quantity req)"
proof -
  let ?sk = "stock_key (rq_product req)" and ?rk = "reservation_key (rq_request req)"
  have n: "rlookup r ?sk = Some (RString (Num n))" using assms(1) by (simp add: reservable_def counter_Some_iff)
  show ?thesis
  proof (cases "holds req r")
    case True
    then have "reserve_script ?sk ?rk (rq_product req) (rq_quantity req) r = (Inr [1, n], r)"
      using n by (simp add: reserve_script_def holds_def held_def)
    then show ?thesis using True n by (simp add: counter_Some_iff)
  next
    case False
    have f: "fits_int64 (n - rq_quantity req)" and le: "rq_quantity req \<le> n"
      using assms False by (auto simp: fits_int64_def reservable_def)
    have d: "decrby ?sk (rq_quantity req) r
        = (Inr (n - rq_quantity req), rmodify ?sk (RString (Num (n - rq_quantity req))) r)"
      using n f by (simp add: decrby_def incrby_def)
    have "\<exists>r'. reserve_script ?sk ?rk (rq_product req) (rq_quantity req) r = (Inr [0, n - rq_quantity req], r')"
      using assms(1) False n d le by (simp add: reserve_script_def reserve_deduct_def reservable_def)
    then obtain r' where r': "reserve_script ?sk ?rk (rq_product req) (rq_quantity req) r = (Inr [0, n - rq_quantity req], r')" by blast
    from reserve_script_cases [OF this reservation_key_neq(1)] r' False show ?thesis by (auto simp: holds_def)
  qed
qed

lemma remote_reserve_ready:
  assumes "next_fault w = (NoFault, w1)" "next_fault w1 = (NoFault, w2)" "reservable req n (wredis w)" "0 \<le> n" "fits_int64 n"
    and "rq_request req \<noteq> ''''" "0 < rq_product req" "0 < rq_quantity req" "fits_int32 (rq_quantity req)"
  shows "\<exists>res r'. remote_reserve reserve req w = (Ret (Inr res), w2\<lparr>wredis := r'\<rparr>) \<and> holds req r'
     \<and> counter r' (stock_key (rq_product req)) = Some (if holds req (wredis w) then n else n - rq_quantity req)"
proof -
  let ?c = "reserve_script (stock_key (rq_product req)) (reservation_key (rq_request req)) (rq_product req) (rq_quantity req)"
  obtain code remaining r' where s: "?c (wredis w) = (Inr [code, remaining], r')" "code \<in> {0, 1}" "holds req r'"
    "counter r' (stock_key (rq_product req)) = Some (if holds req (wredis w) then n else n - rq_quantity req)"
    using reserve_script_ready [OF assms(3,8,4,5)] by blast
  have "wredis w1 = wredis w" using next_fault_frame [OF assms(1)] by simp
  then have "on_redis ?c w1 = (Inr [code, remaining], w2\<lparr>wredis := r'\<rparr>)"
    using on_redis_NoFault [OF assms(2), of ?c] s(1) by simp
  then obtain res where res: "reserve req w1 = (Ret (Inr res), w2\<lparr>wredis := r'\<rparr>)"
    using assms(6-8) s(2) by (auto simp: reserve_def)
  from remote_reserve_equiv_call [OF assms(1,9) res] s(3,4) show ?thesis by auto
qed

lemma remote_restore_ready:
  assumes "next_fault w = (NoFault, w1)" "next_fault w1 = (NoFault, w2)" "holds req (wredis w)"
    and "counter (wredis w) (stock_key (rq_product req)) = Some m" "fits_int64 (m + rq_quantity req)" "fits_int32 (rq_quantity req)"
  shows "\<exists>r'. remote_restore restore req w = (Inr (), w2\<lparr>wredis := r'\<rparr>) \<and> \<not> holds req r'
     \<and> counter r' (stock_key (rq_product req)) = Some (m + rq_quantity req)"
proof -
  let ?sk = "stock_key (rq_product req)" and ?rk = "reservation_key (rq_request req)"
  let ?c = "restore_script ?sk ?rk (rq_product req) (rq_quantity req)"
  obtain x r' where r': "?c (wredis w) = (x, r')" by (rule prod.exhaust)
  have x: "x = Inr 1"
    using r' assms(3) incrby_counter [OF assms(4,5)] by (simp add: restore_script_def holds_def held_def)
  from restore_script_cases [OF r' reservation_key_neq(1)] x assms(4)
  have s: "counter r' ?sk = Some (m + rq_quantity req)" "\<not> holds req r'" by (auto simp: holds_def held_def)
  have "wredis w1 = wredis w" using next_fault_frame [OF assms(1)] by simp
  then have "on_redis ?c w1 = (Inr 1, w2\<lparr>wredis := r'\<rparr>)"
    using on_redis_NoFault [OF assms(2), of ?c] r' x by simp
  then have "restore req w1 = (Inr (), w2\<lparr>wredis := r'\<rparr>)" by (simp add: restore_def)
  moreover have "req\<lparr>rq_quantity := to_int32 (rq_quantity req)\<rparr> = req" using assms(6) by (simp add: to_int32_id)
  ultimately have "remote_restore restore req w = (Inr (), w2\<lparr>wredis := r'\<rparr>)"
    using assms(1) by (simp add: remote_restore_def rpc_def server_restore_def)
  with s show ?thesis by blast
qed

lemma reservation_of_simps [simp]:
  "rq_request (reservation_of req) = r_request req" "rq_product (reservation_of req) = r_product req"
  "rq_quantity (reservation_of req) = r_quantity req"
  by (simp_all add: reservation_of_def)

text \<open>An order up to the produce call, when the calls before it answer.\<close>

lemma wire_order_ready:
  assumes "next_fault w = (NoFault, w1)" "next_fault w1 = (NoFault, w2)" "next_fault w2 = (NoFault, w3)"
    and "reservable (reservation_of req) n (wredis w)" "0 \<le> n" "fits_int64 n"
    and "r_request req \<noteq> ''''" "0 < r_product req" "0 < r_quantity req" "fits_int32 (r_quantity req)"
  shows "\<exists>v. wdb v = wdb w \<and> wlog v = wlog w \<and> wfaults v = wfaults w3 \<and> holds (reservation_of req) (wredis v)
     \<and> counter (wredis v) (stock_key (r_product req))
        = Some (if holds (reservation_of req) (wredis w) then n else n - r_quantity req)
     \<and> wire_order topic now req w =
        (case produce_sync (order_record topic req now) v of
           (Inr _, v1) \<Rightarrow> (Inr \<lparr>ao_request = r_request req, ao_status = 202, ao_accepted = now\<rparr>, v1)
         | (Inl e, v1) \<Rightarrow> (case remote_restore restore (reservation_of req) v1 of
              (Inl e', v2) \<Rightarrow> (Inl (order_rpc_error (StatusError (place_status (Joined [e, e'])))), v2)
            | (Inr _, v2) \<Rightarrow> (Inl (order_rpc_error (StatusError (place_status (Joined [e])))), v2)))"
proof -
  have fr: "wredis w1 = wredis w" using next_fault_frame [OF assms(1)] by simp
  obtain res r' where r: "remote_reserve reserve (reservation_of req) w1 = (Ret (Inr res), w3\<lparr>wredis := r'\<rparr>)"
    "holds (reservation_of req) r'" "counter r' (stock_key (r_product req))
        = Some (if holds (reservation_of req) (wredis w) then n else n - r_quantity req)"
    using remote_reserve_ready [OF assms(2,3), of "reservation_of req" n] assms(4-) fr by auto
  have req: "req\<lparr>r_quantity := to_int32 (r_quantity req)\<rparr> = req" using assms(10) by (simp add: to_int32_id)
  have fr3: "wdb w3 = wdb w \<and> wlog w3 = wlog w"
    using next_fault_frame [OF assms(1)] next_fault_frame [OF assms(2)] next_fault_frame [OF assms(3)] by simp
  show ?thesis
    using r fr3 assms(1) req
    by (intro exI [of _ "w3\<lparr>wredis := r'\<rparr>"])
      (auto simp: remote_place_async_def rpc_def server_place_async_def async_place_def order_produce_def accepted_proto_def
        to_int32_id fits_int32_def split: prod.splits sum.splits)
qed

section \<open>The compensation's flaw\<close>

text \<open>
  C37: a compensation can take an accepted order's reservation. Take a request with an id, a positive product id and a positive quantity
  of 32 bits, and a stock counter that is not negative and has room for that quantity in 64 bits. Either the order was just accepted and queued,
  and the retry of the same request finds the reservation and fails to reach the topic; or the request is new, the stock is enough, and its first call
  reaches the topic and only the topic's answer is lost. In both cases, when the other calls answer, the customer is told that the order failed and the compensation
  gives the quantity back to the stock counter, so the request holds nothing any more, and yet its record is in the topic.
\<close>

theorem compensation_frees_accepted_order:
  assumes "r_request req \<noteq> ''''" "0 < r_product req" "0 < r_quantity req" "fits_int32 (r_quantity req)"
    and "counter (wredis w) (stock_key (r_product req)) = Some n" "0 \<le> n" "fits_int64 (n + r_quantity req)"
    and "f = Lost e \<and> wire_order topic t req w0 = (Inr a, w)
      \<or> f = Unacked e \<and> r_quantity req \<le> n \<and> hget (reservation_key (r_request req)) ''state'' (wredis w) = Inr None"
    and "wire_order topic now req (w\<lparr>wfaults := [NoFault, NoFault, NoFault, f]\<rparr>) = (x, w')"
  shows "(\<exists>e'. x = Inl e') \<and> \<not> holds (reservation_of req) (wredis w')
    \<and> counter (wredis w') (stock_key (r_product req)) = Some (if f = Lost e then n + r_quantity req else n)
    \<and> (\<exists>t'. order_record topic req t' \<in> set (wlog w'))"
proof -
  let ?w = "w\<lparr>wfaults := [NoFault, NoFault, NoFault, f]\<rparr>" and ?r = "reservation_of req" and ?sk = "stock_key (r_product req)"
  have early: "holds ?r (wredis w) \<and> order_record topic req t \<in> set (wlog w)" if "f = Lost e"
    using assms(8) that remote_inventory.remote_place_outcome(3) [of topic t req w0 "Inr a" w a] assms(4) by auto
  have late: "\<not> holds ?r (wredis w) \<and> r_quantity req \<le> n" if "f = Unacked e"
    using assms(8) that by (auto simp: holds_def held_def)
  have f: "f = Lost e \<or> f = Unacked e" using assms(8) by blast
  have ready: "reservable ?r n (wredis ?w)" using assms(5,8) early by (auto simp: reservable_def)
  have fit: "fits_int64 n" using assms(3,6,7) by (simp add: fits_int64_def)
  obtain v where v: "wlog v = wlog w" "wfaults v = [f]" "holds ?r (wredis v)"
    "counter (wredis v) ?sk = Some (if f = Lost e then n else n - r_quantity req)"
    and run: "wire_order topic now req ?w =
        (case produce_sync (order_record topic req now) v of
           (Inr _, v1) \<Rightarrow> (Inr \<lparr>ao_request = r_request req, ao_status = 202, ao_accepted = now\<rparr>, v1)
         | (Inl e, v1) \<Rightarrow> (case remote_restore restore (reservation_of req) v1 of
              (Inl e', v2) \<Rightarrow> (Inl (order_rpc_error (StatusError (place_status (Joined [e, e'])))), v2)
            | (Inr _, v2) \<Rightarrow> (Inl (order_rpc_error (StatusError (place_status (Joined [e])))), v2)))"
    using wire_order_ready [OF _ _ _ ready assms(6) fit assms(1-4), of "w\<lparr>wfaults := [NoFault, NoFault, f]\<rparr>"
        "w\<lparr>wfaults := [NoFault, f]\<rparr>" "w\<lparr>wfaults := [f]\<rparr>" topic now] f early late
    by (auto simp: next_fault_def)
  obtain z v1 where z: "produce_sync (order_record topic req now) v = (z, v1)" by (rule prod.exhaust)
  have p: "z = Inl (net_err e)" "wredis v1 = wredis v" "wfaults v1 = []"
    "wlog v1 = (if f = Lost e then wlog w else wlog w @ [order_record topic req now])"
    using z v(1,2) f by (auto simp: produce_sync_def next_fault_def)
  have nf: "next_fault v1 = (NoFault, v1)" using p(3) by (simp add: next_fault_def)
  let ?m = "if f = Lost e then n else n - r_quantity req"
  have m: "fits_int64 (?m + r_quantity req)" using assms(7) fit by simp
  obtain r' where r': "remote_restore restore ?r v1 = (Inr (), v1\<lparr>wredis := r'\<rparr>)" "\<not> holds ?r r'"
    "counter r' ?sk = Some (?m + r_quantity req)"
    using remote_restore_ready [OF nf nf, of ?r ?m] v(3,4) p(2) m assms(4) by auto
  have "x = Inl (order_rpc_error (StatusError (place_status (Joined [net_err e]))))" "w' = v1\<lparr>wredis := r'\<rparr>"
    using assms(9) run z p(1) r'(1) by auto
  then show ?thesis using r' p(4) early f by auto
qed

text \<open>The retry of a queued order, and a single call whose record is in the topic.\<close>

theorem compensation_frees_accepted_order_witness:
  "(\<exists>a w1 x w2. wire_order ''orders'' 5 demo_req warm_world = (Inr a, w1)
      \<and> wire_order ''orders'' 6 demo_req (w1\<lparr>wfaults := [NoFault, NoFault, NoFault, Lost NetDeadline]\<rparr>) = (x, w2)
      \<and> counter (wredis w1) (stock_key 1) = Some 1 \<and> counter (wredis w2) (stock_key 1) = Some 3)
   \<and> (\<exists>x w1. wire_order ''orders'' 5 demo_req (warm_world\<lparr>wfaults := [NoFault, NoFault, NoFault, Unacked NetDeadline]\<rparr>) = (x, w1)
      \<and> counter (wredis w1) (stock_key 1) = Some 3)"
proof
  obtain a w1 where acc: "wire_order ''orders'' 5 demo_req warm_world = (Inr a, w1)" "counter (wredis w1) (stock_key 1) = Some 1"
    by (simp add: wire_simps reserve_run_simps demo_req_def warm_lookup warm_faults warm_log counter_def)
  obtain x w2 where x: "wire_order ''orders'' 6 demo_req (w1\<lparr>wfaults := [NoFault, NoFault, NoFault, Lost NetDeadline]\<rparr>) = (x, w2)"
    by (rule prod.exhaust)
  from compensation_frees_accepted_order [OF _ _ _ _ _ _ _ _ x, of 1 NetDeadline 5 warm_world a] acc
  have "counter (wredis w2) (stock_key 1) = Some 3"
    by (simp add: demo_req_def fits_int32_def fits_int64_def)
  with acc x show "\<exists>a w1 x w2. wire_order ''orders'' 5 demo_req warm_world = (Inr a, w1)
      \<and> wire_order ''orders'' 6 demo_req (w1\<lparr>wfaults := [NoFault, NoFault, NoFault, Lost NetDeadline]\<rparr>) = (x, w2)
      \<and> counter (wredis w1) (stock_key 1) = Some 1 \<and> counter (wredis w2) (stock_key 1) = Some 3" by blast
next
  obtain x w1 where x: "wire_order ''orders'' 5 demo_req (warm_world\<lparr>wfaults := [NoFault, NoFault, NoFault, Unacked NetDeadline]\<rparr>) = (x, w1)"
    by (rule prod.exhaust)
  from compensation_frees_accepted_order [OF _ _ _ _ _ _ _ _ x, of 3 NetDeadline 0 warm_world "undefined"]
  have "counter (wredis w1) (stock_key 1) = Some 3"
    by (simp add: demo_req_def fits_int32_def fits_int64_def hget_def warm_lookup counter_def)
  with x show "\<exists>x w1. wire_order ''orders'' 5 demo_req (warm_world\<lparr>wfaults := [NoFault, NoFault, NoFault, Unacked NetDeadline]\<rparr>) = (x, w1)
      \<and> counter (wredis w1) (stock_key 1) = Some 3" by blast
qed

end
