(* ===== verification/Pipeline.thy ===== *)
theory Pipeline
  imports Services
begin

text \<open>
  The asynchronous path from end to end: gateway, order service and inventory service on one side of the topic,
  the consumer loop and the database on the other. A step relation interleaves posts, deliveries and changes of the network; its
  invariant is that Redis never promises more than the database has.
\<close>

section \<open>The scripts a reservation port runs\<close>

inductive runs :: "reservation_req \<Rightarrow> redis \<Rightarrow> redis \<Rightarrow> bool" for req where
  runs_none: "runs req r r"
| runs_reserve: "runs req r r' \<Longrightarrow> runs req r (reserve_step req r')"
| runs_restore: "runs req r r' \<Longrightarrow> runs req r (restore_step req r')"

lemma runs_trans: "runs req r' r'' \<Longrightarrow> runs req r r' \<Longrightarrow> runs req r r''"
  by (induction rule: runs.induct) (auto intro: runs.intros)

text \<open>A port that touches Redis only by running the two scripts for its request, any number of times.\<close>

locale script_port = reservation_port +
  assumes rsv_runs: "rsv req w = (x, w') \<Longrightarrow> fits_int32 (rq_quantity req) \<Longrightarrow> runs req (wredis w) (wredis w')"
    and rst_runs: "rst req w = (y, w') \<Longrightarrow> fits_int32 (rq_quantity req) \<Longrightarrow> runs req (wredis w) (wredis w')"
begin

lemma snd_runs:
  assumes "fits_int32 (rq_quantity req)"
  shows "runs req (wredis w) (wredis (snd (rsv req w)))" "runs req (wredis w) (wredis (snd (rst req w)))"
  by (cases "rsv req w"; use assms rsv_runs in simp) (cases "rst req w"; use assms rst_runs in simp)

lemma async_place_runs:
  assumes "async_place rsv rst (order_produce topic) now req w = (x, w')" "fits_int32 (r_quantity req)"
  shows "runs (reservation_of req) (wredis w) (wredis w')"
proof -
  let ?r = "reservation_of req"
  have fit: "fits_int32 (rq_quantity ?r)" using assms(2) by (simp add: reservation_of_def)
  obtain y w1 where y: "rsv ?r w = (y, w1)" by (rule prod.exhaust)
  obtain z w2 where z: "produce_sync (order_record topic req now) w1 = (z, w2)" by (rule prod.exhaust)
  obtain v w3 where v: "rst ?r w2 = (v, w3)" by (rule prod.exhaust)
  have 1: "runs ?r (wredis w) (wredis w1)" using rsv_runs [OF y fit] .
  have 2: "wredis w2 = wredis w1" using produce_sync_cases [OF z] by auto
  have 3: "runs ?r (wredis w) (wredis w3)" using runs_trans [OF rst_runs [OF v fit]] 1 2 by simp
  have "w' \<in> {w1, w2, w3}"
    using assms(1) y z v by (auto simp: async_place_def order_produce_def split: go.splits sum.splits)
  then show ?thesis using 1 2 3 by auto
qed

lemma remote_scripts: "script_port (remote_reserve rsv) (remote_restore rst)"
proof (intro script_port.intro script_port_axioms.intro remote_laws)
  fix req w x w'
  assume s: "remote_reserve rsv req w = (x, w')" and fit: "fits_int32 (rq_quantity req)"
  obtain w1 where "wredis w1 = wredis w" "w' = w1 \<or> w' = snd (rsv req w1)"
    using remote_reserve_cases [OF s fit] by force
  then show "runs req (wredis w) (wredis w')" using snd_runs(1) [OF fit, of w1] by (auto intro: runs_none)
next
  fix req w x w'
  assume s: "remote_restore rst req w = (x, w')" and fit: "fits_int32 (rq_quantity req)"
  obtain w1 where "wredis w1 = wredis w" "w' = w1 \<or> w' = snd (rst req w1)"
    using remote_restore_cases [OF s fit] by force
  then show "runs req (wredis w) (wredis w')" using snd_runs(2) [OF fit, of w1] by (auto intro: runs_none)
qed

lemma remote_place_runs:
  assumes "remote_place_async (async_place rsv rst (order_produce topic) now) req w = (x, w')" "fits_int32 (r_quantity req)"
  shows "runs (reservation_of req) (wredis w) (wredis w')"
proof -
  obtain w1 where w1: "wredis w1 = wredis w"
    and c: "w' = w1 \<or> w' = snd (async_place rsv rst (order_produce topic) now req w1)"
    using remote_place_cases [OF assms] by force
  obtain y w2 where y: "async_place rsv rst (order_produce topic) now req w1 = (y, w2)" by (rule prod.exhaust)
  from c y w1 async_place_runs [OF y assms(2)] show ?thesis by (auto intro: runs_none)
qed

end

interpretation local_scripts: script_port reserve restore
proof
  show "runs req (wredis w) (wredis w')" if "reserve req w = (x, w')" for req w x w'
    using reserve_effect(1) [OF that] by (metis runs_none runs_reserve)
  show "runs req (wredis w) (wredis w')" if "restore req w = (y, w')" for req w y w'
    using restore_effect(1) [OF that] by (metis runs_none runs_restore)
qed

interpretation remote_scripts: script_port "remote_reserve reserve" "remote_restore restore"
  by (rule local_scripts.remote_scripts)

text \<open>What such runs leave alone, and that they keep the counter from going below zero.\<close>

lemma restore_step_other:
  "k \<noteq> stock_key (rq_product req) \<Longrightarrow> k \<noteq> reservation_key (rq_request req) \<Longrightarrow> rlookup (restore_step req r) k = rlookup r k"
  unfolding restore_step_def restore_script_def
  by (auto simp: hset_def split: sum.splits option.splits prod.splits dest: arg_cong [where f = snd])
    (use incrby_other in \<open>metis snd_conv\<close>)+

lemma reserve_step_other:
  "k \<noteq> stock_key (rq_product req) \<Longrightarrow> k \<noteq> reservation_key (rq_request req) \<Longrightarrow> rlookup (reserve_step req r) k = rlookup r k"
  using reserve_script_cases [OF prod.collapse [symmetric] reservation_key_neq(1)]
  unfolding reserve_step_def by metis

lemma runs_other:
  "runs req r r' \<Longrightarrow> k \<noteq> stock_key (rq_product req) \<Longrightarrow> k \<noteq> reservation_key (rq_request req) \<Longrightarrow> rlookup r' k = rlookup r k"
  by (induction rule: runs.induct) (simp_all add: reserve_step_other restore_step_other)

lemma runs_hget: "runs req r r' \<Longrightarrow> rid \<noteq> rq_request req \<Longrightarrow> hget (reservation_key rid) f r' = hget (reservation_key rid) f r"
  by (rule hget_other [OF reservation_key_neq(1)]) (simp add: runs_other)

lemma runs_holds: "runs req r r' \<Longrightarrow> rq_request req' \<noteq> rq_request req \<Longrightarrow> holds req' r' = holds req' r"
  by (simp add: holds_def held_def runs_hget)

lemma runs_account: "runs req r r' \<Longrightarrow> account req b r \<Longrightarrow> account req b r'"
  by (induction rule: runs.induct) (simp_all add: account_reserve account_restore)

lemma counter_nonneg_step:
  assumes "counter r (stock_key (rq_product req)) = Some n" "0 \<le> n" "0 < rq_quantity req"
  shows "\<exists>n'. counter (reserve_step req r) (stock_key (rq_product req)) = Some n' \<and> 0 \<le> n'"
    "\<exists>n'. counter (restore_step req r) (stock_key (rq_product req)) = Some n' \<and> 0 \<le> n'"
proof -
  let ?sk = "stock_key (rq_product req)" and ?rk = "reservation_key (rq_request req)"
  obtain x r1 where "reserve_script ?sk ?rk (rq_product req) (rq_quantity req) r = (x, r1)" by (rule prod.exhaust)
  with reserve_script_cases [OF this reservation_key_neq(1)] assms
  show "\<exists>n'. counter (reserve_step req r) ?sk = Some n' \<and> 0 \<le> n'" by (auto simp: reserve_step_def)
  obtain y r2 where "restore_script ?sk ?rk (rq_product req) (rq_quantity req) r = (y, r2)" by (rule prod.exhaust)
  with restore_script_cases [OF this reservation_key_neq(1)] assms
  show "\<exists>n'. counter (restore_step req r) ?sk = Some n' \<and> 0 \<le> n'" by (auto simp: restore_step_def)
qed

lemma runs_nonneg:
  assumes "runs req r r'" "counter r (stock_key (rq_product req)) = Some n" "0 \<le> n" "0 < rq_quantity req"
  shows "\<exists>n'. counter r' (stock_key (rq_product req)) = Some n' \<and> 0 \<le> n'"
  using assms by (induction rule: runs.induct) (auto dest: counter_nonneg_step)

section \<open>Where the produce call stands in the schedule\<close>

text \<open>
  An order through the three processes makes its calls in a fixed order: the gateway's, the order service's, the inventory
  service's to Redis, and then the topic's. \<open>produce_fault w\<close> is what the network does to that fourth call, if it is made.
\<close>

definition fault_at :: "nat \<Rightarrow> world \<Rightarrow> fault" where
  "fault_at n w = (if n < length (wfaults w) then wfaults w ! n else NoFault)"

abbreviation produce_fault :: "world \<Rightarrow> fault" where
  "produce_fault w \<equiv> fault_at 3 w"

definition recorded :: "string \<Rightarrow> place_req \<Rightarrow> world \<Rightarrow> bool" where
  "recorded topic req w \<longleftrightarrow> (\<exists>now. order_record topic req now \<in> set (wlog w))"

lemma fault_at_next: "next_fault w = (f, w1) \<Longrightarrow> f = fault_at 0 w \<and> fault_at n w1 = fault_at (Suc n) w"
  by (auto simp: next_fault_def fault_at_def split: list.splits)

lemma fault_at_cong: "wfaults v = wfaults w \<Longrightarrow> fault_at n v = fault_at n w"
  by (simp add: fault_at_def)

lemma on_redis_fault_at:
  assumes "on_redis cmd w = (x, w')"
  shows "fault_at n w' = fault_at (Suc n) w"
proof -
  obtain f w1 where f: "next_fault w = (f, w1)" by (rule prod.exhaust)
  have "wfaults w' = wfaults w1" using assms f by (auto simp: on_redis_def split: fault.splits)
  then show ?thesis using fault_at_next [OF f, of n] by (simp add: fault_at_cong [of w' w1])
qed

lemma reserve_fault_at:
  assumes "reserve req w = (Ret (Inr res), w')"
  shows "fault_at n w' = fault_at (Suc n) w"
proof -
  let ?c = "reserve_script (stock_key (rq_product req)) (reservation_key (rq_request req)) (rq_product req) (rq_quantity req)"
  obtain x v where x: "on_redis ?c w = (x, v)" by (rule prod.exhaust)
  then have "v = w'" using assms by (auto simp: reserve_def split: if_splits sum.splits list.splits)
  then show ?thesis using on_redis_fault_at [OF x] by simp
qed

lemma remote_reserve_fault_at:
  assumes "remote_reserve reserve req w = (Ret (Inr res), w')"
  shows "fault_at n w' = fault_at (Suc (Suc n)) w"
proof -
  obtain f w1 where f: "next_fault w = (f, w1)" by (rule prod.exhaust)
  then obtain res' where "reserve (req\<lparr>rq_quantity := to_int32 (rq_quantity req)\<rparr>) w1 = (Ret (Inr res'), w')"
    using assms by (auto simp: remote_reserve_def rpc_def server_reserve_def split: prod.splits fault.splits go.splits sum.splits)
  from reserve_fault_at [OF this, of n] fault_at_next [OF f, of "Suc n"] show ?thesis by simp
qed

text \<open>A request that holds its reservation keeps it through every further reservation.\<close>

lemma reserve_keeps_held: "reserve req w = (x, w') \<Longrightarrow> holds req (wredis w) \<Longrightarrow> holds req (wredis w')"
  using reserve_effect(1) [of req w x w'] by (auto simp: holds_def reserve_step_def reserve_held)

lemma remote_reserve_keeps_held:
  assumes "remote_reserve reserve req w = (x, w')" "fits_int32 (rq_quantity req)" "holds req (wredis w)"
  shows "holds req (wredis w')"
proof -
  obtain w1 where w1: "wredis w1 = wredis w" "w' = w1 \<or> w' = snd (reserve req w1)"
    using remote_reserve_cases [OF assms(1,2)] by force
  obtain y v where "reserve req w1 = (y, v)" by (rule prod.exhaust)
  with w1 reserve_keeps_held [OF this] assms(3) show ?thesis by auto
qed

lemma async_place_ack:
  assumes "async_place (remote_reserve reserve) (remote_restore restore) (order_produce topic) now req w = (x, w')"
    and "fits_int32 (r_quantity req)" "\<forall>e. fault_at 2 w \<noteq> Unacked e"
    and "recorded topic req w \<longrightarrow> fault_at 2 w = NoFault \<and> holds (reservation_of req) (wredis w)"
  shows "recorded topic req w' \<longrightarrow> holds (reservation_of req) (wredis w')"
proof -
  let ?r = "reservation_of req"
  have fit: "fits_int32 (rq_quantity ?r)" using assms(2) by simp
  obtain y w1 where y: "remote_reserve reserve ?r w = (y, w1)" by (rule prod.exhaust)
  have log: "wlog w1 = wlog w" using remote_inventory.rsv_frame [OF y fit] by simp
  note keep = remote_reserve_keeps_held [OF y fit]
  show ?thesis
  proof (cases "\<exists>res. y = Ret (Inr res)")
    case False
    then have "w' = w1" using assms(1) y by (auto simp: async_place_def split: go.splits sum.splits)
    then show ?thesis using log keep assms(4) by (simp add: recorded_def)
  next
    case True
    then obtain res where res: "y = Ret (Inr res)" by blast
    have h: "holds ?r (wredis w1)" using remote_inventory.rsv_holds [of ?r w res w1] y res fit by simp
    have f: "fault_at 0 w1 = fault_at 2 w"
      using remote_reserve_fault_at [of ?r w res w1 0] y res by (simp add: numeral_2_eq_2)
    obtain g w2 where g: "next_fault w1 = (g, w2)" by (rule prod.exhaust)
    have g2: "g = fault_at 2 w" "wredis w2 = wredis w1" "wlog w2 = wlog w1"
      using fault_at_next [OF g] f next_fault_frame [OF g] by auto
    show ?thesis
    proof (cases g)
      case NoFault
      then show ?thesis
        using assms(1) y res g g2 h by (auto simp: async_place_def order_produce_def produce_sync_def)
    next
      case (Lost e)
      obtain z w3 where z: "remote_restore restore ?r w2 = (z, w3)" by (rule prod.exhaust)
      have "wlog w3 = wlog w" using remote_inventory.rst_frame [OF z fit] g2 log by simp
      moreover have "w' = w3"
        using assms(1) y res g Lost z by (auto simp: async_place_def order_produce_def produce_sync_def split: sum.splits)
      moreover have "fault_at 2 w \<noteq> NoFault" using g2(1) Lost by (metis fault.distinct(1))
      ultimately show ?thesis using assms(4) by (simp add: recorded_def)
    qed (use g2 assms(3) in auto)
  qed
qed

text \<open>
  So a produce call that is answered, or that fails without appending for a request that is not in the topic yet, never takes
  the reservation of a request whose record is in the topic.
\<close>

lemma wire_order_ack:
  assumes "wire_order topic now req w = (x, w')" "fits_int32 (r_quantity req)" "\<forall>e. produce_fault w \<noteq> Unacked e"
    and "recorded topic req w \<longrightarrow> produce_fault w = NoFault \<and> holds (reservation_of req) (wredis w)"
  shows "recorded topic req w' \<longrightarrow> holds (reservation_of req) (wredis w')"
proof -
  let ?p = "async_place (remote_reserve reserve) (remote_restore restore) (order_produce topic) now"
  have req: "req\<lparr>r_quantity := to_int32 (r_quantity req)\<rparr> = req" using assms(2) by (simp add: to_int32_id)
  obtain f w1 where f: "next_fault w = (f, w1)" by (rule prod.exhaust)
  obtain y w2 where y: "?p req w1 = (y, w2)" by (rule prod.exhaust)
  have w1: "fault_at 2 w1 = produce_fault w" "wredis w1 = wredis w" "wlog w1 = wlog w"
    using fault_at_next [OF f, of 2] next_fault_frame [OF f] by (simp_all add: numeral_3_eq_3 numeral_2_eq_2)
  have "w' = w1 \<or> w' = w2"
    using assms(1) f y req
    by (auto simp: remote_place_async_def rpc_def server_place_async_def split: prod.splits fault.splits go.splits sum.splits)
  moreover have "recorded topic req w2 \<longrightarrow> holds (reservation_of req) (wredis w2)"
    by (rule async_place_ack [OF y assms(2)]) (use assms(3,4) w1 in \<open>simp_all add: recorded_def\<close>)
  moreover have "recorded topic req w1 \<longrightarrow> holds (reservation_of req) (wredis w1)"
    using assms(4) w1 by (simp add: recorded_def)
  ultimately show ?thesis by blast
qed

section \<open>What consuming a record does\<close>

definition moved :: "place_req \<Rightarrow> database \<Rightarrow> database \<Rightarrow> bool" where
  "moved req d d' \<longleftrightarrow> d' = d \<or> (\<exists>i. sale i req d d')"

lemma moved_attempt:
  assumes "place_record nid rec v = (x, v')" "request_from_record (k_value rec) = Inr req" "moved req d (wdb v)"
  shows "moved req d (wdb v') \<and> wredis v' = wredis v \<and> wlog v' = wlog v"
proof -
  have run: "place_order_tx nid (\<lambda>d. d) (\<lambda>d. d) req v = (x, v')" using assms(1,2) by (simp add: place_record_def)
  note c = place_order_tx_cases [OF run refl]
  show ?thesis
  proof (cases "wdb v = d")
    case True
    then show ?thesis using c by (auto simp: moved_def)
  next
    case False
    then obtain i where s: "sale i req d (wdb v)" using assms(3) by (auto simp: moved_def)
    then have "r_request req \<in> o_request ` set (orders (wdb v))" by (auto simp: sale_def booked_def)
    then obtain ord where "select_by_request (r_request req) (wdb v) = Inr ord"
      using select_by_request_Inl [of "r_request req" "wdb v"] by (cases "select_by_request (r_request req) (wdb v)") auto
    from place_order_tx_replay [OF run this] c s show ?thesis by (auto simp: moved_def)
  qed
qed

lemma retry_loop_moved:
  assumes "retry_loop text dlt cancelled (\<lambda>a. place_record (ids a)) base rec m a bs v = (y, v')"
    and "request_from_record (k_value rec) = Inr req" "moved req d (wdb v)"
  shows "moved req d (wdb v') \<and> wredis v' = wredis v \<and> (\<forall>k \<in> set (wlog v'). k \<in> set (wlog v) \<or> k_topic k = dlt)
    \<and> set (wlog v) \<subseteq> set (wlog v')"
  using assms(1,3)
proof (induction m arbitrary: a bs v)
  case 0
  obtain x v1 where x: "place_record (ids a) rec v = (x, v1)" by (rule prod.exhaust)
  note st = moved_attempt [OF x assms(2) "0.prems"(2)]
  show ?case
  proof (cases x)
    case (Inr ord)
    then show ?thesis using "0.prems"(1) x st by (simp add: retry_loop.simps [of _ _ _ _ _ _ 0])
  next
    case (Inl e)
    obtain z v2 where z: "produce_sync (dlt_record text dlt rec e (int a)) v1 = (z, v2)" by (rule prod.exhaust)
    have "v' = v2" using "0.prems"(1) x Inl z by (auto simp: retry_loop.simps [of _ _ _ _ _ _ 0] split: sum.splits)
    then show ?thesis using produce_sync_cases [OF z] st by (auto simp: dlt_record_def)
  qed
next
  case (Suc m)
  obtain x v1 where x: "place_record (ids a) rec v = (x, v1)" by (rule prod.exhaust)
  note st = moved_attempt [OF x assms(2) Suc.prems(2)]
  show ?case
  proof (cases "\<exists>e. x = Inl e \<and> cancelled a = None")
    case True
    then have "retry_loop text dlt cancelled (\<lambda>a. place_record (ids a)) base rec m (Suc a) (bs @ [to_int64 (push_bit (a - 1) base)]) v1 = (y, v')"
      using Suc.prems(1) x by (auto simp: retry_loop.simps [of _ _ _ _ _ _ "Suc m"] Let_def)
    from Suc.IH [OF this] st show ?thesis by auto
  next
    case False
    then have "v' = v1"
      using Suc.prems(1) x by (auto simp: retry_loop.simps [of _ _ _ _ _ _ "Suc m"] Let_def split: sum.splits option.splits)
    then show ?thesis using st by simp
  qed
qed

lemma consume_moved:
  assumes "consume_record text dlt env rec (w, c) = (w', c')" "request_from_record (k_value rec) = Inr req"
  shows "moved req (wdb w) (wdb w') \<and> wredis w' = wredis w \<and> (\<forall>k \<in> set (wlog w'). k \<in> set (wlog w) \<or> k_topic k = dlt)
    \<and> set (wlog w) \<subseteq> set (wlog w')"
proof -
  obtain placed res err v where run: "retry_loop text dlt (ce_cancelled env)
      (\<lambda>a. place_record (ce_ids env a)) 100000000 rec 2 1 [] w = ((placed, res, err), v)"
    by (cases "retry_loop text dlt (ce_cancelled env) (\<lambda>a. place_record (ce_ids env a)) 100000000 rec 2 1 [] w") auto
  have "wdb w' = wdb v \<and> wredis w' = wredis v \<and> wlog w' = wlog v"
    using assms(1) run
    by (auto simp: consume_record_def process_with_retry_def main_retry_policy_def commit_processed_def
        split: option.splits prod.splits fault.splits dest!: next_fault_frame)
  with retry_loop_moved [OF run assms(2), of "wdb w"] show ?thesis by (auto simp: moved_def)
qed

section \<open>The system\<close>

text \<open>
  What the clients send: a request id, one of the products \<open>P\<close> on sale, a positive quantity that fits the wire. The state is the
  set of requests they have posted so far, and the world. The network may become better or worse at any time.
\<close>

definition wire_ok :: "int set \<Rightarrow> place_req \<Rightarrow> bool" where
  "wire_ok P req \<longleftrightarrow> r_request req \<noteq> '''' \<and> r_product req \<in> P \<and> r_product req \<noteq> 0 \<and> 0 < r_quantity req \<and> fits_int32 (r_quantity req)
     \<and> fits_int64 (r_product req) \<and> fits_int64 (r_user req)"

text \<open>
  A post may be a first one or a retry of the same request. Of the clients: an id is used again only for the same request, and an id
  that was not posted here has no order yet. Of the network, whatever it does to the other calls: the produce call is not left without
  an answer after it appended, and it does not fail at all for a request whose record is already in the topic. \<open>compensation_frees_accepted_order\<close>
  of the services shows that each of these two failures makes the service give away what an accepted order holds.
\<close>

inductive pipe_step :: "string \<Rightarrow> string \<Rightarrow> int set \<Rightarrow> place_req set \<times> world \<Rightarrow> place_req set \<times> world \<Rightarrow> bool" for topic dlt P where
  pipe_post: "async_http_place text generated (wire_order topic now) bad (Some b) w = (reply, w')
     \<Longrightarrow> req = b\<lparr>r_quantity := (if r_quantity b = 0 then 1 else r_quantity b)\<rparr> \<Longrightarrow> wire_ok P req
     \<Longrightarrow> \<forall>a \<in> asked. r_request a = r_request req \<longrightarrow> a = req
     \<Longrightarrow> req \<in> asked \<or> r_request req \<notin> o_request ` set (orders (wdb w))
     \<Longrightarrow> \<forall>e. produce_fault w \<noteq> Unacked e \<Longrightarrow> recorded topic req w \<longrightarrow> produce_fault w = NoFault
     \<Longrightarrow> pipe_step topic dlt P (asked, w) (insert req asked, w')"
| pipe_deliver: "k_topic rec = topic \<Longrightarrow> krecord.truncate rec \<in> set (wlog w)
     \<Longrightarrow> consume_record text dlt env rec (w, c) = (w', c') \<Longrightarrow> pipe_step topic dlt P (asked, w) (asked, w')"
| pipe_net: "pipe_step topic dlt P (asked, w) (asked, w\<lparr>wfaults := fs\<rparr>)"

inductive pipe_reach :: "string \<Rightarrow> string \<Rightarrow> int set \<Rightarrow> place_req set \<times> world \<Rightarrow> place_req set \<times> world \<Rightarrow> bool" for topic dlt P s where
  pipe_start: "pipe_reach topic dlt P s s"
| pipe_next: "pipe_reach topic dlt P s t \<Longrightarrow> pipe_step topic dlt P t u \<Longrightarrow> pipe_reach topic dlt P s u"

text \<open>What a warm-up leaves: a counter of at most the database's stock.\<close>

definition warmed :: "int \<Rightarrow> world \<Rightarrow> bool" where
  "warmed p w \<longleftrightarrow> (\<exists>n s. counter (wredis w) (stock_key p) = Some n \<and> stock_of (wdb w) p = Some s \<and> 0 \<le> n \<and> n \<le> s)"

section \<open>Its invariant\<close>

text \<open>What Redis has promised: the requests that hold their reservation and have no order yet.\<close>

definition promised :: "int \<Rightarrow> place_req set \<Rightarrow> world \<Rightarrow> place_req set" where
  "promised p asked w = {req \<in> asked. r_product req = p \<and> holds (reservation_of req) (wredis w) \<and> r_request req \<notin> o_request ` set (orders (wdb w))}"

definition known_states :: "place_req set \<Rightarrow> redis \<Rightarrow> bool" where
  "known_states asked r \<longleftrightarrow> (\<forall>rid.
     hget (reservation_key rid) ''state'' r \<in> {Inr None, Inr (Some (Text ''reserved'')), Inr (Some (Text ''restored''))}
     \<and> (rid \<notin> r_request ` asked \<longrightarrow> hget (reservation_key rid) ''state'' r = Inr None))"

definition covered :: "int \<Rightarrow> place_req set \<Rightarrow> world \<Rightarrow> bool" where
  "covered p asked w \<longleftrightarrow> (\<exists>n s. counter (wredis w) (stock_key p) = Some n \<and> stock_of (wdb w) p = Some s \<and> 0 \<le> n
     \<and> n + sum r_quantity (promised p asked w) \<le> s)"

text \<open>What the columns of \<open>orders\<close> ask of a request, whatever the row's identifier.\<close>

definition storable :: "place_req \<Rightarrow> bool" where
  "storable req \<longleftrightarrow> 0 \<le> r_product req \<and> 0 \<le> r_user req \<and> utf8_length (r_request req) \<le> 64 \<and> fits_int32 (r_quantity req)"

lemma storable_iff: "row_error (new_order i req) = None \<longleftrightarrow> 0 \<le> i \<and> storable req"
  by (auto simp: row_error_def storable_def new_order_def)

definition traced :: "string \<Rightarrow> place_req set \<Rightarrow> world \<Rightarrow> bool" where
  "traced topic asked w \<longleftrightarrow>
     (\<forall>k \<in> set (wlog w). k_topic k = topic \<longrightarrow> (\<exists>req \<in> asked. \<exists>now. k = order_record topic req now))
     \<and> (\<forall>req \<in> asked. recorded topic req w \<longrightarrow> holds (reservation_of req) (wredis w))
     \<and> (\<forall>req \<in> asked. r_request req \<in> o_request ` set (orders (wdb w)) \<longrightarrow> recorded topic req w \<and> storable req)"

definition pipe_inv :: "string \<Rightarrow> int set \<Rightarrow> place_req set \<Rightarrow> world \<Rightarrow> bool" where
  "pipe_inv topic P asked w \<longleftrightarrow> finite asked \<and> inj_on r_request asked \<and> (\<forall>req \<in> asked. wire_ok P req)
     \<and> known_states asked (wredis w) \<and> (\<forall>p \<in> P. covered p asked w) \<and> traced topic asked w"

lemma post_effect:
  assumes "async_http_place text generated (wire_order topic now) bad (Some b) w = (reply, w')"
    and "req = b\<lparr>r_quantity := (if r_quantity b = 0 then 1 else r_quantity b)\<rparr>" "wire_ok P req"
  shows "wdb w' = wdb w" "runs (reservation_of req) (wredis w) (wredis w')"
    "wlog w' \<in> {wlog w, wlog w @ [order_record topic req now]}" "\<exists>x. wire_order topic now req w = (x, w')"
proof -
  obtain x v where x: "wire_order topic now req w = (x, v)" by (rule prod.exhaust)
  have fit: "fits_int32 (r_quantity req)" using assms(3) by (simp add: wire_ok_def)
  have "b\<lparr>r_request := r_request b, r_quantity := (if r_quantity b = 0 then 1 else r_quantity b)\<rparr> = req"
    using assms(2) by simp
  moreover have "r_request b \<noteq> ''''" "r_product b \<noteq> 0" using assms(2,3) by (auto simp: wire_ok_def)
  ultimately have "w' = v"
    using assms(1) x by (auto simp: async_http_place_def split: sum.splits if_splits prod.splits)
  then show "wdb w' = wdb w" "runs (reservation_of req) (wredis w) (wredis w')"
    "wlog w' \<in> {wlog w, wlog w @ [order_record topic req now]}" "\<exists>x. wire_order topic now req w = (x, w')"
    using x remote_inventory.remote_place_outcome(1,5) [OF x fit] remote_scripts.remote_place_runs [OF x fit] by auto
qed

text \<open>A recorded request of the invariant is one of those posted, and holds its reservation.\<close>

lemma recorded_holds:
  assumes "traced topic asked w" "recorded topic req w" "\<forall>a \<in> asked. r_request a = r_request req \<longrightarrow> a = req"
  shows "req \<in> asked \<and> holds (reservation_of req) (wredis w)"
proof -
  obtain t where t: "order_record topic req t \<in> set (wlog w)" using assms(2) by (auto simp: recorded_def)
  then obtain a now where a: "a \<in> asked" "order_record topic req t = order_record topic a now"
    using assms(1) unfolding traced_def by (metis (no_types, lifting) krecord.select_convs(1) order_record_def)
  have "r_request a = r_request req" using a(2) by (simp add: order_record_def encode_order_created_def)
  then show ?thesis using a assms by (auto simp: traced_def)
qed


lemma unknown_holds_nothing:
  "known_states asked r \<Longrightarrow> r_request req \<notin> r_request ` asked \<Longrightarrow> \<not> holds (reservation_of req) r"
  by (simp add: known_states_def holds_def held_def)

lemma extra_member: "(\<And>a. a \<in> A \<longleftrightarrow> a \<in> B \<or> a = x \<and> c) \<Longrightarrow> A = B \<union> (if c then {x} else {})"
  by (cases c) auto

lemma post_hold:
  assumes "runs (reservation_of req) (wredis w) (wredis w')" "\<forall>a \<in> asked. r_request a = r_request req \<longrightarrow> a = req"
    "a \<in> asked - {req}"
  shows "holds (reservation_of a) (wredis w') = holds (reservation_of a) (wredis w)"
  using runs_holds [OF assms(1), of "reservation_of a"] assms(2,3) by auto

lemma post_covered_other:
  assumes "covered p asked w" "runs (reservation_of req) (wredis w) (wredis w')" "wdb w' = wdb w" "r_product req \<noteq> p"
    and "\<forall>a \<in> asked. r_request a = r_request req \<longrightarrow> a = req"
  shows "covered p (insert req asked) w'"
proof -
  have "counter (wredis w') (stock_key p) = counter (wredis w) (stock_key p)"
    using runs_other [OF assms(2), of "stock_key p"] assms(4) by (simp add: counter_def)
  moreover have "promised p (insert req asked) w' = promised p asked w"
  proof (rule set_eqI)
    fix a
    show "a \<in> promised p (insert req asked) w' \<longleftrightarrow> a \<in> promised p asked w"
      using post_hold [OF assms(2,5), of a] assms(4) unfolding promised_def assms(3)
      by (cases "a = req"; cases "a \<in> asked") simp_all
  qed
  ultimately show ?thesis using assms(1,3) by (simp add: covered_def)
qed

lemma post_covered:
  assumes "pipe_inv topic P asked w" "wire_ok P req" "runs (reservation_of req) (wredis w) (wredis w')" "wdb w' = wdb w"
    and p: "r_product req = p"
    and only: "\<forall>a \<in> asked. r_request a = r_request req \<longrightarrow> a = req"
    and stays: "r_request req \<in> o_request ` set (orders (wdb w)) \<Longrightarrow>
      holds (reservation_of req) (wredis w) \<and> holds (reservation_of req) (wredis w')"
  shows "known_states (insert req asked) (wredis w') \<and> covered p (insert req asked) w'"
proof -
  let ?r = "reservation_of req"
  have inv: "finite asked" "known_states asked (wredis w)" using assms(1) by (simp_all add: pipe_inv_def)
  obtain n s where ns: "counter (wredis w) (stock_key p) = Some n" "stock_of (wdb w) p = Some s" "0 \<le> n"
    and le: "n + sum r_quantity (promised p asked w) \<le> s" using assms(1,2) p by (auto simp: pipe_inv_def covered_def wire_ok_def)
  have q: "r_product req = p" "0 < r_quantity req" using assms(2) p by (simp_all add: wire_ok_def)
  have "account ?r (n + (if holds ?r (wredis w) then r_quantity req else 0)) (wredis w)"
    using inv(2) ns(1) q by (auto simp: account_def known_states_def)
  from runs_account [OF assms(3) this] obtain n' where n': "counter (wredis w') (stock_key p) = Some n'"
    and eq: "n + (if holds ?r (wredis w) then r_quantity req else 0) = n' + (if holds ?r (wredis w') then r_quantity req else 0)"
    and st: "hget (reservation_key (r_request req)) ''state'' (wredis w')
      \<in> {Inr None, Inr (Some (Text ''reserved'')), Inr (Some (Text ''restored''))}"
    using q by (auto simp: account_def)
  have pos: "0 \<le> n'" using runs_nonneg [OF assms(3), of n] ns q n' by simp
  have "known_states (insert req asked) (wredis w')"
    unfolding known_states_def
  proof
    fix rid
    show "hget (reservation_key rid) ''state'' (wredis w') \<in> {Inr None, Inr (Some (Text ''reserved'')), Inr (Some (Text ''restored''))}
      \<and> (rid \<notin> r_request ` insert req asked \<longrightarrow> hget (reservation_key rid) ''state'' (wredis w') = Inr None)"
      using st inv(2) runs_hget [OF assms(3), of rid "''state''"] by (cases "rid = r_request req") (auto simp: known_states_def)
  qed
  moreover have "n' + sum r_quantity (promised p (insert req asked) w') \<le> s"
  proof -
    let ?others = "promised p (asked - {req}) w"
    let ?new = "r_request req \<notin> o_request ` set (orders (wdb w))"
    note hold = post_hold [OF assms(3) only]
    have "a \<in> promised p (insert req asked) w' \<longleftrightarrow> a \<in> ?others \<or> a = req \<and> holds ?r (wredis w') \<and> ?new" for a
      using hold [of a] p unfolding promised_def assms(4) by (cases "a = req"; cases "a \<in> asked") simp_all
    then have "promised p (insert req asked) w' = ?others \<union> (if holds ?r (wredis w') \<and> ?new then {req} else {})"
      by (rule extra_member)
    moreover have "req \<in> asked \<or> \<not> holds ?r (wredis w)"
    proof (cases "r_request req \<in> r_request ` asked")
      case True
      then obtain a where "r_request req = r_request a" "a \<in> asked" by (rule imageE)
      then show ?thesis using only by simp
    qed (simp add: unknown_holds_nothing [OF inv(2)])
    then have "a \<in> promised p asked w \<longleftrightarrow> a \<in> ?others \<or> a = req \<and> holds ?r (wredis w) \<and> ?new" for a
      using p unfolding promised_def by (cases "a = req"; cases "req \<in> asked") simp_all
    then have "promised p asked w = ?others \<union> (if holds ?r (wredis w) \<and> ?new then {req} else {})"
      by (rule extra_member)
    moreover have fin: "finite ?others" "req \<notin> ?others" using inv(1) by (simp_all add: promised_def)
    have add: "sum r_quantity (?others \<union> (if c then {req} else {})) = sum r_quantity ?others + (if c then r_quantity req else 0)" for c
      using fin by simp
    ultimately show ?thesis
      using le eq stays add [of "holds ?r (wredis w) \<and> ?new"] add [of "holds ?r (wredis w') \<and> ?new"]
      by (cases ?new) (simp_all split: if_splits)
  qed
  ultimately show ?thesis using n' ns pos assms(4) by (auto simp: covered_def)
qed

lemma post_inv:
  assumes "pipe_inv topic P asked w" "wire_ok P req" "runs (reservation_of req) (wredis w) (wredis w')" "wdb w' = wdb w"
    and log: "wlog w' \<in> {wlog w, wlog w @ [order_record topic req now]}"
    and only: "\<forall>a \<in> asked. r_request a = r_request req \<longrightarrow> a = req"
    and new: "req \<in> asked \<or> r_request req \<notin> o_request ` set (orders (wdb w))"
    and ack: "recorded topic req w' \<longrightarrow> holds (reservation_of req) (wredis w')"
  shows "pipe_inv topic P (insert req asked) w'"
proof -
  have inv: "finite asked" "inj_on r_request asked" "\<forall>a \<in> asked. wire_ok P a" and tr: "traced topic asked w"
    using assms(1) by (simp_all add: pipe_inv_def)
  have mono: "recorded topic a w \<Longrightarrow> recorded topic a w'" for a using log by (auto simp: recorded_def)
  have stays: "holds (reservation_of req) (wredis w) \<and> holds (reservation_of req) (wredis w')"
    if "r_request req \<in> o_request ` set (orders (wdb w))"
  proof -
    have "req \<in> asked" using new that by simp
    then have "recorded topic req w" "holds (reservation_of req) (wredis w)" using tr that by (simp_all add: traced_def)
    then show ?thesis using ack mono by simp
  qed
  have covered: "\<forall>p \<in> P. covered p (insert req asked) w'"
  proof
    fix p assume "p \<in> P"
    show "covered p (insert req asked) w'"
    proof (cases "r_product req = p")
      case True
      then show ?thesis using post_covered [OF assms(1-4) True only stays] by simp
    next
      case False
      then show ?thesis using post_covered_other [OF _ assms(3,4) False only] assms(1) \<open>p \<in> P\<close> by (simp add: pipe_inv_def)
    qed
  qed
  have "inj_on r_request (insert req asked)" using inv(2) only by (auto simp: inj_on_insert)
  moreover have "traced topic (insert req asked) w'"
    unfolding traced_def
  proof (intro conjI ballI impI)
    fix k assume k: "k \<in> set (wlog w')" "k_topic k = topic"
    show "\<exists>a \<in> insert req asked. \<exists>now. k = order_record topic a now"
    proof (cases "k \<in> set (wlog w)")
      case True
      then have "\<exists>a \<in> asked. \<exists>now. k = order_record topic a now" using tr k(2) unfolding traced_def by metis
      then show ?thesis by blast
    next
      case False
      then have "k = order_record topic req now" using k(1) log by auto
      then show ?thesis by blast
    qed
  next
    fix a assume a: "a \<in> insert req asked" "recorded topic a w'"
    show "holds (reservation_of a) (wredis w')"
    proof (cases "a = req")
      case False
      have "recorded topic a w"
      proof -
        obtain t where t: "order_record topic a t \<in> set (wlog w')" using a(2) by (auto simp: recorded_def)
        have "order_record topic a t \<noteq> order_record topic req now"
          using False a(1) only by (auto simp: order_record_def encode_order_created_def)
        with t log show ?thesis by (auto simp: recorded_def)
      qed
      then show ?thesis
        using a(1) False tr only runs_holds [OF assms(3), of "reservation_of a"] by (auto simp: traced_def)
    qed (use a(2) ack in simp)
  next
    fix a assume a: "a \<in> insert req asked" "r_request a \<in> o_request ` set (orders (wdb w'))"
    have "recorded topic a w \<and> storable a" using a new tr assms(4) by (cases "a = req") (auto simp: traced_def)
    then show "recorded topic a w'" "storable a" using mono by simp_all
  qed
  ultimately show ?thesis
    using inv assms(2) post_covered [OF assms(1-4) refl only stays] covered by (simp add: pipe_inv_def)
qed

lemma delivered_request:
  assumes "pipe_inv topic P asked w" "k_topic rec = topic" "krecord.truncate rec \<in> set (wlog w)"
  shows "\<exists>req \<in> asked. request_from_record (k_value rec) = Inr req \<and> recorded topic req w"
proof -
  obtain req now where req: "req \<in> asked" "krecord.truncate rec = order_record topic req now"
    using assms by (auto simp: pipe_inv_def traced_def krecord.truncate_def)
  then have "k_value rec = encode_order_created req now" by (simp add: krecord.truncate_def order_record_def)
  moreover have "wire_ok P req" using assms(1) req(1) by (simp add: pipe_inv_def)
  ultimately have "request_from_record (k_value rec) = Inr req"
    using request_roundtrip [of req now] by (auto simp: wire_ok_def fits_int32_def fits_int64_def)
  then show ?thesis using req assms(3) by (auto simp: recorded_def)
qed

lemma sale_promised:
  assumes "sale i req (wdb w) (wdb w')" "wredis w' = wredis w" "inj_on r_request asked" "req \<in> asked"
  shows "promised p asked w' = (if r_product req = p then promised p asked w - {req} else promised p asked w)"
proof -
  have ids: "o_request ` set (orders (wdb w')) = insert (r_request req) (o_request ` set (orders (wdb w)))"
    using assms(1) by (auto simp: sale_def booked_def)
  have "r_request a = r_request req \<longleftrightarrow> a = req" if "a \<in> asked" for a
    using assms(3,4) that by (auto simp: inj_on_def)
  then show ?thesis using ids assms(2) by (auto simp: promised_def)
qed

lemma deliver_inv:
  assumes "pipe_inv topic P asked w" "k_topic rec = topic" "krecord.truncate rec \<in> set (wlog w)" "dlt \<noteq> topic"
    and run: "consume_record text dlt env rec (w, c) = (w', c')"
  shows "pipe_inv topic P asked w'"
proof -
  obtain req where req: "req \<in> asked" "request_from_record (k_value rec) = Inr req" "recorded topic req w"
    using delivered_request [OF assms(1-3)] by blast
  note m = consume_moved [OF run req(2)]
  have inv: "finite asked" "inj_on r_request asked" "\<forall>a \<in> asked. wire_ok P a" and tr: "traced topic asked w"
    using assms(1) by (simp_all add: pipe_inv_def)
  have rec: "recorded topic a w' \<longleftrightarrow> recorded topic a w" for a
    using m assms(4) by (fastforce simp: recorded_def order_record_def)
  have log: "\<forall>k \<in> set (wlog w'). k_topic k = topic \<longrightarrow> k \<in> set (wlog w)" using m assms(4) by auto
  have "(\<forall>p \<in> P. covered p asked w') \<and> (\<forall>a \<in> asked. r_request a \<in> o_request ` set (orders (wdb w')) \<longrightarrow> recorded topic a w \<and> storable a)"
  proof (cases "wdb w' = wdb w")
    case True
    then show ?thesis using assms(1) m tr by (auto simp: pipe_inv_def covered_def promised_def traced_def)
  next
    case False
    then obtain i where s: "sale i req (wdb w) (wdb w')" using m by (auto simp: moved_def)
    have ids: "orders (wdb w') = orders (wdb w) @ [(new_order i req)\<lparr>o_created := db_now (wdb w)\<rparr>]"
      "r_request req \<notin> o_request ` set (orders (wdb w))" "storable req"
      using s by (simp_all add: sale_def booked_def storable_iff)
    have "\<forall>p \<in> P. covered p asked w'"
    proof
      fix p assume "p \<in> P"
      then obtain n st where ns: "counter (wredis w) (stock_key p) = Some n" "stock_of (wdb w) p = Some st" "0 \<le> n"
        and le: "n + sum r_quantity (promised p asked w) \<le> st" using assms(1) unfolding pipe_inv_def covered_def by blast
      have "req \<in> promised (r_product req) asked w" using req tr ids(2) by (simp add: promised_def traced_def)
      moreover have "finite (promised p asked w)" using inv(1) by (simp add: promised_def)
      ultimately have "sum r_quantity (promised p asked w') =
          sum r_quantity (promised p asked w) - (if r_product req = p then r_quantity req else 0)"
        using sale_promised [OF s _ inv(2) req(1), of p] m by (auto simp: sum_diff1)
      moreover have "stock_of (wdb w') p = Some (st - (if r_product req = p then r_quantity req else 0))"
        using sale_stock [OF s, of p] ns(2) by (auto split: if_splits)
      ultimately show "covered p asked w'" using ns le m by (auto simp: covered_def)
    qed
    moreover have "recorded topic a w \<and> storable a" if "a \<in> asked" "r_request a \<in> o_request ` set (orders (wdb w'))" for a
    proof (cases "a = req")
      case False
      then have "r_request a \<noteq> r_request req" using inv(2) that(1) req(1) by (auto simp: inj_on_def)
      then show ?thesis using that ids(1) tr by (auto simp: traced_def)
    qed (use req(3) ids(3) in simp)
    ultimately show ?thesis by blast
  qed
  then show ?thesis using inv tr rec log m assms(1) by (simp add: pipe_inv_def traced_def)
qed

lemma pipe_step_inv:
  assumes "pipe_step topic dlt P s t" "pipe_inv topic P (fst s) (snd s)" "dlt \<noteq> topic"
  shows "pipe_inv topic P (fst t) (snd t)"
  using assms(1)
proof (cases rule: pipe_step.cases)
  case (pipe_post tx generated now bad b w reply w' req asked)
  note e = post_effect [OF pipe_post(3-5)]
  have inv: "pipe_inv topic P asked w" using assms(2) pipe_post by simp
  obtain x where x: "wire_order topic now req w = (x, w')" using e(4) by blast
  have fit: "fits_int32 (r_quantity req)" using pipe_post(5) by (simp add: wire_ok_def)
  have "recorded topic req w \<longrightarrow> produce_fault w = NoFault \<and> holds (reservation_of req) (wredis w)"
    using recorded_holds [of topic asked w req] inv pipe_post(6,9) by (auto simp: pipe_inv_def)
  from post_inv [OF inv pipe_post(5) e(2,1,3) pipe_post(6,7) wire_order_ack [OF x fit pipe_post(8) this]]
  show ?thesis using pipe_post(2) by simp
next
  case (pipe_deliver rec w tx env c w' c' asked)
  then show ?thesis using deliver_inv [of topic P asked w rec dlt tx env c w' c'] assms(2,3) by simp
next
  case (pipe_net asked w fs)
  then show ?thesis
    using assms(2) by (simp add: pipe_inv_def covered_def promised_def traced_def recorded_def)
qed

lemma pipe_reach_inv:
  "pipe_reach topic dlt P s t \<Longrightarrow> pipe_inv topic P (fst s) (snd s) \<Longrightarrow> dlt \<noteq> topic \<Longrightarrow> pipe_inv topic P (fst t) (snd t)"
  by (induction rule: pipe_reach.induct) (simp_all add: pipe_step_inv)

lemma pipe_reach_trans: "pipe_reach topic dlt P t u \<Longrightarrow> pipe_reach topic dlt P s t \<Longrightarrow> pipe_reach topic dlt P s u"
  by (induction rule: pipe_reach.induct) (auto intro: pipe_reach.intros)

text \<open>The posted requests and the records only grow.\<close>

lemma pipe_step_mono:
  assumes "pipe_step topic dlt P s t" "pipe_inv topic P (fst s) (snd s)"
  shows "fst s \<subseteq> fst t \<and> set (wlog (snd s)) \<subseteq> set (wlog (snd t))"
  using assms(1)
proof (cases rule: pipe_step.cases)
  case (pipe_post tx generated now bad b w reply w' req asked)
  from post_effect(3) [OF pipe_post(3-5)] pipe_post(1,2) show ?thesis by auto
next
  case (pipe_deliver rec w tx env c w' c' asked)
  then obtain req where "request_from_record (k_value rec) = Inr req"
    using delivered_request [of topic P asked w rec] assms(2) by auto
  from consume_moved [OF pipe_deliver(5) this] pipe_deliver(1,2) show ?thesis by simp
qed simp

lemma pipe_reach_mono:
  "pipe_reach topic dlt P s t \<Longrightarrow> pipe_inv topic P (fst s) (snd s) \<Longrightarrow> dlt \<noteq> topic
    \<Longrightarrow> fst s \<subseteq> fst t \<and> set (wlog (snd s)) \<subseteq> set (wlog (snd t))"
proof (induction rule: pipe_reach.induct)
  case (pipe_next t u)
  have "pipe_inv topic P (fst t) (snd t)" using pipe_reach_inv [OF pipe_next(1,4,5)] .
  from pipe_step_mono [OF pipe_next(2) this] pipe_next show ?case by blast
qed simp

lemma pipe_start_inv:
  assumes "\<forall>p \<in> P. warmed p w"
    and "\<forall>rid. hget (reservation_key rid) ''state'' (wredis w) = Inr None" "\<forall>k \<in> set (wlog w). k_topic k \<noteq> topic"
  shows "pipe_inv topic P {} w"
  using assms by (simp add: pipe_inv_def known_states_def covered_def promised_def traced_def warmed_def)

section \<open>A delivery on a quiet network\<close>

lemma place_order_tx_calm:
  assumes "calm w" "0 < r_quantity req" "stock_of (wdb w) (r_product req) = Some s" "r_quantity req \<le> s"
    and "i \<notin> o_id ` set (orders (wdb w))" "r_request req \<notin> o_request ` set (orders (wdb w))"
    and row: "row_error (new_order i req) = None"
  shows "\<exists>ord v. place_order_tx (Inr i) (\<lambda>d. d) (\<lambda>d. d) req w = (Inr ord, v) \<and> calm v"
proof -
  let ?d = "wdb w" and ?p = "r_product req" and ?q = "r_quantity req"
  obtain b w1 where b: "begin_tx w = (b, w1)" by (rule prod.exhaust)
  obtain e t2 w2 where e: "on_tx (query (select_by_request (r_request req))) ?d w1 = (e, t2, w2)" by (metis prod.exhaust)
  obtain k t3 w3 where k: "on_tx (query (select_stock ?p)) ?d w2 = (k, t3, w3)" by (metis prod.exhaust)
  obtain u t4 w4 where u: "on_tx (insert_order (new_order i req)) ?d w3 = (u, t4, w4)" by (metis prod.exhaust)
  obtain m t5 w5 where m: "on_tx (exec (update_sub ?p ?q)) t4 w4 = (m, t5, w5)" by (metis prod.exhaust)
  obtain c w6 where c: "commit_tx t5 w5 = (c, w6)" by (rule prod.exhaust)
  have 1: "b = Inr ?d" "calm w1" using begin_tx_calm [OF b assms(1)] by simp_all
  have 2: "e = Inl SqlNoRows" "calm w2"
    using on_tx_calm [OF e 1(2)] select_by_request_Inl [of "r_request req" ?d] assms(6) by (auto simp: query_def)
  have 3: "k = Inr s" "calm w3"
    using on_tx_calm [OF k] 2(2) select_stock_Inr [of ?p ?d] assms(3) by (auto simp: query_def)
  have 4: "u = Inr ()" "calm w4"
    using on_tx_calm [OF u] 3(2) insert_order_ok [OF row, of ?d] assms(5,6) by simp_all
  have 5: "m = Inr (fst (update_sub ?p ?q t4))" "calm w5" using on_tx_calm [OF m 4(2)] by (auto simp: exec_def)
  have 6: "c = Inr ()" "calm w6" using commit_tx_calm [OF c 5(2)] by simp_all
  have d: "wdb w1 = ?d" "wdb w2 = ?d" "wdb w3 = ?d" using begin_tx_cases [OF b] on_tx_cases [OF e] on_tx_cases [OF k] by simp_all
  have "place_order_tx (Inr i) (\<lambda>d. d) (\<lambda>d. d) req w = (Inr (new_order i req), w6)"
    using b e k u m c 1 2 3 4 5 6 d assms(2,4)
    by (simp add: place_order_tx_def tx_locked_def tx_write_def)
  then show ?thesis using 6 by blast
qed

lemma place_order_tx_calm_replay:
  assumes "calm w" "0 < r_quantity req" "select_by_request (r_request req) (wdb w) = Inr ord"
  shows "\<exists>v. place_order_tx nid (\<lambda>d. d) (\<lambda>d. d) req w = (Inr ord, v) \<and> calm v"
proof -
  obtain b w1 where b: "begin_tx w = (b, w1)" by (rule prod.exhaust)
  obtain e t2 w2 where e: "on_tx (query (select_by_request (r_request req))) (wdb w) w1 = (e, t2, w2)" by (metis prod.exhaust)
  have 1: "b = Inr (wdb w)" "calm w1" using begin_tx_calm [OF b assms(1)] by simp_all
  have "e = Inr ord" "calm w2" using on_tx_calm [OF e 1(2)] assms(3) by (auto simp: query_def)
  then show ?thesis using b e 1 assms(2) by (simp add: place_order_tx_def)
qed

lemma consume_calm:
  assumes "request_from_record (k_value rec) = Inr req" "ce_ids env 1 = nid"
    and "place_order_tx nid (\<lambda>d. d) (\<lambda>d. d) req w = (Inr ord, v)" "calm v"
  shows "\<exists>w'. consume_record text dlt env rec (w, c) = (w', c(k_partition rec \<mapsto> k_offset rec + 1)) \<and> wdb w' = wdb v \<and> wlog w' = wlog v"
proof -
  obtain f v' where f: "next_fault v = (f, v')" by (rule prod.exhaust)
  have "f = NoFault" using calm_fault [OF assms(4) f] by simp
  moreover have "place_record (ce_ids env 1) rec w = (Inr ord, v)" using assms(1-3) by (simp add: place_record_def)
  ultimately have "consume_record text dlt env rec (w, c) = (v', c(k_partition rec \<mapsto> k_offset rec + 1))"
    using f by (simp add: consume_record_def process_with_retry_def main_retry_policy_def retry_loop.simps [of _ _ _ _ _ _ 2 "Suc 0"]
        commit_processed_def)
  then show ?thesis using next_fault_frame [OF f] by blast
qed

text \<open>A request that no row can hold fails on every attempt and ends in the dead-letter topic.\<close>

lemma place_record_unstorable:
  assumes "calm w" "request_from_record (k_value rec) = Inr req" "\<not> storable req" "r_request req \<notin> o_request ` set (orders (wdb w))"
  shows "\<exists>e v. place_record nid rec w = (Inl e, v) \<and> calm v \<and> wdb v = wdb w \<and> wlog v = wlog w \<and> wredis v = wredis w"
proof -
  obtain x v where x: "place_record nid rec w = (x, v)" by (rule prod.exhaust)
  then have run: "place_order_tx nid (\<lambda>d. d) (\<lambda>d. d) req w = (x, v)" using assms(2) by (simp add: place_record_def)
  have "calm v"
    using run assms(1)
    by (auto simp: place_order_tx_def tx_locked_def tx_write_def split: prod.splits sum.splits if_splits
        dest!: begin_tx_calm on_tx_calm commit_tx_calm on_db_calm)
  moreover have "wdb v = wdb w" "wlog v = wlog w" "wredis v = wredis w" "\<exists>e. x = Inl e"
    using place_order_tx_cases [OF run refl] assms(3,4) by (cases x; force simp: sale_def booked_def storable_iff)+
  ultimately show ?thesis using x by blast
qed

lemma consume_unstorable:
  assumes "calm w" "request_from_record (k_value rec) = Inr req" "\<not> storable req" "r_request req \<notin> o_request ` set (orders (wdb w))"
    and "\<forall>a. ce_cancelled env a = None"
  shows "\<exists>e w'. consume_record text dlt env rec (w, c) = (w', c(k_partition rec \<mapsto> k_offset rec + 1))
    \<and> wdb w' = wdb w \<and> wredis w' = wredis w \<and> wlog w' = wlog w @ [dlt_record text dlt rec e 3]"
proof -
  obtain e1 v1 where 1: "place_record (ce_ids env 1) rec w = (Inl e1, v1)" "calm v1" "wdb v1 = wdb w" "wlog v1 = wlog w" "wredis v1 = wredis w"
    using place_record_unstorable [OF assms(1-4)] by blast
  obtain e2 v2 where 2: "place_record (ce_ids env 2) rec v1 = (Inl e2, v2)" "calm v2" "wdb v2 = wdb w" "wlog v2 = wlog w" "wredis v2 = wredis w"
    using place_record_unstorable [OF 1(2) assms(2,3)] 1 assms(4) by metis
  obtain e3 v3 where 3: "place_record (ce_ids env 3) rec v2 = (Inl e3, v3)" "calm v3" "wdb v3 = wdb w" "wlog v3 = wlog w" "wredis v3 = wredis w"
    using place_record_unstorable [OF 2(2) assms(2,3)] 2 assms(4) by metis
  obtain y v4 where p: "produce_sync (dlt_record text dlt rec e3 3) v3 = (y, v4)" by (rule prod.exhaust)
  have 4: "y = Inr ()" "calm v4" using produce_sync_calm [OF p 3(2)] by simp_all
  then have v4: "wdb v4 = wdb w" "wredis v4 = wredis w" "wlog v4 = wlog w @ [dlt_record text dlt rec e3 3]"
    using produce_sync_cases [OF p] 3 by auto
  obtain f v5 where f: "next_fault v4 = (f, v5)" by (rule prod.exhaust)
  have "f = NoFault" using calm_fault [OF 4(2) f] by simp
  then have "consume_record text dlt env rec (w, c) = (v5, c(k_partition rec \<mapsto> k_offset rec + 1))"
    using 1(1) 2(1) 3(1) p 4(1) f assms(5)
    by (simp add: consume_record_def process_with_retry_def main_retry_policy_def retry_loop.simps numeral_2_eq_2 numeral_3_eq_3
        Let_def commit_processed_def)
  then show ?thesis using v4 next_fault_frame [OF f] by auto
qed

lemma promised_stock:
  assumes "pipe_inv topic P asked w" "req \<in> promised p asked w"
  shows "\<exists>s. stock_of (wdb w) p = Some s \<and> r_quantity req \<le> s"
proof -
  have "p \<in> P" using assms by (auto simp: pipe_inv_def promised_def wire_ok_def)
  then obtain n s where s: "stock_of (wdb w) p = Some s" "0 \<le> n" "n + sum r_quantity (promised p asked w) \<le> s"
    using assms(1) unfolding pipe_inv_def covered_def by blast
  have "r_quantity req \<le> sum r_quantity (promised p asked w)"
    using assms by (intro member_le_sum) (auto simp: pipe_inv_def promised_def wire_ok_def less_imp_le)
  then show ?thesis using s by auto
qed

text \<open>The demonstration order, of any user, posted on a warmed stock of three.\<close>

lemma warm_orders: "orders (wdb warm_world) = []"
  by (simp add: warm_world_def demo_world_def demo_db_def)

lemma warm_start:
  "\<forall>p \<in> {1}. warmed p warm_world" "\<forall>rid. hget (reservation_key rid) ''state'' (wredis warm_world) = Inr None"
  "\<forall>k \<in> set (wlog warm_world). k_topic k \<noteq> ''orders''"
  by (simp_all add: warmed_def counter_def warm_lookup hget_def warm_log)
    (simp add: stock_of_def warm_world_def demo_world_def demo_db_def)

lemma demo_posted:
  assumes "fits_int64 u" "req = demo_req\<lparr>r_user := u\<rparr>"
  shows "\<exists>w. pipe_reach ''orders'' ''dead'' {1} ({}, warm_world) ({req}, w) \<and> wlog w = [order_record ''orders'' req 5]
    \<and> wfaults w = [] \<and> orders (wdb w) = []"
proof -
  obtain reply w where run: "async_http_place (\<lambda>e. ''text'') (Inl RedisNil) (wire_order ''orders'' 5) ''bad'' (Some req) warm_world
      = (reply, w)" by (rule prod.exhaust)
  then have w: "wlog w = [order_record ''orders'' req 5] \<and> holds (reservation_of req) (wredis w)
      \<and> wfaults w = [] \<and> orders (wdb w) = []"
    using assms by (auto simp: async_http_place_def wire_simps reserve_run_simps demo_req_def warm_lookup warm_faults warm_log warm_orders
        holds_def held_def)
  have ok: "wire_ok {1} req" using assms by (simp add: wire_ok_def demo_req_def fits_int32_def fits_int64_def)
  have "pipe_step ''orders'' ''dead'' {1} ({}, warm_world) (insert req {}, w)"
    by (rule pipe_post [OF run _ ok]) (use w assms(2) in \<open>simp_all add: demo_req_def warm_orders fault_at_def warm_faults\<close>)
  then show ?thesis using w pipe_next [OF pipe_start] by blast
qed

abbreviation demo_delivery :: "place_req \<Rightarrow> consumed" where
  "demo_delivery req \<equiv> krecord.extend (order_record ''orders'' req 5) \<lparr>k_partition = 0, k_offset = 4\<rparr>"

lemma demo_delivery_simps:
  "krecord.truncate (demo_delivery req) = order_record ''orders'' req 5" "k_topic (demo_delivery req) = ''orders''"
  "k_partition (demo_delivery req) = 0" "k_offset (demo_delivery req) = 4"
  "k_value (demo_delivery req) = encode_order_created req 5"
  by (simp_all add: krecord.defs order_record_def)

text \<open>A post on a quiet network, of a new request for which the counter has enough.\<close>

lemma post_calm:
  assumes "pipe_inv topic P asked w" "calm w" "wire_ok P req" "0 < r_product req" "r_request req \<notin> r_request ` asked"
    and "counter (wredis w) (stock_key (r_product req)) = Some n" "r_quantity req \<le> n" "fits_int64 n"
    and run: "async_http_place text generated (wire_order topic now) bad (Some req) w = (reply, w')"
  shows "reply = (202, AcceptedBody (r_request req)) \<and> wlog w' = wlog w @ [order_record topic req now]"
proof -
  have ok: "r_request req \<noteq> ''''" "r_product req \<noteq> 0" "0 < r_quantity req" "fits_int32 (r_quantity req)"
    using assms(3) by (simp_all add: wire_ok_def)
  have st: "hget (reservation_key (r_request req)) ''state'' (wredis w) = Inr None"
    using assms(1,5) by (simp add: pipe_inv_def known_states_def)
  have ready: "reservable (reservation_of req) n (wredis w)" using st assms(6,7) by (simp add: reservable_def)
  obtain f1 v1 where f1: "next_fault w = (f1, v1)" by (rule prod.exhaust)
  obtain f2 v2 where f2: "next_fault v1 = (f2, v2)" by (rule prod.exhaust)
  obtain f3 v3 where f3: "next_fault v2 = (f3, v3)" by (rule prod.exhaust)
  have q1: "f1 = NoFault" "calm v1" using calm_fault [OF assms(2) f1] by simp_all
  have q2: "f2 = NoFault" "calm v2" using calm_fault [OF q1(2) f2] by simp_all
  have q3: "f3 = NoFault" "calm v3" using calm_fault [OF q2(2) f3] by simp_all
  have n: "0 \<le> n" using ok(3) assms(7) by simp
  obtain v where v: "wlog v = wlog w" "wfaults v = wfaults v3"
    and wire: "wire_order topic now req w =
        (case produce_sync (order_record topic req now) v of
           (Inr _, v1) \<Rightarrow> (Inr \<lparr>ao_request = r_request req, ao_status = 202, ao_accepted = now\<rparr>, v1)
         | (Inl e, v1) \<Rightarrow> (case remote_restore restore (reservation_of req) v1 of
              (Inl e', v2) \<Rightarrow> (Inl (order_rpc_error (StatusError (place_status (Joined [e, e'])))), v2)
            | (Inr _, v2) \<Rightarrow> (Inl (order_rpc_error (StatusError (place_status (Joined [e])))), v2)))"
    using wire_order_ready [OF f1 [unfolded q1] f2 [unfolded q2] f3 [unfolded q3] ready n assms(8) ok(1) assms(4) ok(3,4)] by blast
  obtain z v4 where z: "produce_sync (order_record topic req now) v = (z, v4)" by (rule prod.exhaust)
  have "calm v" using q3(2) v(2) by (simp add: calm_def)
  then have p: "z = Inr ()" using produce_sync_calm [OF z] by simp
  then have "wlog v4 = wlog w @ [order_record topic req now]" using produce_sync_cases [OF z] v(1) by auto
  moreover have "wire_order topic now req w = (Inr \<lparr>ao_request = r_request req, ao_status = 202, ao_accepted = now\<rparr>, v4)"
    using wire z p by simp
  moreover have "req\<lparr>r_request := r_request req, r_quantity := r_quantity req\<rparr> = req" by simp
  ultimately show ?thesis using run ok(1-3) by (simp add: async_http_place_def)
qed

section \<open>Properties\<close>

text \<open>
  C4: an accepted order is never lost for lack of stock. Start with any set of products, each with a warmed counter of at most
  the database's stock, no reservations and no records in the topic (the dead-letter topic is another one); post requests for them, retry them, deliver and redeliver their records
  in any order. The clients send a request id, one of these products, a positive quantity of 32 bits, and use an id again only for the same request; an id
  posted for the first time has no order yet. Every call on either side of the topic may fail in any way, the produce call of a post excepted: it may fail
  without appending, for a request whose record is not in the topic, but it is not left without its answer after appending
  (what either would do is \<open>compensation_frees_accepted_order\<close>).
  Then the database still has the stock that every undelivered record needs: delivering one on a quiet network, at any later time, with
  an order id that is not negative and not taken, books its order if the columns of the table can hold it, commits its offset, and produces no dead letter.
\<close>

theorem accepted_orders_are_booked:
  assumes "pipe_reach topic dlt P ({}, w0) (asked, w)" "dlt \<noteq> topic"
    and "\<forall>p \<in> P. warmed p w0"
    and "\<forall>rid. hget (reservation_key rid) ''state'' (wredis w0) = Inr None" "\<forall>k \<in> set (wlog w0). k_topic k \<noteq> topic"
    and "k_topic rec = topic" "krecord.truncate rec \<in> set (wlog w)" "request_from_record (k_value rec) = Inr req" "storable req"
    and "calm w" "ce_ids env 1 = Inr i" "0 \<le> i" "i \<notin> o_id ` set (orders (wdb w))"
  shows "req \<in> asked \<and> (\<exists>w'. consume_record text dlt env rec (w, c) = (w', c(k_partition rec \<mapsto> k_offset rec + 1))
    \<and> r_request req \<in> o_request ` set (orders (wdb w')) \<and> wlog w' = wlog w)"
proof -
  have inv: "pipe_inv topic P asked w"
    using pipe_reach_inv [OF assms(1)] pipe_start_inv [OF assms(3-5)] assms(2) by simp
  have req: "req \<in> asked" "recorded topic req w"
    using delivered_request [OF inv assms(6,7)] assms(8) by auto
  have ok: "0 < r_quantity req" using inv req(1) by (simp add: pipe_inv_def wire_ok_def)
  have row: "row_error (new_order i req) = None" using assms(9,12) by (simp add: storable_iff)
  obtain ord v where v: "place_order_tx (Inr i) (\<lambda>d. d) (\<lambda>d. d) req w = (Inr ord, v)" "calm v"
  proof (cases "select_by_request (r_request req) (wdb w)")
    case (Inr o1)
    then show thesis using place_order_tx_calm_replay [OF assms(10) ok Inr] that by blast
  next
    case (Inl e)
    then have new: "r_request req \<notin> o_request ` set (orders (wdb w))" by (simp add: select_by_request_Inl)
    then have "req \<in> promised (r_product req) asked w" using req inv by (simp add: promised_def pipe_inv_def traced_def)
    from promised_stock [OF inv this] obtain s where "stock_of (wdb w) (r_product req) = Some s" "r_quantity req \<le> s" by auto
    from place_order_tx_calm [OF assms(10) ok this assms(13) new row] that show thesis by blast
  qed
  have p: "place_record (Inr i) rec w = (Inr ord, v)" using v(1) assms(8) by (simp add: place_record_def)
  obtain w' where w': "consume_record text dlt env rec (w, c) = (w', c(k_partition rec \<mapsto> k_offset rec + 1))"
    "wdb w' = wdb v" "wlog w' = wlog v" using consume_calm [OF assms(8,11) v] by blast
  have "r_request req \<in> o_request ` set (orders (wdb v)) \<and> wlog v = wlog w" using place_record_Inr [OF p] assms(8) by auto
  with w' req(1) show ?thesis by (intro conjI exI [of _ w']) simp_all
qed

theorem accepted_orders_are_booked_witness:
  "\<exists>w w'. pipe_reach ''orders'' ''dead'' {1} ({}, warm_world) ({demo_req}, w)
     \<and> consume_record (\<lambda>e. ''text'') ''dead'' good_env (demo_delivery demo_req) (w, Map.empty) = (w', [0 \<mapsto> 5])
     \<and> r_request demo_req \<in> o_request ` set (orders (wdb w'))"
proof -
  obtain w where w: "pipe_reach ''orders'' ''dead'' {1} ({}, warm_world) ({demo_req}, w)"
    "wlog w = [order_record ''orders'' demo_req 5]" "wfaults w = []" "orders (wdb w) = []"
    using demo_posted [of 7 demo_req] by (auto simp: demo_req_def fits_int64_def)
  have "request_from_record (encode_order_created demo_req 5) = Inr demo_req"
    by (rule request_roundtrip) (simp_all add: demo_req_def fits_int64_def)
  moreover have "storable demo_req" by (simp add: storable_def demo_req_def fits_int32_def utf8_length_def)
  ultimately show ?thesis
    using accepted_orders_are_booked [OF w(1) _ warm_start, of "demo_delivery demo_req" demo_req good_env _ "\<lambda>e. ''text''" Map.empty] w
    by (auto simp: calm_def good_env_def demo_delivery_simps)
qed

text \<open>
  C38: an accepted order that no row can hold is lost, and its stock with it. In any state the system of C4 reaches, post on a quiet network
  a new request (its id neither posted nor ordered before, its product on sale with a positive id, its positive quantity of 32 bits no more than the
  counter, which fits 64 bits) that the columns of \<open>orders\<close> do not take: a negative user id, or a request id of more than 64 characters. The gateway answers 202 and its record is in the topic. From then on, in every state the system reaches, the request has no
  order and its reservation stands; delivering its record on a quiet network, with no attempt cancelled, fails three times, appends one dead letter,
  commits the offset, and gives nothing back.
\<close>

theorem unstorable_orders_are_dead_lettered:
  assumes "pipe_reach topic dlt P ({}, w0) (asked, w)" "dlt \<noteq> topic"
    and "\<forall>p \<in> P. warmed p w0"
    and "\<forall>rid. hget (reservation_key rid) ''state'' (wredis w0) = Inr None" "\<forall>k \<in> set (wlog w0). k_topic k \<noteq> topic"
    and "calm w" "wire_ok P req" "0 < r_product req" "\<not> storable req"
    and "r_request req \<notin> r_request ` asked" "r_request req \<notin> o_request ` set (orders (wdb w))"
    and "counter (wredis w) (stock_key (r_product req)) = Some n" "r_quantity req \<le> n" "fits_int64 n"
    and "async_http_place text generated (wire_order topic now) bad (Some req) w = ((status, reply), w1)"
  shows "status = 202 \<and> reply = AcceptedBody (r_request req) \<and> wlog w1 = wlog w @ [order_record topic req now]
    \<and> (\<forall>asked' w2. pipe_reach topic dlt P (insert req asked, w1) (asked', w2) \<longrightarrow>
        r_request req \<notin> o_request ` set (orders (wdb w2)) \<and> holds (reservation_of req) (wredis w2)
        \<and> (\<forall>rec txt env c. k_value rec = encode_order_created req now \<longrightarrow> calm w2 \<longrightarrow> (\<forall>a. ce_cancelled env a = None) \<longrightarrow>
            (\<exists>e w'. consume_record txt dlt env rec (w2, c) = (w', c(k_partition rec \<mapsto> k_offset rec + 1))
              \<and> wdb w' = wdb w2 \<and> wredis w' = wredis w2 \<and> wlog w' = wlog w2 @ [dlt_record txt dlt rec e 3])))"
proof -
  have inv: "pipe_inv topic P asked w" using pipe_reach_inv [OF assms(1)] pipe_start_inv [OF assms(3-5)] assms(2) by simp
  have posted: "(status, reply) = (202, AcceptedBody (r_request req)) \<and> wlog w1 = wlog w @ [order_record topic req now]"
    by (rule post_calm [OF inv assms(6-8,10,12-15)])
  have "produce_fault w = NoFault" using assms(6) by (auto simp: fault_at_def calm_def list_all_length)
  moreover have "req = req\<lparr>r_quantity := if r_quantity req = 0 then 1 else r_quantity req\<rparr>"
    using assms(7) by (simp add: wire_ok_def)
  moreover have "\<forall>a \<in> asked. r_request a = r_request req \<longrightarrow> a = req" using assms(10) by (metis imageI)
  ultimately have step: "pipe_step topic dlt P (asked, w) (insert req asked, w1)"
    by (intro pipe_post [OF assms(15) _ assms(7)]) (simp_all add: assms(11))
  have inv1: "pipe_inv topic P (insert req asked) w1" using pipe_step_inv [OF step] inv assms(2) by simp
  have json: "request_from_record (encode_order_created req now) = Inr req"
    using request_roundtrip [of req now] assms(7) by (auto simp: wire_ok_def fits_int32_def fits_int64_def)
  have later: "r_request req \<notin> o_request ` set (orders (wdb w2)) \<and> holds (reservation_of req) (wredis w2)"
    if r: "pipe_reach topic dlt P (insert req asked, w1) (asked', w2)" for asked' w2
  proof -
    have i2: "pipe_inv topic P asked' w2" using pipe_reach_inv [OF r] inv1 assms(2) by simp
    have "req \<in> asked'" "recorded topic req w2"
      using pipe_reach_mono [OF r] inv1 assms(2) posted by (auto simp: recorded_def)
    then show ?thesis using i2 assms(9) by (auto simp: pipe_inv_def traced_def)
  qed
  have lost: "\<exists>e w'. consume_record tx dlt env rec (w2, c) = (w', c(k_partition rec \<mapsto> k_offset rec + 1))
      \<and> wdb w' = wdb w2 \<and> wredis w' = wredis w2 \<and> wlog w' = wlog w2 @ [dlt_record tx dlt rec e 3]"
    if "pipe_reach topic dlt P (insert req asked, w1) (asked', w2)" "k_value rec = encode_order_created req now" "calm w2"
      "\<forall>a. ce_cancelled env a = None" for asked' w2 rec tx env c
    using consume_unstorable [OF that(3) _ assms(9) conjunct1 [OF later [OF that(1)]] that(4)] json that(2) by simp
  show ?thesis using posted later lost by (intro conjI allI impI) auto
qed

theorem unstorable_orders_are_dead_lettered_witness:
  "\<exists>w w' e. async_http_place (\<lambda>e. ''text'') (Inl RedisNil) (wire_order ''orders'' 5) ''bad'' (Some (demo_req\<lparr>r_user := -1\<rparr>)) warm_world
       = ((202, AcceptedBody ''r1''), w)
     \<and> consume_record (\<lambda>e. ''text'') ''dead'' good_env (demo_delivery (demo_req\<lparr>r_user := -1\<rparr>)) (w, Map.empty) = (w', [0 \<mapsto> 5])
     \<and> orders (wdb w') = [] \<and> wlog w' = wlog w @ [dlt_record (\<lambda>e. ''text'') ''dead'' (demo_delivery (demo_req\<lparr>r_user := -1\<rparr>)) e 3]"
proof -
  let ?req = "demo_req\<lparr>r_user := -1\<rparr>"
  obtain status reply w where run: "async_http_place (\<lambda>e. ''text'') (Inl RedisNil) (wire_order ''orders'' 5) ''bad'' (Some ?req) warm_world
      = ((status, reply), w)" by (metis prod.exhaust)
  then have w: "wfaults w = []" "orders (wdb w) = []"
    by (auto simp: async_http_place_def wire_simps reserve_run_simps demo_req_def warm_lookup warm_faults warm_log warm_orders)
  have ok: "wire_ok {1} ?req" by (simp add: wire_ok_def demo_req_def fits_int32_def fits_int64_def)
  have un: "\<not> storable ?req" by (simp add: storable_def)
  have n: "counter (wredis warm_world) (stock_key (r_product ?req)) = Some 3" by (simp add: demo_req_def counter_def warm_lookup)
  have start: "pipe_reach ''orders'' ''dead'' {1} ({}, warm_world) ({}, warm_world)" by (rule pipe_start)
  have c: "calm warm_world" by (simp add: calm_def warm_faults)
  have side: "''dead'' \<noteq> ''orders''" "0 < r_product ?req" "r_request ?req \<notin> r_request ` {}"
    "r_request ?req \<notin> o_request ` set (orders (wdb warm_world))" "r_quantity ?req \<le> 3" "fits_int64 3"
    by (simp_all add: demo_req_def warm_orders fits_int64_def)
  note t = unstorable_orders_are_dead_lettered
    [OF start side(1) warm_start c ok side(2) un side(3,4) n side(5,6) run]
  from t have t1: "status = 202 \<and> reply = AcceptedBody (r_request ?req)" by blast
  have again: "pipe_reach ''orders'' ''dead'' {1} (insert ?req {}, w) (insert ?req {}, w)" by (rule pipe_start)
  from t have "\<forall>asked' w2. pipe_reach ''orders'' ''dead'' {1} (insert ?req {}, w) (asked', w2) \<longrightarrow>
      (\<forall>rec txt env c. k_value rec = encode_order_created ?req 5 \<longrightarrow> calm w2 \<longrightarrow> (\<forall>a. ce_cancelled env a = None) \<longrightarrow>
      (\<exists>e w'. consume_record txt ''dead'' env rec (w2, c) = (w', c(k_partition rec \<mapsto> k_offset rec + 1))
        \<and> wdb w' = wdb w2 \<and> wredis w' = wredis w2 \<and> wlog w' = wlog w2 @ [dlt_record txt ''dead'' rec e 3]))" by blast
  from this [rule_format, OF again, of "demo_delivery ?req" good_env "\<lambda>e. ''text''" Map.empty]
  obtain e w' where "consume_record (\<lambda>e. ''text'') ''dead'' good_env (demo_delivery ?req) (w, Map.empty)
        = (w', Map.empty(k_partition (demo_delivery ?req) \<mapsto> k_offset (demo_delivery ?req) + 1))"
      "wdb w' = wdb w" "wlog w' = wlog w @ [dlt_record (\<lambda>e. ''text'') ''dead'' (demo_delivery ?req) e 3]"
    using w by (auto simp: calm_def good_env_def demo_delivery_simps)
  then show ?thesis
    using w run t1 by (intro exI [of _ w] exI [of _ w'] exI [of _ e]) (simp add: demo_delivery_simps demo_req_def)
qed

end
