(* ===== verification/Api.thy ===== *)
theory Api
  imports Services Overload Reconcile Bucket Lock
begin

text \<open>
  The composition roots: the configuration helpers of the three commands, the handlers that
  \<open>cmd/api/main.go\<close> defines itself (one order by each strategy, the asynchronous order with the ledger, the
  debugging endpoints), and the steps of its graceful shutdown.
\<close>

section \<open>Configuration\<close>

text \<open>\<open>strconv.ParseInt(s, 10, 64)\<close>, which \<open>Atoi\<close> is too on 64-bit machines: an optional sign, digits, no overflow.\<close>

definition parse_int :: "string \<Rightarrow> int option" where
  "parse_int s = (case (case s of [] \<Rightarrow> (False, []) | c # cs \<Rightarrow>
       if c = CHR ''-'' then (True, cs) else if c = CHR ''+'' then (False, cs) else (False, s)) of
     (neg, ds) \<Rightarrow>
       if ds = [] \<or> \<not> list_all is_digit ds then None
       else (let n = (if neg then - int (digits_value ds) else int (digits_value ds))
             in if fits_int64 n then Some n else None))"

text \<open>An unset variable reads as the empty string.\<close>

definition env_or :: "(string \<Rightarrow> string) \<Rightarrow> string \<Rightarrow> string \<Rightarrow> string" where
  "env_or getenv key def = (if getenv key \<noteq> '''' then getenv key else def)"

definition env_int_or :: "(string \<Rightarrow> string) \<Rightarrow> string \<Rightarrow> int \<Rightarrow> int" where
  "env_int_or getenv key def = (if getenv key \<noteq> ''''
     then (case parse_int (getenv key) of Some n \<Rightarrow> n | None \<Rightarrow> def) else def)"

definition env_float_or :: "(string \<Rightarrow> 'f option) \<Rightarrow> (string \<Rightarrow> string) \<Rightarrow> string \<Rightarrow> 'f \<Rightarrow> 'f" where
  "env_float_or parse_float getenv key def = (if getenv key \<noteq> ''''
     then (case parse_float (getenv key) of Some f \<Rightarrow> f | None \<Rightarrow> def) else def)"

text \<open>The helpers of \<open>cmd/order-service\<close> (\<open>cmd/inventory-service\<close> has the same), which parse without looking first.\<close>

definition service_env_or :: "(string \<Rightarrow> string) \<Rightarrow> string \<Rightarrow> string \<Rightarrow> string" where
  "service_env_or getenv key fallback = (let value = getenv key in if value \<noteq> '''' then value else fallback)"

definition service_env_int_or :: "(string \<Rightarrow> string) \<Rightarrow> string \<Rightarrow> int \<Rightarrow> int" where
  "service_env_int_or getenv key fallback = (case parse_int (getenv key) of None \<Rightarrow> fallback | Some value \<Rightarrow> value)"

definition order_pool :: "string \<Rightarrow> string \<times> string \<times> string" where
  "order_pool version = (if version = ''v2'' then (''order-canary'', '':9083'', ''127.0.0.1:9083'')
     else (''order'', '':9081'', ''127.0.0.1:9081''))"

definition breaker_policy_of_env :: "(string \<Rightarrow> string) \<Rightarrow> breaker_policy" where
  "breaker_policy_of_env getenv = \<lparr>failure_threshold = env_int_or getenv ''BREAKER_FAILURE_THRESHOLD'' 5,
     open_for = to_int64 (env_int_or getenv ''BREAKER_OPEN_FOR_MS'' 2000 * 1000000),
     half_open_probes = env_int_or getenv ''BREAKER_HALFOPEN_PROBES'' 1\<rparr>"

definition bucket_cfg_from :: "string \<Rightarrow> string \<Rightarrow> bucket_config" where
  "bucket_cfg_from n k =
     (let cfg = default_bucket_config;
          cfg1 = (case parse_int n of Some m \<Rightarrow> if 0 < m then cfg\<lparr>bucket_count := m\<rparr> else cfg | None \<Rightarrow> cfg)
      in case parse_int k of Some m \<Rightarrow> if 0 \<le> m then cfg1\<lparr>max_probes := m\<rparr> else cfg1 | None \<Rightarrow> cfg1)"

lemma default_bucket_simps [simp]:
  "bucket_count default_bucket_config = 8" "max_probes default_bucket_config = 2"
  by (simp_all add: default_bucket_config_def)

lemma bucket_cfg_sane: "0 < bucket_count (bucket_cfg_from n k) \<and> 0 \<le> max_probes (bucket_cfg_from n k)"
  by (auto simp: bucket_cfg_from_def Let_def split: option.splits)

lemma parse_digits: "list_all is_digit (show_nat n) \<and> hd (show_nat n) \<noteq> CHR ''-'' \<and> hd (show_nat n) \<noteq> CHR ''+''"
proof -
  have d: "is_digit c" if "c \<in> set (show_nat n)" for c using show_nat_digits that .
  then have "is_digit (hd (show_nat n))" by simp
  moreover have "\<not> is_digit (CHR ''-'')" "\<not> is_digit (CHR ''+'')" by (simp_all add: is_digit_def)
  ultimately have "hd (show_nat n) \<noteq> CHR ''-''" "hd (show_nat n) \<noteq> CHR ''+''" by metis+
  with d show ?thesis by (simp add: list_all_iff)
qed

lemma parse_show_int: "fits_int64 i \<Longrightarrow> parse_int (show_int i) = Some i"
proof -
  assume fit: "fits_int64 i"
  show ?thesis
  proof (cases "i < 0")
    case True
    then show ?thesis using fit parse_digits [of "nat (- i)"] by (simp add: parse_int_def show_int_def)
  next
    case False
    obtain c cs where c: "show_nat (nat i) = c # cs" by (cases "show_nat (nat i)") auto
    then have "c \<noteq> CHR ''-''" "c \<noteq> CHR ''+''" "list_all is_digit (c # cs)" using parse_digits [of "nat i"] by auto
    moreover have "digits_value (c # cs) = nat i" using digits_value_show_nat [of "nat i"] c by simp
    ultimately show ?thesis using False fit c by (simp add: parse_int_def show_int_def)
  qed
qed

lemma service_env_agrees: "service_env_int_or = env_int_or" "service_env_or = env_or"
  by (auto simp: fun_eq_iff service_env_int_or_def env_int_or_def service_env_or_def env_or_def Let_def parse_int_def
      split: option.splits)

section \<open>Orders by a named strategy\<close>

text \<open>
  What \<open>c.ShouldBindJSON\<close> answers is \<open>None\<close> for a body that does not parse or has no product; path parameters
  are strings, parsed as the handlers parse them. Metrics and log lines are not modelled.
\<close>

datatype api_body = ApiError string | ApiOrder order | ApiProduct product | ApiStock int int | ApiWarmed int
  | ApiSpread int "int list" bucket_config | ApiRemaining int "int list" | ApiArmed int
  | ApiAccepted string | ApiCrashed string | ApiIdentity identity bool | ApiReport report | ApiFailedReport string report

type_synonym api_reply = "int \<times> api_body"

definition bind_deduct :: "place_req option \<Rightarrow> place_req option" where
  "bind_deduct body = (case body of None \<Rightarrow> None | Some b \<Rightarrow> (if r_product b = 0 then None else Some b))"

text \<open>The request of a bound body: a generated id for a missing one, one item for no quantity.\<close>

definition deduct_request :: "go_error + int \<Rightarrow> place_req \<Rightarrow> go_error + place_req" where
  "deduct_request generated b =
     (case (if r_request b = '''' then map_sum id show_int generated else Inr (r_request b)) of
        Inl e \<Rightarrow> Inl e
      | Inr rid \<Rightarrow> Inr (b\<lparr>r_request := rid, r_quantity := (if r_quantity b = 0 then 1 else r_quantity b)\<rparr>))"

text \<open>The sources of chance of one order: its new id, its lock token, and what others do meanwhile.\<close>

record chance =
  ch_id :: "go_error + int"
  ch_token :: "go_error + string"
  ch_row1 :: "database \<Rightarrow> database"
  ch_row2 :: "database \<Rightarrow> database"
  ch_rounds :: "nat \<Rightarrow> database \<Rightarrow> database"
  ch_gate :: "world \<Rightarrow> world"

definition run_approach :: "chance \<Rightarrow> bucket_config \<Rightarrow> string \<Rightarrow> place_req \<Rightarrow> world
    \<Rightarrow> ((go_error + order) \<times> world) go option" where
  "run_approach ch cfg approach req w =
     (if approach = ''pessimistic'' then Some (Ret (place_order_tx (ch_id ch) (ch_row1 ch) (ch_row2 ch) req w))
      else if approach = ''cas'' then
        Some (Ret (case place_order_by_version_cas (ch_id ch) (ch_rounds ch) req w of ((x, attempts), w') \<Rightarrow> (x, w')))
      else if approach = ''conditional'' then Some (Ret (place_order_by_conditional_update (ch_id ch) req w))
      else if approach = ''lock'' then
        Some (Ret (place_order_with_lock (ch_token ch) (ch_id ch) (ch_gate ch) default_lock_options req w))
      else if approach = ''lua'' then Some (Ret (place_order_with_pre_deduct (ch_id ch) (ch_gate ch) req w))
      else if approach = ''bucket'' then Some (place_order_with_bucket_deduct (ch_id ch) (ch_gate ch) cfg req w)
      else None)"

definition approach_reply :: "(go_error \<Rightarrow> string) \<Rightarrow> go_error + order \<Rightarrow> api_reply" where
  "approach_reply text x = (case x of
       Inr ord \<Rightarrow> (200, ApiOrder ord)
     | Inl e \<Rightarrow>
        (if errors_is e OrderInsufficientStock then 409
         else if errors_is e CASRetriesExhausted \<or> errors_is e LockNotAcquired then 409 else 500, ApiError (text e)))"

definition http_debug_order :: "(go_error \<Rightarrow> string) \<Rightarrow> go_error + int \<Rightarrow> chance \<Rightarrow> string \<Rightarrow> string \<Rightarrow> string
    \<Rightarrow> string \<Rightarrow> place_req option \<Rightarrow> world \<Rightarrow> (api_reply \<times> world) go" where
  "http_debug_order text generated ch n k bad approach body w = (case bind_deduct body of
       None \<Rightarrow> Ret ((400, ApiError bad), w)
     | Some b \<Rightarrow> (case deduct_request generated b of
          Inl e \<Rightarrow> Ret ((500, ApiError (text e)), w)
        | Inr req \<Rightarrow> (case run_approach ch (bucket_cfg_from n k) approach req w of
             None \<Rightarrow> Ret ((400, ApiError (''unknown approach: '' @ approach)), w)
           | Some Panic \<Rightarrow> Panic
           | Some (Ret (x, w')) \<Rightarrow> Ret (approach_reply text x, w'))))"

section \<open>The order with a ledger\<close>

definition http_enqueue_ledger :: "(go_error \<Rightarrow> string) \<Rightarrow> go_error + int \<Rightarrow> string \<Rightarrow> int \<Rightarrow> int \<Rightarrow> string
    \<Rightarrow> place_req option \<Rightarrow> int option \<Rightarrow> world \<Rightarrow> api_reply \<times> int option \<times> world" where
  "http_enqueue_ledger text generated topic now accepted_at bad body switch w = (case bind_deduct body of
       None \<Rightarrow> ((400, ApiError bad), switch, w)
     | Some b \<Rightarrow> (case deduct_request generated b of
          Inl e \<Rightarrow> ((500, ApiError (text e)), switch, w)
        | Inr req \<Rightarrow>
           (case enqueue_with_ledger now (produce_sync (order_record topic req accepted_at)) req switch w of
              (err, switch', w') \<Rightarrow>
                ((case err of
                    None \<Rightarrow> (202, ApiAccepted (r_request req))
                  | Some e \<Rightarrow>
                     (if errors_is e SimulatedCrash then (500, ApiCrashed (r_request req))
                      else if errors_is e OrderInsufficientStock then (409, ApiError (text e))
                      else (500, ApiError (text e)))), switch', w'))))"

definition http_arm_crash :: "string option \<Rightarrow> int option \<Rightarrow> api_reply \<times> int option" where
  "http_arm_crash n switch = (case parse_int (case n of None \<Rightarrow> ''0'' | Some s \<Rightarrow> s) of
       None \<Rightarrow> ((400, ApiError ''bad n''), switch) | Some m \<Rightarrow> ((200, ApiArmed m), Some m))"

definition identity_holds :: "identity \<Rightarrow> bool" where
  "identity_holds idt \<longleftrightarrow> id_leaked idt = 0"

definition http_identity :: "(go_error \<Rightarrow> string) \<Rightarrow> string \<Rightarrow> string option \<Rightarrow> world \<Rightarrow> api_reply \<times> world" where
  "http_identity text i initial w = (case parse_int i of
       None \<Rightarrow> ((400, ApiError ''bad id''), w)
     | Some p \<Rightarrow> (case parse_int (case initial of None \<Rightarrow> ''0'' | Some s \<Rightarrow> s) of
          None \<Rightarrow> ((400, ApiError ''bad initial''), w)
        | Some m \<Rightarrow> (case check_identity p m w of
             (Inl e, w') \<Rightarrow> ((500, ApiError (text e)), w')
           | (Inr idt, w') \<Rightarrow> ((200, ApiIdentity idt (identity_holds idt)), w'))))"

text \<open>\<open>window\<close> is what \<open>time.ParseDuration\<close> makes of the parameter.\<close>

definition http_reconcile :: "(go_error \<Rightarrow> string) \<Rightarrow> string list list \<Rightarrow> int option \<Rightarrow> int \<Rightarrow> (nat \<Rightarrow> go_error option)
    \<Rightarrow> world \<Rightarrow> api_reply \<times> world" where
  "http_reconcile text pages window now ctx w = (case window of
       None \<Rightarrow> ((400, ApiError ''bad window''), w)
     | Some d \<Rightarrow> (case reconcile_once pages d now ctx w of
          ((rp, Some e), w') \<Rightarrow> ((500, ApiFailedReport (text e) rp), w')
        | ((rp, None), w') \<Rightarrow> ((200, ApiReport rp), w')))"

section \<open>The debugging endpoints\<close>

text \<open>Each parses its path parameter, makes one call, and answers; what differs is how an error is answered.\<close>

definition with_id :: "string \<Rightarrow> (int \<Rightarrow> 's \<Rightarrow> api_reply \<times> 's) \<Rightarrow> 's \<Rightarrow> api_reply \<times> 's" where
  "with_id i handler s = (case parse_int i of None \<Rightarrow> ((400, ApiError ''bad id''), s) | Some n \<Rightarrow> handler n s)"

definition http_stock :: "(go_error \<Rightarrow> string) \<Rightarrow> string \<Rightarrow> world \<Rightarrow> api_reply \<times> world" where
  "http_stock text i = with_id i (\<lambda>p w. case on_db (query (select_stock p)) w of
       (Inl e, w') \<Rightarrow> ((404, ApiError (text e)), w') | (Inr stk, w') \<Rightarrow> ((200, ApiStock p stk), w'))"

definition http_nocache :: "(go_error \<Rightarrow> string) \<Rightarrow> string \<Rightarrow> cstate \<Rightarrow> api_reply \<times> cstate" where
  "http_nocache text i = with_id i (\<lambda>p s. case sql_load_product p s of
       (Inr pr, s') \<Rightarrow> ((200, ApiProduct pr), s')
     | (Inl e, s') \<Rightarrow> ((if errors_is e CacheProductNotFound then 404 else 500, ApiError (text e)), s'))"

definition http_warm_cache :: "(go_error \<Rightarrow> string) \<Rightarrow> int \<Rightarrow> string \<Rightarrow> cstate \<Rightarrow> api_reply \<times> cstate" where
  "http_warm_cache text rnd i = with_id i (\<lambda>p s. case cache_warm app_load default_cache_options [(p, rnd)] s of
       (Inl e, s') \<Rightarrow> ((500, ApiError (text e)), s') | (Inr _, s') \<Rightarrow> ((200, ApiWarmed p), s'))"

definition http_update_stock :: "(go_error \<Rightarrow> string) \<Rightarrow> string \<Rightarrow> string \<Rightarrow> cstate \<Rightarrow> api_reply \<times> cstate" where
  "http_update_stock text stk i = with_id i (\<lambda>p s. case parse_int stk of
       None \<Rightarrow> ((400, ApiError ''bad stock''), s)
     | Some n \<Rightarrow> (case cache_update_stock app_update p n s of
          (Inl e, s') \<Rightarrow> ((500, ApiError (text e)), s') | (Inr _, s') \<Rightarrow> ((200, ApiStock p n), s')))"

definition http_warm_stock :: "(go_error \<Rightarrow> string) \<Rightarrow> string \<Rightarrow> world \<Rightarrow> api_reply \<times> world" where
  "http_warm_stock text i = with_id i (\<lambda>p w. case warm_stock p w of
       (Inl e, w') \<Rightarrow> ((500, ApiError (text e)), w') | (Inr _, w') \<Rightarrow> ((200, ApiWarmed p), w'))"

definition http_warm_buckets :: "(go_error \<Rightarrow> string) \<Rightarrow> string \<Rightarrow> string \<Rightarrow> string \<Rightarrow> world \<Rightarrow> (api_reply \<times> world) go" where
  "http_warm_buckets text n k i w = (case parse_int i of
       None \<Rightarrow> Ret ((400, ApiError ''bad id''), w)
     | Some p \<Rightarrow> (case spread_stock p (bucket_cfg_from n k) w of
          Panic \<Rightarrow> Panic
        | Ret (Inl e, w') \<Rightarrow> Ret ((500, ApiError (text e)), w')
        | Ret (Inr plan, w') \<Rightarrow> Ret ((200, ApiSpread p plan (bucket_cfg_from n k)), w')))"

definition http_remaining :: "(go_error \<Rightarrow> string) \<Rightarrow> string \<Rightarrow> string \<Rightarrow> string \<Rightarrow> world \<Rightarrow> (api_reply \<times> world) go" where
  "http_remaining text n k i w = (case parse_int i of
       None \<Rightarrow> Ret ((400, ApiError ''bad id''), w)
     | Some p \<Rightarrow> (case total_remaining p (bucket_cfg_from n k) w of
          Panic \<Rightarrow> Panic
        | Ret (Inl e, w') \<Rightarrow> Ret ((500, ApiError (text e)), w')
        | Ret (Inr (n_all, per), w') \<Rightarrow> Ret ((200, ApiRemaining n_all per), w')))"

section \<open>The shutdown of the process\<close>

text \<open>
  The drain step polls: each reading is the in-flight count and, when that is not zero, whether the context's case of the
  \<open>select\<close> is taken. \<open>None\<close> means that the readings ran out while it still waits.
\<close>

fun drain_inflight :: "go_error \<Rightarrow> (int \<times> bool) list \<Rightarrow> go_error option option" where
  "drain_inflight ctx_err [] = None"
| "drain_inflight ctx_err ((in_flight, expired) # readings) =
     (if in_flight = 0 then Some None else if expired then Some (Some ctx_err) else drain_inflight ctx_err readings)"

text \<open>Stopping the consumer: the loop's context is cancelled, then its end or the deadline comes first.\<close>

definition stop_consumer_step :: "('w \<Rightarrow> 'w) \<Rightarrow> ('w \<Rightarrow> go_error option) \<Rightarrow> 'w \<Rightarrow> go_error option \<times> 'w" where
  "stop_consumer_step stop_loop ended w = (let w1 = stop_loop w in (ended w1, w1))"

fun close_all :: "('w \<Rightarrow> go_error option \<times> 'w) list \<Rightarrow> 'w \<Rightarrow> go_error list \<times> 'w" where
  "close_all [] w = ([], w)"
| "close_all (close # closers) w = (case close w of (e, w1) \<Rightarrow>
     (case close_all closers w1 of (es, w2) \<Rightarrow> ((case e of None \<Rightarrow> es | Some err \<Rightarrow> err # es), w2)))"

definition close_deps :: "('w \<Rightarrow> 'w) \<Rightarrow> ('w \<Rightarrow> 'w) \<Rightarrow> ('w \<Rightarrow> go_error option \<times> 'w) list \<Rightarrow> 'w \<Rightarrow> go_error option \<times> 'w" where
  "close_deps consumer_close producer_close closers w =
     (case close_all closers (producer_close (consumer_close w)) of
        ([], w') \<Rightarrow> (None, w') | (es, w') \<Rightarrow> (Some (Joined es), w'))"

text \<open>The five steps; what the libraries do in them (\<open>Shutdown\<close>, \<open>Flush\<close>, the closers) is a parameter.\<close>

definition main_steps :: "('w \<Rightarrow> go_error option \<times> 'w) \<Rightarrow> ('w \<Rightarrow> go_error option \<times> 'w) \<Rightarrow> ('w \<Rightarrow> 'w) \<Rightarrow> ('w \<Rightarrow> go_error option)
    \<Rightarrow> ('w \<Rightarrow> go_error option \<times> 'w) \<Rightarrow> ('w \<Rightarrow> 'w) \<Rightarrow> ('w \<Rightarrow> 'w) \<Rightarrow> ('w \<Rightarrow> go_error option \<times> 'w) list \<Rightarrow> 'w shutdown_step list" where
  "main_steps stop_http drain stop_loop ended flush consumer_close producer_close closers =
     [(''stop-http'', stop_http), (''drain-inflight'', drain),
      (''stop-consumer'', stop_consumer_step stop_loop ended), (''flush-producer'', flush),
      (''close-deps'', close_deps consumer_close producer_close closers)]"

section \<open>Every strategy books at most one order\<close>

text \<open>One call for one request: the database is as it was, or it holds one booking more, and the answer says which.\<close>

definition one_order :: "go_error + int \<Rightarrow> place_req \<Rightarrow> database \<Rightarrow> database \<Rightarrow> go_error + order \<Rightarrow> bool" where
  "one_order nid req d d' x \<longleftrightarrow>
     d' = d \<and> (\<forall>ord. x = Inr ord \<longrightarrow> ord \<in> set (orders d) \<and> o_request ord = r_request req)
     \<or> (\<exists>i. nid = Inr i \<and> booked i req d d' \<and> (x = Inr (new_order i req) \<or> (\<exists>e. x = Inl (net_err e))))"

lemma one_order_same [intro]: "one_order nid req d d (Inl e)"
  by (simp add: one_order_def)

lemma one_order_sale:
  "sale i req d d' \<Longrightarrow> nid = Inr i \<Longrightarrow> x = Inr (new_order i req) \<or> (\<exists>e. x = Inl (net_err e)) \<Longrightarrow> one_order nid req d d' x"
  using sale_booked by (auto simp: one_order_def)

lemma tx_one_order:
  assumes "place_order_tx nid (\<lambda>d. d) (\<lambda>d. d) req w = (x, w')"
  shows "one_order nid req (wdb w) (wdb w') x"
  using place_order_tx_cases [OF assms] sale_booked by (auto simp: one_order_def)

lemma cas_one_order:
  assumes "cas_loop m j nid (\<lambda>k d. d) req w = ((x, a), w')"
  shows "one_order nid req (wdb w) (wdb w') x"
  using assms
proof (induction m j nid "\<lambda>(k::nat) (d::database). d" req w arbitrary: x a w' rule: cas_loop.induct)
  case (2 m j nid req w)
  obtain y w1 where att: "cas_attempt nid (\<lambda>d. d) req w = (y, w1)" by (rule prod.exhaust)
  note c = cas_attempt_cases [OF att]
  show ?case
  proof (cases y)
    case (Inl e)
    then have "x = Inl e" "w' = w1" using "2.prems" att by simp_all
    then show ?thesis using c Inl one_order_sale [of _ req "wdb w" "wdb w'" nid x] by (auto simp: versioned_def)
  next
    case (Inr z)
    show ?thesis
    proof (cases z)
      case (Some ord)
      then have "x = Inr ord" "w' = w1" using "2.prems" att Inr by simp_all
      then show ?thesis using c Inr Some one_order_sale [of _ req "wdb w" "wdb w'" nid x] by (auto simp: versioned_def)
    next
      case None
      then have "wdb w1 = wdb w" using c Inr by (auto simp: versioned_def)
      moreover have "one_order nid req (wdb w1) (wdb w') x" using "2.hyps" [of y w1 z] "2.prems" att Inr None by simp
      ultimately show ?thesis by simp
    qed
  qed
qed auto

lemma version_cas_one_order:
  assumes "place_order_by_version_cas nid (\<lambda>k d. d) req w = ((x, a), w')"
  shows "one_order nid req (wdb w) (wdb w') x"
  using assms cas_one_order by (auto simp: place_order_by_version_cas_def split: option.splits)

lemma conditional_one_order:
  assumes "place_order_by_conditional_update nid req w = (x, w')"
  shows "one_order nid req (wdb w) (wdb w') x"
  using conditional_cases [OF assms] sale_booked by (auto simp: one_order_def)

lemma lock_one_order:
  assumes "place_order_with_lock tok nid (\<lambda>w. w) opts req w = (x, w')"
  shows "one_order nid req (wdb w) (wdb w') x"
  using place_order_with_lock_cases [OF assms] sale_booked by (auto simp: one_order_def)

lemma store_one_order:
  "prededuct_store nid req v = (x, v') \<Longrightarrow> wdb v = d \<Longrightarrow> wdb v' = d' \<Longrightarrow> one_order nid req d d' x"
  by (auto simp: one_order_def dest!: prededuct_store_cases)

lemma pre_deduct_db: "wdb (snd (pre_deduct p q w)) = wdb w" "wdb (snd (rollback_pre_deduct p q w)) = wdb w"
  by (auto simp: pre_deduct_def rollback_pre_deduct_def split: prod.splits sum.splits if_splits dest!: on_redis_cases)

lemma lua_one_order:
  assumes "place_order_with_pre_deduct nid (\<lambda>w. w) req w = (x, w')"
  shows "one_order nid req (wdb w) (wdb w') x"
  using assms pre_deduct_db(1) [of "r_product req" "r_quantity req" w] pre_deduct_db(2) [of "r_product req" "r_quantity req"]
  by (auto simp: place_order_with_pre_deduct_def split: option.splits prod.splits sum.splits intro: store_one_order)

lemma probe_loop_db:
  "probe_loop m i start cfg p q w = Ret (r, w') \<Longrightarrow> wdb w' = wdb w"
proof (induction m arbitrary: i w)
  case (Suc m)
  obtain x w1 where x: "deduct_one_bucket p ((start + i) smod bucket_count cfg) q w = (x, w1)" by (rule prod.exhaust)
  have "wdb w1 = wdb w" using x by (auto simp: deduct_one_bucket_def split: prod.splits sum.splits if_splits dest!: on_redis_cases)
  with Suc x show ?case by (auto simp: Let_def split: if_splits sum.splits)
qed simp

lemma rollback_to_bucket_db: "wdb (snd (rollback_to_bucket p b q w)) = wdb w"
  by (auto simp: rollback_to_bucket_def split: prod.splits sum.splits dest!: on_redis_cases)

lemma bucket_one_order:
  assumes "place_order_with_bucket_deduct nid (\<lambda>w. w) cfg req w = Ret (x, w')"
  shows "one_order nid req (wdb w) (wdb w') x"
  using assms rollback_to_bucket_db [of "r_product req"]
  by (auto simp: place_order_with_bucket_deduct_def deduct_with_probe_def
      split: go.splits prod.splits sum.splits option.splits if_splits dest!: probe_loop_db intro: store_one_order)

definition undisturbed :: "chance \<Rightarrow> bool" where
  "undisturbed ch \<longleftrightarrow> ch_row1 ch = (\<lambda>d. d) \<and> ch_row2 ch = (\<lambda>d. d) \<and> ch_rounds ch = (\<lambda>k d. d) \<and> ch_gate ch = (\<lambda>w. w)"

lemma run_approach_one_order:
  assumes "run_approach ch cfg approach req w = Some (Ret (x, w'))" "undisturbed ch"
  shows "one_order (ch_id ch) req (wdb w) (wdb w') x"
  using assms
  by (auto simp: run_approach_def undisturbed_def split: if_splits prod.splits
      intro: tx_one_order version_cas_one_order conditional_one_order lock_one_order lua_one_order bucket_one_order)

lemma approach_reply_status:
  "fst (approach_reply text x) \<in> {200, 409, 500}"
  "fst (approach_reply text x) = 200 \<longleftrightarrow> (\<exists>ord. x = Inr ord)"
  "fst (approach_reply text (Inl (net_err e))) = 500"
  by (auto simp: approach_reply_def split: sum.splits)

text \<open>
  C11: one call of the debugging order endpoint sells at most once, whatever the strategy. With no
  other client at work on the product, under every schedule of failing calls: the database is as it was or holds one booking more, the
  request's own; 200 answers the new order, or the stored one of the same request; 400 and 409 mean that the database is as it was.
\<close>

theorem debug_order_books_once:
  assumes "http_debug_order text generated ch n k bad approach (Some b) w = Ret ((status, reply), w')" "undisturbed ch"
  shows "(wdb w' = wdb w \<or> (\<exists>i req. ch_id ch = Inr i \<and> deduct_request generated b = Inr req \<and> booked i req (wdb w) (wdb w')))
     \<and> (status = 200 \<longrightarrow> (\<exists>ord req. reply = ApiOrder ord \<and> deduct_request generated b = Inr req \<and> o_request ord = r_request req
          \<and> (wdb w' = wdb w \<and> ord \<in> set (orders (wdb w)) \<or> (\<exists>i. ord = new_order i req \<and> booked i req (wdb w) (wdb w')))))
     \<and> (status \<in> {400, 409} \<longrightarrow> wdb w' = wdb w)
     \<and> status \<in> {200, 400, 409, 500}"
proof -
  consider "w' = w" "status \<in> {400, 500}"
    | req x where "deduct_request generated b = Inr req"
      "run_approach ch (bucket_cfg_from n k) approach req w = Some (Ret (x, w'))" "(status, reply) = approach_reply text x"
    using assms(1) by (auto simp: http_debug_order_def bind_deduct_def split: if_splits sum.splits option.splits go.splits)
  then show ?thesis
  proof cases
    case 2
    note one = run_approach_one_order [OF 2(2) assms(2)]
    show ?thesis
    proof (cases x)
      case (Inr ord)
      then have "status = 200" "reply = ApiOrder ord" using 2 by (simp_all add: approach_reply_def)
      then show ?thesis using one Inr 2(1) by (auto simp: one_order_def)
    next
      case (Inl e)
      then have "status = 409 \<and> (\<forall>u. e \<noteq> net_err u) \<or> status = 500"
        using 2 by (auto simp: approach_reply_def split: if_splits)
      then show ?thesis using one Inl 2(1) by (auto simp: one_order_def)
    qed
  qed auto
qed

text \<open>A conditional update on the demonstration database.\<close>

definition demo_chance :: chance where
  "demo_chance = \<lparr>ch_id = Inr 9, ch_token = Inr ''tok'', ch_row1 = (\<lambda>d. d), ch_row2 = (\<lambda>d. d), ch_rounds = (\<lambda>k d. d), ch_gate = (\<lambda>w. w)\<rparr>"

theorem debug_order_books_once_witness:
  "\<exists>ord w'. http_debug_order (\<lambda>e. '''') (Inr 8) demo_chance '''' '''' ''bad'' ''conditional'' (Some demo_req) demo_world
       = Ret ((200, ApiOrder ord), w') \<and> o_request ord = ''r1''"
proof -
  obtain ord w' where run: "http_debug_order (\<lambda>e. '''') (Inr 8) demo_chance '''' '''' ''bad'' ''conditional'' (Some demo_req) demo_world
      = Ret ((200, ApiOrder ord), w')"
    by (simp add: http_debug_order_def bind_deduct_def deduct_request_def run_approach_def approach_reply_def demo_chance_def
        cas_run_simps demo_simps)
  from debug_order_books_once [OF run] show ?thesis
    by (intro exI [of _ ord] exI [of _ w'] conjI run)
      (auto simp: undisturbed_def demo_chance_def deduct_request_def demo_req_def)
qed


lemma bucket_order_panics:
  assumes "0 < bucket_count cfg"
  shows "place_order_with_bucket_deduct nid env cfg req w = Panic \<longleftrightarrow> 0 < r_quantity req \<and> 2 ^ 32 dvd bucket_count cfg"
  using assms by (simp add: place_order_with_bucket_deduct_gated bucket_panics_def)

text \<open>
  C36: the endpoint panics exactly when a well-formed request with a positive quantity asks for the approach \<open>bucket\<close> with a bucket count
  from the query that is a multiple of 2 to the 32nd: it is positive, so it passes the check of the query, and it is zero as the unsigned
  32-bit number the hash is reduced by.
\<close>

theorem debug_order_panics_iff:
  "http_debug_order text generated ch n k bad approach body w = Panic \<longleftrightarrow>
     approach = ''bucket'' \<and> (\<exists>b req. bind_deduct body = Some b \<and> deduct_request generated b = Inr req \<and> 0 < r_quantity req)
       \<and> 2 ^ 32 dvd bucket_count (bucket_cfg_from n k)"
proof (cases "bind_deduct body")
  case None
  then show ?thesis by (simp add: http_debug_order_def)
next
  case (Some b)
  have run: "run_approach ch cfg approach req w = Some Panic \<longleftrightarrow>
      approach = ''bucket'' \<and> place_order_with_bucket_deduct (ch_id ch) (ch_gate ch) cfg req w = Panic" for cfg req
    by (simp add: run_approach_def)
  have "bucket_count (bucket_cfg_from n k) > 0" using bucket_cfg_sane [of n k] by simp
  note bp = bucket_order_panics [OF this, of "ch_id ch" "ch_gate ch" _ w]
  show ?thesis
  proof (cases "deduct_request generated b")
    case (Inl e)
    with Some show ?thesis by (simp add: http_debug_order_def)
  next
    case (Inr req)
    have "http_debug_order text generated ch n k bad approach body w = Panic \<longleftrightarrow>
        run_approach ch (bucket_cfg_from n k) approach req w = Some Panic"
      using Some Inr by (simp add: http_debug_order_def split: option.splits go.splits prod.splits)
    then show ?thesis using Some Inr by (simp add: run bp)
  qed
qed

lemma debug_order_panic_query:
  "http_debug_order text generated demo_chance ''4294967296'' '''' bad ''bucket'' (Some demo_req) w = Panic"
proof -
  have "parse_int ''4294967296'' = Some 4294967296"
    by (simp add: parse_int_def is_digit_def digits_value_def fits_int64_def)
  moreover have "parse_int '''' = None" by (simp add: parse_int_def)
  ultimately have c: "bucket_count (bucket_cfg_from ''4294967296'' '''') = 2 ^ 32"
    by (simp add: bucket_cfg_from_def)
  show ?thesis
    using bucket_order_panics [of "bucket_cfg_from ''4294967296'' ''''" "ch_id demo_chance" "ch_gate demo_chance" demo_req w] c
    by (simp add: http_debug_order_def bind_deduct_def deduct_request_def run_approach_def demo_req_def)
qed

section \<open>Shutting down in order\<close>

lemma close_all_runs: "snd (close_all closers w) = fold (\<lambda>close w. snd (close w)) closers w"
proof (induction closers arbitrary: w)
  case (Cons close closers)
  obtain e w1 where c: "close w = (e, w1)" by (rule prod.exhaust)
  obtain es w2 where "close_all closers w1 = (es, w2)" by (rule prod.exhaust)
  with c Cons.IH [of w1] show ?case by simp
qed simp

text \<open>
  the process closes its connections last. Whenever the closing step was started, the HTTP server had shut down cleanly, the
  drain had ended without an error, the consumer loop had ended, and the producer was flushed, in this order; the step then
  calls every closer, whatever the others return, and reports their errors together.
\<close>

theorem main_closes_last:
  assumes "shutdown expired clock (main_steps stop_http drain stop_loop ended flush consumer_close producer_close closers) w = (rep, w')"
    and "''close-deps'' \<in> set (sr_completed rep) \<or> sr_failed rep = ''close-deps'' \<and> sr_err rep \<noteq> Some ShutdownTimeout"
  shows "\<exists>w1 w2 w4. stop_http w = (None, w1) \<and> drain w1 = (None, w2) \<and> ended (stop_loop w2) = None
    \<and> flush (stop_loop w2) = (None, w4)
    \<and> w' = fold (\<lambda>close w. snd (close w)) closers (producer_close (consumer_close w4))
    \<and> (sr_err rep = None \<longleftrightarrow> fst (close_all closers (producer_close (consumer_close w4))) = [])"
proof -
  have cd: "snd (close_deps consumer_close producer_close closers v) = fold (\<lambda>close w. snd (close w)) closers (producer_close (consumer_close v))
      \<and> (fst (close_deps consumer_close producer_close closers v) = None \<longleftrightarrow> fst (close_all closers (producer_close (consumer_close v))) = [])" for v
    by (cases "close_all closers (producer_close (consumer_close v))")
      (auto simp: close_deps_def close_all_runs [symmetric] split: list.splits)
  let ?steps = "main_steps stop_http drain stop_loop ended flush consumer_close producer_close closers"
  obtain completed failed err where r: "run_steps expired ?steps [] w = ((completed, failed, err), w')"
    and rep: "sr_completed rep = completed" "sr_failed rep = failed" "sr_err rep = err"
    using assms(1) by (auto simp: shutdown_def split: prod.splits)
  have q: "''close-deps'' \<in> set completed \<or> failed = ''close-deps'' \<and> err \<noteq> Some ShutdownTimeout"
    using assms(2) rep by simp
  note main_steps_def [simp] stop_consumer_step_def [simp]
  obtain w1 where 1: "\<not> expired w" "stop_http w = (None, w1)"
    using r q by (cases "expired w"; cases "stop_http w"; cases "fst (stop_http w)") auto
  obtain w2 where 2: "\<not> expired w1" "drain w1 = (None, w2)"
    using r q 1 by (cases "expired w1"; cases "drain w1"; cases "fst (drain w1)") auto
  have 3: "\<not> expired w2" "ended (stop_loop w2) = None"
    using r q 1 2 by (cases "expired w2"; cases "ended (stop_loop w2)"; auto)+
  obtain w4 where 4: "\<not> expired (stop_loop w2)" "flush (stop_loop w2) = (None, w4)"
    using r q 1 2 3 by (cases "expired (stop_loop w2)"; cases "flush (stop_loop w2)"; cases "fst (flush (stop_loop w2))") auto
  have 5: "\<not> expired w4" using r q 1 2 3 4 by (cases "expired w4") auto
  have "(err, w') = close_deps consumer_close producer_close closers w4"
    using r 1 2 3 4 5 by (cases "close_deps consumer_close producer_close closers w4"; cases "fst (close_deps consumer_close producer_close closers w4)") auto
  then show ?thesis using 1 2 3 4 cd [of w4] rep by (metis fst_conv snd_conv)
qed

theorem main_closes_last_witness:
  "\<exists>rep. shutdown (\<lambda>t. False) (\<lambda>t. t) (main_steps (\<lambda>t. (None, t + 1)) (\<lambda>t. (None, t + 1)) (\<lambda>t. t + 1) (\<lambda>t. None) (\<lambda>t. (None, t + 1))
        (\<lambda>t. t + 1) (\<lambda>t. t + 1) [\<lambda>t. (Some RedisNil, t + 1), \<lambda>t. (None, t + 1)]) (0::int) = (rep, 8)
     \<and> sr_failed rep = ''close-deps'' \<and> sr_err rep \<noteq> None"
proof -
  let ?steps = "main_steps (\<lambda>t. (None, t + 1)) (\<lambda>t. (None, t + 1)) (\<lambda>t. t + 1) (\<lambda>t. None) (\<lambda>t. (None, t + 1))
        (\<lambda>t. t + 1) (\<lambda>t. t + 1) [\<lambda>t. (Some RedisNil, t + 1), \<lambda>t. (None, t + 1)]"
  obtain rep where run: "shutdown (\<lambda>t. False) (\<lambda>t. t) ?steps (0::int) = (rep, 8)"
    and f: "sr_failed rep = ''close-deps'' \<and> sr_err rep = Some (Joined [RedisNil])"
    by (simp add: shutdown_def main_steps_def stop_consumer_step_def close_deps_def)
  from main_closes_last [OF run] f run show ?thesis by auto
qed

section \<open>Placing and looking up over HTTP\<close>

text \<open>The lookup that \<open>cmd/api\<close> injects into the in-process order adapter, and the port it builds.\<close>

definition find_order :: "string \<Rightarrow> world \<Rightarrow> (go_error + order) \<times> world" where
  "find_order rid = on_db (query (select_by_request rid))"

definition post_orders :: "(go_error \<Rightarrow> string) \<Rightarrow> chance \<Rightarrow> string \<Rightarrow> place_req option \<Rightarrow> world \<Rightarrow> http_reply \<times> world" where
  "post_orders text ch bad body = http_place_order text (adapter_place_order (place_order_tx (ch_id ch) (ch_row1 ch) (ch_row2 ch))) bad body"

text \<open>
  The route \<open>GET /orders/requests/:requestID\<close>. As gin documents its parameters, \<open>:requestID\<close> is one non-empty segment of the decoded
  path: the rest of the path after \<open>/orders/requests/\<close>, if it has no slash. A path that matches only without its last slash is
  redirected, any other has no route.
\<close>

definition path_param :: "string \<Rightarrow> string option" where
  "path_param rest = (if rest = '''' \<or> CHR ''/'' \<in> set rest then None else Some rest)"

definition get_order :: "(go_error \<Rightarrow> string) \<Rightarrow> string \<Rightarrow> world \<Rightarrow> http_reply \<times> world" where
  "get_order text rest w = (case path_param rest of
       Some rid \<Rightarrow> http_get_order text (adapter_find_order find_order) rid w
     | None \<Rightarrow> ((if rest \<noteq> '''' \<and> last rest = CHR ''/'' \<and> path_param (butlast rest) \<noteq> None then 301 else 404, RouterBody), w))"

lemma adapter_error_sentinel:
  "errors_is (adapter_order_error (net_err e)) PortsInsufficientStock \<longleftrightarrow> False"
  "errors_is (adapter_order_error (net_err e)) PortsInvalidQuantity \<longleftrightarrow> False"
  "errors_is (adapter_order_error (net_err e)) PortsProductNotFound \<longleftrightarrow> False"
  by (cases e; simp add: adapter_order_error_def)+

lemma post_orders_outcome:
  assumes "post_orders text ch bad body w = ((status, reply), w')" "undisturbed ch"
  shows "status = 400 \<and> w' = w \<or> (\<exists>req x. bind_order body = Some req \<and> one_order (ch_id ch) req (wdb w) (wdb w') x \<and>
     (case x of Inr ord \<Rightarrow> status = 200 \<and> reply = OrderBody ord
      | Inl e \<Rightarrow> status \<in> {400, 409, 500} \<and> (e \<in> range net_err \<longrightarrow> status = 500)))"
proof (cases "bind_order body")
  case None
  then show ?thesis using assms(1) by (simp add: post_orders_def http_place_order_def)
next
  case (Some req)
  obtain x v where x: "place_order_tx (ch_id ch) (\<lambda>d. d) (\<lambda>d. d) req w = (x, v)" by (rule prod.exhaust)
  note one = tx_one_order [OF x]
  show ?thesis
  proof (cases x)
    case (Inl e)
    let ?a = "adapter_order_error e"
    have run: "w' = v \<and> status = (if errors_is ?a PortsInsufficientStock then 409
        else if errors_is ?a PortsInvalidQuantity \<or> errors_is ?a PortsProductNotFound then 400 else 500)"
      using assms Some x Inl
      by (auto simp: post_orders_def http_place_order_def adapter_place_order_def undisturbed_def split: if_splits)
    have "status \<in> {400, 409, 500}" "e \<in> range net_err \<longrightarrow> status = 500"
      using run adapter_error_sentinel by auto
    with one Some Inl run show ?thesis by auto
  next
    case (Inr ord)
    then have "w' = v" "status = 200" "reply = OrderBody ord"
      using assms Some x by (auto simp: post_orders_def http_place_order_def adapter_place_order_def undisturbed_def)
    then show ?thesis using one Some Inr by auto
  qed
qed

text \<open>
  C27: what is placed can be looked up. \<open>POST /orders\<close> runs over unique keys, with no other client between its statements. When it answers 200 with an
  order, a \<open>GET /orders/requests/:requestID\<close> of its request id, as long as the database is as the POST left it and the call is answered,
  answers 200 with that order, differing at most in the creation time the database gave it. This is so if the id has no slash; an id with
  one, which the POST accepts as well, reaches no handler: gin answers 301 or 404. And any 400 or 409 left the database as it was.
\<close>

theorem placed_order_found:
  assumes "post_orders text ch bad body w = ((status, reply), w')" "undisturbed ch" "orders_keyed (wdb w)"
  shows "(status \<in> {400, 409} \<longrightarrow> wdb w' = wdb w)
    \<and> (status = 200 \<longrightarrow> (\<exists>ord req t. reply = OrderBody ord \<and> bind_order body = Some req \<and> o_request ord = r_request req
         \<and> (\<forall>v. wdb v = wdb w' \<longrightarrow> wfaults v = [] \<longrightarrow>
              (if CHR ''/'' \<in> set (r_request req)
               then get_order text (r_request req) v \<in> {((301, RouterBody), v), ((404, RouterBody), v)}
               else get_order text (r_request req) v = ((200, OrderBody (ord\<lparr>o_created := t\<rparr>)), v)))))"
proof -
  have get: "get_order text rid v = ((200, OrderBody stored), v)"
    if "orders_keyed (wdb v)" "stored \<in> set (orders (wdb v))" "o_request stored = rid" "wfaults v = []"
      "rid \<noteq> ''''" "CHR ''/'' \<notin> set rid" for stored rid v
    using select_by_request_keyed [OF that(1,2)] that(3-6)
    by (simp add: get_order_def path_param_def http_get_order_def adapter_find_order_def find_order_def on_db_def next_fault_def query_def)
  from post_orders_outcome [OF assms(1,2)] show ?thesis
  proof
    assume "status = 400 \<and> w' = w"
    then show ?thesis by simp
  next
    assume "\<exists>req x. bind_order body = Some req \<and> one_order (ch_id ch) req (wdb w) (wdb w') x \<and>
     (case x of Inr ord \<Rightarrow> status = 200 \<and> reply = OrderBody ord
      | Inl e \<Rightarrow> status \<in> {400, 409, 500} \<and> (e \<in> range net_err \<longrightarrow> status = 500))"
    then obtain req x where b: "bind_order body = Some req" and one: "one_order (ch_id ch) req (wdb w) (wdb w') x"
      and c: "case x of Inr ord \<Rightarrow> status = 200 \<and> reply = OrderBody ord
        | Inl e \<Rightarrow> status \<in> {400, 409, 500} \<and> (e \<in> range net_err \<longrightarrow> status = 500)" by blast
    show ?thesis
    proof (cases x)
      case (Inl e)
      then show ?thesis using one c by (auto simp: one_order_def)
    next
      case (Inr ord)
      have st: "\<exists>stored t. stored \<in> set (orders (wdb w')) \<and> stored = ord\<lparr>o_created := t\<rparr> \<and> o_request ord = r_request req"
      proof (cases "wdb w' = wdb w \<and> ord \<in> set (orders (wdb w)) \<and> o_request ord = r_request req")
        case True
        then show ?thesis by (intro exI [of _ ord] exI [of _ "o_created ord"]) simp
      next
        case False
        then obtain i where "booked i req (wdb w) (wdb w')" "ord = new_order i req"
          using one Inr by (auto simp: one_order_def)
        then show ?thesis by (auto simp: booked_def)
      qed
      have "orders_keyed (wdb w')" using one Inr assms(3) booked_keyed by (auto simp: one_order_def)
      moreover have "r_request req \<noteq> ''''" using b by (auto simp: bind_order_def split: option.splits if_splits)
      ultimately have all: "\<forall>v. wdb v = wdb w' \<longrightarrow> wfaults v = [] \<longrightarrow> CHR ''/'' \<notin> set (r_request req) \<longrightarrow>
          get_order text (r_request req) v = ((200, OrderBody (ord\<lparr>o_created := t\<rparr>)), v)"
        if "stored \<in> set (orders (wdb w'))" "stored = ord\<lparr>o_created := t\<rparr>" "o_request ord = r_request req" for stored t
        using that get [of _ stored "r_request req"] by simp
      from st obtain t where "\<forall>v. wdb v = wdb w' \<longrightarrow> wfaults v = [] \<longrightarrow> CHR ''/'' \<notin> set (r_request req) \<longrightarrow>
          get_order text (r_request req) v = ((200, OrderBody (ord\<lparr>o_created := t\<rparr>)), v)" "o_request ord = r_request req"
        using all by blast
      moreover have "CHR ''/'' \<in> set (r_request req) \<Longrightarrow> get_order text (r_request req) v \<in> {((301, RouterBody), v), ((404, RouterBody), v)}" for v
        by (simp add: get_order_def path_param_def)
      ultimately show ?thesis using b c Inr by auto
    qed
  qed
qed

theorem placed_order_found_witness:
  "\<exists>ord t w'. post_orders (\<lambda>e. '''') demo_chance ''bad'' (Some demo_req) demo_world = ((200, OrderBody ord), w')
     \<and> get_order (\<lambda>e. '''') ''r1'' w' = ((200, OrderBody (ord\<lparr>o_created := t\<rparr>)), w')"
proof -
  obtain ord w' where run: "post_orders (\<lambda>e. '''') demo_chance ''bad'' (Some demo_req) demo_world = ((200, OrderBody ord), w')"
    and calm: "wfaults w' = []"
    using demo_tx_run
    by (simp add: post_orders_def http_place_order_def bind_order_def adapter_place_order_def demo_chance_def demo_req_def demo_world_def)
  have "undisturbed demo_chance" "orders_keyed (wdb demo_world)"
    by (simp_all add: undisturbed_def demo_chance_def demo_world_def demo_db_def orders_keyed_def)
  from placed_order_found [OF run this] calm run show ?thesis
    by (auto simp: bind_order_def demo_req_def)
qed

end
