(* ===== verification/Keyspace.thy ===== *)
theory Keyspace
  imports Api Closing
begin

text \<open>
  Which values the program keeps under which Redis keys. Every component has a prefix of its own; \<open>key_type\<close>
  reads the prefix, \<open>has_type\<close> says what may be stored there. Every operation that writes Redis, under any schedule of
  faults, keeps all values in their types, so no script meets a value of another component.
\<close>

section \<open>Types of keys and values\<close>

datatype value_type = CounterT | TokenT | ReservationT | LedgerT | ProductT | IndexT | ForeignT

definition starts :: "string \<Rightarrow> string \<Rightarrow> bool" where
  "starts p k \<longleftrightarrow> take (length p) k = p"

definition key_type :: "string \<Rightarrow> value_type" where
  "key_type k = (if starts ''seckill:stock:'' k then CounterT
     else if starts ''seckill:lock:product:'' k then TokenT
     else if starts ''seckill:reservation:'' k then ReservationT
     else if starts ''seckill:ledger:'' k then LedgerT
     else if starts ''seckill:product:'' k then ProductT
     else if k = expire_zset_key then IndexT else ForeignT)"

lemma key_types [simp]:
  "key_type (stock_key p) = CounterT" "key_type (bucket_key p b) = CounterT" "key_type (lock_key p) = TokenT"
  "key_type (reservation_key rid) = ReservationT" "key_type (ledger_key rid) = LedgerT"
  "key_type (product_key i) = ProductT" "key_type expire_zset_key = IndexT"
  by (simp_all add: key_type_def starts_def stock_key_def bucket_key_def lock_key_def reservation_key_def ledger_key_def
      ledger_prefix_def product_key_def expire_zset_key_def)

fun is_num :: "payload option \<Rightarrow> bool" where
  "is_num (Some (Num n)) = True"
| "is_num _ = False"

fun has_type :: "value_type \<Rightarrow> rvalue \<Rightarrow> bool" where
  "has_type CounterT v \<longleftrightarrow> (case v of RString (Num n) \<Rightarrow> True | _ \<Rightarrow> False)"
| "has_type TokenT v \<longleftrightarrow> (case v of RString (Text t) \<Rightarrow> True | _ \<Rightarrow> False)"
| "has_type ReservationT v \<longleftrightarrow> (case v of
     RHash h \<Rightarrow> h ''state'' \<in> {Some (Text ''reserved''), Some (Text ''restored'')} \<and> is_num (h ''product_id'') \<and> is_num (h ''quantity'')
   | _ \<Rightarrow> False)"
| "has_type LedgerT v \<longleftrightarrow> (case v of RString (Doc (JObj fs)) \<Rightarrow> map fst fs = [''request_id'', ''product_id'', ''quantity'', ''created_at'', ''state'']
     | _ \<Rightarrow> False)"
| "has_type ProductT v \<longleftrightarrow> (case v of RString (Doc (JObj fs)) \<Rightarrow> map fst fs = [''id'', ''name'', ''stock'']
     | RString (Text t) \<Rightarrow> t = not_found_placeholder | _ \<Rightarrow> False)"
| "has_type IndexT v \<longleftrightarrow> (case v of RZSet l \<Rightarrow> True | _ \<Rightarrow> False)"
| "has_type ForeignT v \<longleftrightarrow> True"

definition typed :: "redis \<Rightarrow> bool" where
  "typed r \<longleftrightarrow> (\<forall>k v. rlookup r k = Some v \<longrightarrow> has_type (key_type k) v)"

lemma typedD: "typed r \<Longrightarrow> rlookup r k = Some v \<Longrightarrow> has_type (key_type k) v"
  by (simp add: typed_def)

lemma typed_writes [intro]:
  "typed r \<Longrightarrow> has_type (key_type k) v \<Longrightarrow> typed (rset k v r)"
  "typed r \<Longrightarrow> has_type (key_type k) v \<Longrightarrow> typed (rset_px k v ttl r)"
  "typed r \<Longrightarrow> has_type (key_type k) v \<Longrightarrow> typed (rmodify k v r)"
  "typed r \<Longrightarrow> typed (rdel k r)"
  by (auto simp: typed_def)

lemma encode_types [simp]:
  "has_type LedgerT (RString (encode_entry e))" "has_type ProductT (RString (marshal_product p))"
  "has_type ProductT (RString (Text not_found_placeholder))"
  by (simp_all add: encode_entry_def marshal_product_def)

section \<open>Scripts keep the types\<close>

lemma typed_incrby [intro]: "typed r \<Longrightarrow> key_type k = CounterT \<Longrightarrow> typed (snd (incrby k q r))"
  by (auto simp: incrby_def split: option.splits rvalue.splits payload.splits intro!: typed_writes)

lemma typed_decrby [intro]: "typed r \<Longrightarrow> key_type k = CounterT \<Longrightarrow> typed (snd (decrby k q r))"
  unfolding decrby_def by (rule typed_incrby)

lemma typed_counter:
  assumes "typed r" "key_type k = CounterT"
  obtains "rlookup r k = None" | n where "rlookup r k = Some (RString (Num n))"
  using typedD [OF assms(1), of k] assms(2)
  by (cases "rlookup r k") (auto split: rvalue.splits payload.splits)

lemma typed_pre_deduct [intro]: "typed r \<Longrightarrow> key_type k = CounterT \<Longrightarrow> typed (snd (pre_deduct_script k q r))"
  by (auto simp: pre_deduct_script_def split: option.splits rvalue.splits payload.splits)

lemma typed_rollback [intro]: "typed r \<Longrightarrow> key_type k = CounterT \<Longrightarrow> typed (snd (rollback_script k q r))"
  unfolding rollback_script_def by (rule typed_incrby)

lemma typed_setnx [intro]: "typed r \<Longrightarrow> has_type (key_type k) v \<Longrightarrow> typed (snd (redis_setnx k v ttl r))"
  by (auto simp: redis_setnx_def split: option.splits)

lemma typed_set [intro]: "typed r \<Longrightarrow> has_type (key_type k) v \<Longrightarrow> typed (snd (redis_set k v ttl r))"
  by (auto simp: redis_set_def)

lemma typed_set_for [intro]: "typed r \<Longrightarrow> has_type (key_type k) (RString v) \<Longrightarrow> typed (snd (redis_set_for k v d r))"
  by (auto simp: redis_set_for_def)

lemma typed_mset [intro]:
  assumes "typed r" "\<forall>k \<in> fst ` set kvs. key_type k = CounterT"
  shows "typed (snd (redis_mset kvs r))"
  using assms
proof (induction kvs arbitrary: r)
  case (Cons kv kvs)
  obtain k v where kv: "kv = (k, v)" by (rule prod.exhaust)
  have "typed (rset k (RString (Num v)) r)" using Cons.prems kv by (intro typed_writes) simp_all
  with Cons kv show ?case by (simp add: redis_mset_def)
qed (simp add: redis_mset_def)

lemma typed_release [intro]: "typed r \<Longrightarrow> typed (snd (release_script k tok r))"
  by (auto simp: release_script_def split: option.splits rvalue.splits)

lemma typed_renew [intro]: "typed r \<Longrightarrow> typed (snd (renew_script k tok ttl r))"
  by (auto simp: renew_script_def split: option.splits rvalue.splits intro!: typed_writes dest: typedD)

lemma typed_settle [intro]:
  "typed r \<Longrightarrow> key_type lk = LedgerT \<Longrightarrow> key_type sk = CounterT \<Longrightarrow> has_type LedgerT (RString v) \<Longrightarrow> typed (snd (settle_script lk sk q v r))"
  using typed_incrby [of r sk q]
  by (auto simp: settle_script_def simp del: has_type.simps split: option.splits rvalue.splits sum.splits prod.splits intro!: typed_writes)

lemma typed_zadd [intro]: "typed r \<Longrightarrow> key_type k = IndexT \<Longrightarrow> typed (snd (zadd k s m r))"
  by (auto simp: zadd_def split: sum.splits intro!: typed_writes)

lemma typed_zrem [intro]: "typed r \<Longrightarrow> key_type k = IndexT \<Longrightarrow> typed (snd (zrem k m r))"
  by (auto simp: zrem_def Let_def split: sum.splits intro!: typed_writes)

lemma typed_claim [intro]: "typed r \<Longrightarrow> key_type k = IndexT \<Longrightarrow> typed (snd (claim_due_script k now n s r))"
  by (auto simp: claim_due_script_def Let_def split: sum.splits intro!: typed_writes)

lemma typed_hset: 
  assumes "typed r" "key_type k = ReservationT"
    and "has_type ReservationT (RHash (foldl (\<lambda>h (f, v). h(f \<mapsto> v)) (case rlookup r k of Some (RHash h) \<Rightarrow> h | _ \<Rightarrow> Map.empty) fvs))"
  shows "typed (hset k fvs r)"
  unfolding hset_def using assms by (intro typed_writes) (simp_all del: has_type.simps)

lemma typed_reserve_deduct:
  assumes "typed r" "key_type sk = CounterT" "key_type rk = ReservationT"
  shows "typed (snd (reserve_deduct sk rk p q r))"
proof -
  have "typed (snd (decrby sk q r))" using assms(1,2) by (rule typed_decrby)
  then have "typed (hset rk [(''state'', Text ''reserved''), (''product_id'', Num p), (''quantity'', Num q)] (snd (decrby sk q r)))"
    using assms(3) by (intro typed_hset) simp_all
  then show ?thesis using assms(1) \<open>typed (snd (decrby sk q r))\<close>
    by (auto simp: reserve_deduct_def split: option.splits rvalue.splits payload.splits sum.splits prod.splits)
qed

lemma typed_reserve [intro]:
  assumes "typed r" "key_type sk = CounterT" "key_type rk = ReservationT"
  shows "typed (snd (reserve_script sk rk p q r))"
  using assms typed_reserve_deduct [OF assms]
  by (auto simp: reserve_script_def split: sum.splits option.splits rvalue.splits payload.splits)

lemma typed_restore [intro]:
  assumes "typed r" "key_type sk = CounterT" "key_type rk = ReservationT" "rk \<noteq> sk"
  shows "typed (snd (restore_script sk rk p q r))"
proof (cases "rlookup r rk")
  case None
  then show ?thesis using assms(1) by (simp add: restore_script_def hget_def)
next
  case (Some v)
  obtain y r1 where i: "incrby sk q r = (y, r1)" by (rule prod.exhaust)
  have t1: "typed r1" using typed_incrby [OF assms(1,2), of q] i by simp
  have "rlookup r1 rk = Some v" using incrby_other [OF assms(4), of q r] i Some by simp
  moreover have "has_type ReservationT v" using typedD [OF assms(1) Some] assms(3) by simp
  then obtain h where "v = RHash h" "is_num (h ''product_id'')" "is_num (h ''quantity'')"
    by (auto split: rvalue.splits)
  ultimately have "typed (hset rk [(''state'', Text ''restored'')] r1)"
    using t1 assms(3) by (intro typed_hset) simp_all
  then show ?thesis using assms(1) t1 i
    by (auto simp: restore_script_def split: sum.splits option.splits)
qed

section \<open>Operations keep the types\<close>

lemma typed_on_redis:
  "on_redis c w = (x, w') \<Longrightarrow> typed (wredis w) \<Longrightarrow> typed (snd (c (wredis w))) \<Longrightarrow> typed (wredis w')"
  by (auto dest!: on_redis_cases)

text \<open>The operations that write Redis, under any schedule of faults; and whatever leaves Redis alone, and time.\<close>

inductive keyspace_step :: "world \<Rightarrow> world \<Rightarrow> bool" where
  ks_deduct: "pre_deduct p q w = (x, w') \<Longrightarrow> keyspace_step w w'"
| ks_rollback: "rollback_pre_deduct p q w = (u, w') \<Longrightarrow> keyspace_step w w'"
| ks_warm: "warm_stock p w = (u, w') \<Longrightarrow> keyspace_step w w'"
| ks_bucket: "deduct_one_bucket p b q w = (x, w') \<Longrightarrow> keyspace_step w w'"
| ks_bucket_back: "rollback_to_bucket p b q w = (u, w') \<Longrightarrow> keyspace_step w w'"
| ks_spread: "spread_stock p cfg w = Ret (xs, w') \<Longrightarrow> keyspace_step w w'"
| ks_acquire: "acquire tok (lock_key p) ttl w = (l, w') \<Longrightarrow> keyspace_step w w'"
| ks_release: "release lk w = (u, w') \<Longrightarrow> keyspace_step w w'"
| ks_watchdog: "watchdog lk es w = (running, w') \<Longrightarrow> keyspace_step w w'"
| ks_reserve: "reserve rreq w = (rs, w') \<Longrightarrow> keyspace_step w w'"
| ks_restore: "restore rreq w = (u, w') \<Longrightarrow> keyspace_step w w'"
| ks_record: "record_pre_deduct req now w = (u, w') \<Longrightarrow> keyspace_step w w'"
| ks_settle: "settle_entry e refund w = (ok, w') \<Longrightarrow> keyspace_step w w'"
| ks_fill: "load_and_fill app_load opts rnd (\<lambda>s. s) i (w, m) = (pr, (w', m')) \<Longrightarrow> keyspace_step w w'"
| ks_update: "cache_update_stock app_update i n (w, m) = (u, (w', m')) \<Longrightarrow> keyspace_step w w'"
| ks_index: "index_order oid t w = (u, w') \<Longrightarrow> keyspace_step w w'"
| ks_claim: "claim_due now batch ext w = (ms, w') \<Longrightarrow> keyspace_step w w'"
| ks_unindex: "remove_processed_expiry o_no w = (u, w') \<Longrightarrow> keyspace_step w w'"
| ks_time: "0 \<le> d \<Longrightarrow> keyspace_step w (w\<lparr>wredis := (wredis w)\<lparr>rtime := rtime (wredis w) + d\<rparr>\<rparr>)"
| ks_other: "wredis w' = wredis w \<Longrightarrow> keyspace_step w w'"

inductive keyspace_reach :: "world \<Rightarrow> world \<Rightarrow> bool" for w where
  ks_here: "keyspace_reach w w"
| ks_more: "keyspace_reach w v \<Longrightarrow> keyspace_step v v' \<Longrightarrow> keyspace_reach w v'"

lemma typed_time: "0 \<le> d \<Longrightarrow> typed r \<Longrightarrow> typed (r\<lparr>rtime := rtime r + d\<rparr>)"
  using rlookup_later [of d r] unfolding typed_def by (metis insertE option.distinct(1) singletonD)

lemma typed_watchdog: "watchdog lk es w = (running, w') \<Longrightarrow> typed (wredis w) \<Longrightarrow> typed (wredis w')"
proof (induction lk es w arbitrary: running w' rule: watchdog.induct)
  case (3 l d es w)
  then show ?case using typed_time [of "int d" "wredis w"] by simp
next
  case (4 l es w)
  obtain y w1 where y: "on_redis (renew_script (l_key l) (l_token l) (l_ttl l)) w = (y, w1)" by (rule prod.exhaust)
  have "typed (wredis w1)" using typed_on_redis [OF y "4.prems"(2)] "4.prems"(2) by blast
  then show ?case using "4.prems" "4.IH" y by (auto split: sum.splits if_splits)
qed auto

text \<open>An operation whose only access to Redis is one script keeps the types because the script does.\<close>

lemma typed_call:
  "on_redis c w = (y, w1) \<Longrightarrow> typed (wredis w) \<Longrightarrow> (\<And>r. typed r \<Longrightarrow> typed (snd (c r))) \<Longrightarrow> typed (wredis w1)"
  using typed_on_redis by blast

lemma typed_fill:
  assumes "load_and_fill app_load opts rnd (\<lambda>s. s) i s = (pr, s')" "typed (wredis (fst s))"
  shows "typed (wredis (fst s'))"
proof -
  obtain y s1 where y: "app_load i s = (y, s1)" by (rule prod.exhaust)
  have s1: "typed (wredis (fst s1))" using app_repo.load_frame [OF y] assms(2) by simp
  have c: "typed (wredis (snd (on_redis (redis_set_for (product_key i) v d) (fst s1))))"
    if "has_type ProductT (RString v)" for v d
  proof -
    obtain u w1 where u: "on_redis (redis_set_for (product_key i) v d) (fst s1) = (u, w1)" by (rule prod.exhaust)
    have "typed (wredis w1)" by (rule typed_call [OF u s1]) (rule typed_set_for, simp_all add: that del: has_type.simps)
    then show ?thesis using u by simp
  qed
  have at: "fst (snd (at_world f s)) = snd (f (fst s))" for f :: "world \<Rightarrow> (go_error + unit) \<times> world" and s
    by (simp add: at_world_def split: prod.splits)
  show ?thesis
  proof (cases y)
    case (Inl e)
    with assms(1) y have "s' = (if errors_is e CacheProductNotFound
        then snd (at_world (on_redis (redis_set_for (product_key i) (Text not_found_placeholder) (op_miss_ttl opts))) s1) else s1)"
      by (simp add: load_and_fill_def)
    then show ?thesis using s1 c [of "Text not_found_placeholder"] by (simp add: at del: has_type.simps)
  next
    case (Inr p)
    with assms(1) y have "s' = snd (at_world (on_redis (redis_set_for (product_key i) (marshal_product p) (ttl_with_jitter opts rnd))) s1)"
      by (simp add: load_and_fill_def)
    then show ?thesis using c [of "marshal_product p"] by (simp add: at del: has_type.simps)
  qed
qed

lemma bucket_keys_typed: "\<forall>k \<in> fst ` set (zip (bucket_keys p n) xs). key_type k = CounterT"
  by (auto simp: bucket_keys_def dest!: set_zip_leftD)

lemma typed_step: "keyspace_step w w' \<Longrightarrow> typed (wredis w) \<Longrightarrow> typed (wredis w')"
proof (induction rule: keyspace_step.induct)
  case (ks_deduct p q w x w')
  then show ?case
    by (auto simp: pre_deduct_def split: prod.splits sum.splits if_splits elim!: typed_call)
next
  case (ks_rollback p q w u w')
  then show ?case
    by (auto simp: rollback_pre_deduct_def split: prod.splits sum.splits elim!: typed_call)
next
  case (ks_warm p w u w')
  then show ?case
    by (auto simp: warm_stock_def split: prod.splits sum.splits dest!: on_db_query_any elim!: typed_call)
next
  case (ks_bucket p b q w x w')
  then show ?case
    by (auto simp: deduct_one_bucket_def bucket_scripts split: prod.splits sum.splits if_splits elim!: typed_call)
next
  case (ks_bucket_back p b q w u w')
  then show ?case
    by (auto simp: rollback_to_bucket_def bucket_scripts split: prod.splits sum.splits if_splits elim!: typed_call)
next
  case (ks_spread p cfg w xs w')
  then show ?case
    by (auto simp: spread_stock_def Let_def split: prod.splits sum.splits if_splits dest!: on_db_query_any
        elim!: typed_call intro: typed_mset [OF _ bucket_keys_typed])
next
  case (ks_acquire tok p ttl w l w')
  then show ?case
    by (auto simp: acquire_def split: prod.splits sum.splits if_splits elim!: typed_call)
next
  case (ks_release lk w u w')
  then show ?case
    by (auto simp: release_def split: prod.splits sum.splits if_splits elim!: typed_call)
next
  case (ks_watchdog lk es w running w')
  then show ?case by (rule typed_watchdog)
next
  case (ks_reserve rreq w rs w')
  then show ?case
    by (auto simp: reserve_def split: prod.splits sum.splits if_splits list.splits elim!: typed_call)
next
  case (ks_restore rreq w u w')
  then show ?case
    by (auto simp: restore_def split: prod.splits sum.splits if_splits elim!: typed_call)
next
  case (ks_record req now w u w')
  then show ?case
    by (auto simp: record_pre_deduct_def simp del: has_type.simps split: prod.splits sum.splits elim!: typed_call)
next
  case (ks_settle e refund w ok w')
  then show ?case
    by (auto simp: settle_entry_def simp del: has_type.simps split: prod.splits sum.splits elim!: typed_call)
next
  case (ks_fill opts rnd i w m pr w' m')
  then show ?case using typed_fill by fastforce
next
  case (ks_update i n w m u w' m')
  obtain y s1 where y: "app_update i n (w, m) = (y, s1)" by (rule prod.exhaust)
  have "typed (wredis (fst s1))" using app_repo.upd_frame [OF y] ks_update by simp
  then show ?case
    using ks_update y
    by (auto simp: cache_update_stock_def at_world_def redis_del_def split: prod.splits sum.splits elim!: typed_call)
next
  case (ks_index oid t w u w')
  then show ?case
    by (auto simp: index_order_def split: prod.splits sum.splits elim!: typed_call)
next
  case (ks_claim now batch ext w ms w')
  then show ?case
    by (auto simp: claim_due_def elim!: typed_call)
next
  case (ks_unindex o_no w u w')
  then show ?case
    by (auto simp: remove_processed_expiry_def split: prod.splits sum.splits elim!: typed_call)
next
  case (ks_time d w)
  then show ?case by (simp add: typed_time)
qed simp

lemma typed_reach: "keyspace_reach w w' \<Longrightarrow> typed (wredis w) \<Longrightarrow> typed (wredis w')"
  by (induction rule: keyspace_reach.induct) (auto dest: typed_step)

section \<open>What the types rule out\<close>

lemma reserve_no_panic:
  assumes "typed (wredis w)"
  shows "fst (reserve req w) \<noteq> Panic"
proof -
  let ?sk = "stock_key (rq_product req)"
  let ?c = "reserve_script ?sk (reservation_key (rq_request req)) (rq_product req) (rq_quantity req)"
  have two: "\<exists>a b rest. fst (?c (wredis w)) = Inr (a # b # rest) \<or> (\<exists>e. fst (?c (wredis w)) = Inl e)"
    using typed_counter [OF assms key_types(1) [of "rq_product req"]]
    by cases (auto simp: reserve_script_def reserve_deduct_def split: sum.splits option.splits prod.splits)
  obtain y w1 where y: "on_redis ?c w = (y, w1)" by (rule prod.exhaust)
  then have "\<exists>a b rest. y = Inr (a # b # rest) \<or> (\<exists>e. y = Inl e)" using two on_redis_cases [OF y] by auto
  then show ?thesis using y by (auto simp: reserve_def split: if_splits)
qed

lemma index_no_script_error:
  assumes "typed (wredis w)"
  shows "fst (claim_due now batch ext w) \<noteq> Inl ScriptError"
proof -
  let ?c = "claim_due_script expire_zset_key (unix_milli now) batch (unix_milli (now + ext))"
  obtain y w1 where y: "on_redis ?c w = (y, w1)" by (rule prod.exhaust)
  have "\<exists>ms. fst (?c (wredis w)) = Inr ms"
    using typedD [OF assms, of expire_zset_key]
    by (auto simp: claim_due_script_def zset_at_def Let_def split: option.splits rvalue.splits)
  then have "y \<noteq> Inl ScriptError" using on_redis_cases [OF y] by auto
  then show ?thesis using y by (simp add: claim_due_def)
qed

lemma release_no_script_error:
  assumes "typed (wredis w)" "l_key lk = lock_key p"
  shows "fst (release lk w) \<noteq> Inl ScriptError"
proof -
  let ?c = "release_script (l_key lk) (l_token lk)"
  obtain y w1 where y: "on_redis ?c w = (y, w1)" by (rule prod.exhaust)
  have "\<exists>n. fst (?c (wredis w)) = Inr n"
    using typedD [OF assms(1), of "lock_key p"] assms(2)
    by (auto simp: release_script_def split: option.splits rvalue.splits)
  then have "y \<noteq> Inl ScriptError" using on_redis_cases [OF y] by auto
  then show ?thesis using y by (auto simp: release_def split: sum.splits if_splits)
qed

lemma deduct_error_overflows:
  assumes "typed (wredis w)" "fst (pre_deduct p q w) = Inl ScriptError"
  shows "\<exists>n. counter (wredis w) (stock_key p) = Some n \<and> q \<le> n \<and> \<not> fits_int64 (n - q)"
proof -
  obtain y w1 where y: "on_redis (pre_deduct_script (stock_key p) q) w = (y, w1)" by (rule prod.exhaust)
  with assms(2) have "y = Inl ScriptError" by (auto simp: pre_deduct_def split: sum.splits if_splits)
  with on_redis_cases [OF y] have s: "fst (pre_deduct_script (stock_key p) q (wredis w)) = Inl ScriptError" by auto
  from typed_counter [OF assms(1) key_types(1) [of p]] show ?thesis
    by cases (use s in \<open>auto simp: pre_deduct_script_def decrby_def incrby_def counter_def split: if_splits\<close>)
qed

section \<open>Properties\<close>

text \<open>
  C10: the keyspace is typed. From a typed keyspace (an empty one, for instance), through any sequence of the operations that write
  Redis, under any schedule of lost calls, every key holds a value of its component: hence reserving never panics on a short
  reply, claiming due orders and releasing a product's lock never meet a wrong type, and a pre-deduction fails in its script only when the counter would leave 64 bits.
\<close>

theorem keyspace_type_sound:
  assumes "keyspace_reach w0 w" "typed (wredis w0)"
  shows "typed (wredis w)
     \<and> fst (reserve req w) \<noteq> Panic
     \<and> fst (claim_due now batch ext w) \<noteq> Inl ScriptError
     \<and> fst (release \<lparr>l_key = lock_key p, l_token = tok, l_ttl = ttl\<rparr> w) \<noteq> Inl ScriptError
     \<and> (fst (pre_deduct p q w) = Inl ScriptError \<longrightarrow>
          (\<exists>n. counter (wredis w) (stock_key p) = Some n \<and> q \<le> n \<and> \<not> fits_int64 (n - q)))"
proof -
  have t: "typed (wredis w)" by (rule typed_reach [OF assms])
  note parts = reserve_no_panic [OF t, of req] index_no_script_error [OF t, of now batch ext]
    release_no_script_error [OF t, of "\<lparr>l_key = lock_key p, l_token = tok, l_ttl = ttl\<rparr>" p]
    deduct_error_overflows [OF t, of p q]
  show ?thesis by (intro conjI impI t parts) simp_all
qed

theorem keyspace_type_sound_witness:
  "\<exists>w. keyspace_reach demo_world w \<and> typed (wredis w) \<and> counter (wredis w) (stock_key 1) = Some 1 \<and> holds demo_reservation (wredis w)"
proof -
  obtain u w1 where warm: "warm_stock 1 demo_world = (u, w1)" and w1: "wredis w1 = \<lparr>rkeys = [stock_key 1 \<mapsto> \<lparr>rval = RString (Num 3), expires = None\<rparr>], rtime = 0\<rparr>" "wfaults w1 = []"
    by (simp add: warm_stock_def on_db_def on_redis_def next_fault_def query_def select_stock_def redis_set_def rset_def demo_simps)
  have lk: "rlookup (wredis w1) k = (if k = stock_key 1 then Some (RString (Num 3)) else None)" for k
    by (simp add: rlookup_def w1)
  obtain res w2 where run: "reserve demo_reservation w1 = (Ret (Inr res), w2)"
    by (simp add: reserve_run_simps demo_reservation_def lk w1(2))
  have c: "counter (wredis w2) (stock_key 1) = Some 1"
    using run by (auto simp: reserve_run_simps demo_reservation_def lk w1(2) counter_def split: if_splits)
  have reach: "keyspace_reach demo_world w2"
    by (intro ks_more [OF ks_more [OF ks_here ks_warm [OF warm]] ks_reserve [OF run]])
  have "typed (wredis demo_world)" by (simp add: typed_def rlookup_def demo_world_def)
  from keyspace_type_sound [OF reach this] reach c local_inventory.rsv_holds [OF run] show ?thesis
    by (auto simp: demo_reservation_def fits_int32_def)
qed

end
