(* ===== verification/Wiring.thy ===== *)
theory Wiring
  imports Api "HOL-Library.Multiset" "HOL-Library.List_Lexorder" "HOL-Library.Char_ord"
begin

text \<open>
  What connects the processes: MySQL pools of the four order schemas (\<open>internal/shard/pools.go\<close>,
  \<open>internal/dbconn\<close>) with their access probe, the HTTP server's limits (\<open>internal/server\<close>), polling and lag of the topic
  (\<open>internal/mq\<close>, \<open>cmd/kafka-bootstrap\<close>), and the etcd resolver (\<open>internal/discovery/etcd\<close>). The libraries' own calls
  are parameters over a state \<open>'s\<close>; so are the two functions of the resolver that are stubs in the source, beside the panics they are.
\<close>

section \<open>Pools\<close>

record db_config =
  dc_host :: string
  dc_port :: int
  dc_user :: string
  dc_password :: string
  dc_name :: string

definition dsn :: "db_config \<Rightarrow> string" where
  "dsn c = dc_user c @ '':'' @ dc_password c @ ''@tcp('' @ dc_host c @ '':'' @ show_int (dc_port c) @ '')/'' @ dc_name c
     @ ''?parseTime=true&loc=UTC''"

definition db_open :: "(string \<Rightarrow> 's \<Rightarrow> (go_error + 'db) \<times> 's) \<Rightarrow> db_config \<Rightarrow> 's \<Rightarrow> (go_error + 'db) \<times> 's" where
  "db_open connect c s = (case connect (dsn c) s of (Inl e, s') \<Rightarrow> (Inl (Wrapped e), s') | (Inr db, s') \<Rightarrow> (Inr db, s'))"

definition shard_count :: nat where
  "shard_count = 4"

definition schema_name :: "nat \<Rightarrow> string" where
  "schema_name i = ''seckill_order_'' @ show_int (int i)"

definition close_pools :: "('db \<Rightarrow> 's \<Rightarrow> 's) \<Rightarrow> 'db option list \<Rightarrow> 's \<Rightarrow> 's" where
  "close_pools close pools s = fold (\<lambda>p s. case p of None \<Rightarrow> s | Some db \<Rightarrow> close db s) pools s"

text \<open>The loop over the shards \<open>is\<close> that are left; a failure closes what is open and answers the pools so far.\<close>

fun open_loop :: "(string \<Rightarrow> 's \<Rightarrow> (go_error + 'db) \<times> 's) \<Rightarrow> ('db \<Rightarrow> 's \<Rightarrow> 's) \<Rightarrow> db_config \<Rightarrow> nat list \<Rightarrow> 'db option list \<Rightarrow> 's
    \<Rightarrow> ('db option list \<times> go_error option) \<times> 's" where
  "open_loop connect close base [] pools s = ((pools, None), s)"
| "open_loop connect close base (i # is) pools s =
     (case db_open connect (base\<lparr>dc_name := schema_name i\<rparr>) s of
        (Inl e, s') \<Rightarrow> ((pools, Some (Wrapped e)), close_pools close pools s')
      | (Inr db, s') \<Rightarrow> open_loop connect close base is (pools[i := Some db]) s')"

definition open_pools :: "(string \<Rightarrow> 's \<Rightarrow> (go_error + 'db) \<times> 's) \<Rightarrow> ('db \<Rightarrow> 's \<Rightarrow> 's) \<Rightarrow> db_config \<Rightarrow> 's
    \<Rightarrow> ('db option list \<times> go_error option) \<times> 's" where
  "open_pools connect close base s = open_loop connect close base [0..<shard_count] (replicate shard_count None) s"

text \<open>
  A connection that is not open yet is what \<open>connect\<close> answers; the state is the set of the open ones.
\<close>

definition tracks :: "(string \<Rightarrow> 'db set \<Rightarrow> (go_error + 'db) \<times> 'db set) \<Rightarrow> ('db \<Rightarrow> 'db set \<Rightarrow> 'db set) \<Rightarrow> bool" where
  "tracks connect close \<longleftrightarrow>
     (\<forall>d s. case connect d s of (Inl e, s') \<Rightarrow> s' = s | (Inr db, s') \<Rightarrow> db \<notin> s \<and> s' = insert db s)
     \<and> (\<forall>db s. close db s = s - {db})"

definition opened :: "'db option list \<Rightarrow> 'db set" where
  "opened pools = {db. Some db \<in> set pools}"

lemma close_pools_set:
  assumes "\<And>db s. close db s = s - {db}"
  shows "close_pools close pools s = s - opened pools"
  unfolding close_pools_def
  by (induction pools arbitrary: s) (auto simp: assms opened_def split: option.splits)

lemma opened_none [simp]: "opened (replicate n None) = {}"
  by (simp add: opened_def)

lemma opened_update:
  "i < length pools \<Longrightarrow> pools ! i = None \<Longrightarrow> opened (pools[i := Some db]) = insert db (opened pools)"
  unfolding opened_def by (auto simp: in_set_conv_nth nth_list_update split: if_splits) (metis option.distinct(1))

lemma open_loop_tracks:
  assumes "tracks connect close" "distinct is" "\<forall>i \<in> set is. i < length pools \<and> pools ! i = None" "opened pools \<inter> s0 = {}" "s = s0 \<union> opened pools"
    and "open_loop connect close base is pools s = ((ps, err), s')"
  shows "length ps = length pools \<and> (case err of Some e \<Rightarrow> s' = s0
     | None \<Rightarrow> opened ps \<inter> s0 = {} \<and> s' = s0 \<union> opened ps \<and> (\<forall>i \<in> set is. ps ! i \<noteq> None) \<and> (\<forall>i. i \<notin> set is \<longrightarrow> ps ! i = pools ! i))"
  using assms(2-)
proof (induction "is" arbitrary: pools s)
  case (Cons i "is")
  have laws: "\<And>db s. close db s = s - {db}" using assms(1) by (simp add: tracks_def)
  obtain y s1 where y: "db_open connect (base\<lparr>dc_name := schema_name i\<rparr>) s = (y, s1)" by (rule prod.exhaust)
  obtain z s2 where z: "connect (dsn (base\<lparr>dc_name := schema_name i\<rparr>)) s = (z, s2)" by (rule prod.exhaust)
  have zs: "case z of Inl e \<Rightarrow> s2 = s | Inr db \<Rightarrow> db \<notin> s \<and> s2 = insert db s"
    using assms(1) z unfolding tracks_def by (metis (mono_tags, lifting) case_prod_conv)
  show ?case
  proof (cases z)
    case (Inl e)
    then have "y = Inl (Wrapped e)" "s1 = s" using y z zs by (auto simp: db_open_def)
    then have "ps = pools" "err = Some (Wrapped (Wrapped e))" "s' = s - opened pools"
      using Cons.prems(5) y by (auto simp: close_pools_set [OF laws])
    then show ?thesis using Cons.prems(3,4) by auto
  next
    case (Inr db)
    then have ys: "y = Inr db" "s1 = insert db s" "db \<notin> s" using y z zs by (auto simp: db_open_def)
    let ?pools = "pools[i := Some db]"
    have op: "opened ?pools = insert db (opened pools)" using Cons.prems(2) by (intro opened_update) simp_all
    have "length ps = length ?pools \<and> (case err of Some e \<Rightarrow> s' = s0
       | None \<Rightarrow> opened ps \<inter> s0 = {} \<and> s' = s0 \<union> opened ps \<and> (\<forall>j \<in> set is. ps ! j \<noteq> None) \<and> (\<forall>j. j \<notin> set is \<longrightarrow> ps ! j = ?pools ! j))"
    proof (rule Cons.IH)
      show "distinct is" using Cons.prems(1) by simp
      show "\<forall>j \<in> set is. j < length ?pools \<and> ?pools ! j = None"
        using Cons.prems(1,2) by (auto simp: nth_list_update)
      show "opened ?pools \<inter> s0 = {}" using op Cons.prems(3,4) ys(3) by auto
      show "s1 = s0 \<union> opened ?pools" using op Cons.prems(4) ys(2) by auto
      show "open_loop connect close base is ?pools s1 = ((ps, err), s')" using Cons.prems(5) y ys by simp
    qed
    then show ?thesis using Cons.prems(1,2) by (auto simp: nth_list_update split: option.splits)
  qed
qed (auto split: option.splits)

text \<open>
  opening the four pools is all or nothing. Either all four are open, each through a connection that was not
  open before, and nothing else changed; or an error is answered and every connection that was opened on the way is closed again.
\<close>

theorem open_pools_all_or_nothing:
  assumes "tracks connect close" "open_pools connect close base s = ((ps, err), s')"
  shows "length ps = 4 \<and> (case err of Some e \<Rightarrow> s' = s
     | None \<Rightarrow> None \<notin> set ps \<and> opened ps \<inter> s = {} \<and> s' = s \<union> opened ps)"
proof -
  have r: "length ps = 4 \<and> (case err of Some e \<Rightarrow> s' = s
     | None \<Rightarrow> opened ps \<inter> s = {} \<and> s' = s \<union> opened ps \<and> (\<forall>i \<in> set [0..<4]. ps ! i \<noteq> None) \<and> (\<forall>i. i \<notin> set [0..<4] \<longrightarrow> ps ! i = replicate 4 None ! i))"
    using open_loop_tracks [OF assms(1), of "[0..<4]" "replicate 4 None" s s base ps err s'] assms(2)
    by (simp add: open_pools_def shard_count_def del: upt_conv_Cons replicate.simps)
  moreover have "None \<notin> set ps" if "\<forall>i \<in> set [0..<4]. ps ! i \<noteq> None" "length ps = 4"
    using that unfolding in_set_conv_nth by (metis atLeastLessThan_iff less_eq_nat.simps(1) set_upt)
  ultimately show ?thesis by (auto split: option.splits)
qed
text \<open>The third schema refuses: the two connections that were open are closed, a foreign one stays.\<close>

definition demo_config :: db_config where
  "demo_config = \<lparr>dc_host = ''h'', dc_port = 3306, dc_user = ''u'', dc_password = ''p'', dc_name = ''seckill''\<rparr>"

definition demo_connect :: "string \<Rightarrow> string set \<Rightarrow> (go_error + string) \<times> string set" where
  "demo_connect d s = (if d \<in> s \<or> d = dsn (demo_config\<lparr>dc_name := schema_name 2\<rparr>) then (Inl ContextDeadlineExceeded, s) else (Inr d, insert d s))"

theorem open_pools_all_or_nothing_witness:
  "\<exists>ps e. open_pools demo_connect (\<lambda>d s. s - {d}) demo_config {''other''} = ((ps, Some e), {''other''})"
proof -
  have t: "tracks demo_connect (\<lambda>d s. s - {d})" by (simp add: tracks_def demo_connect_def)
  obtain ps err s' where run: "open_pools demo_connect (\<lambda>d s. s - {d}) demo_config {''other''} = ((ps, err), s')"
    by (metis prod.exhaust)
  have "schema_name i = schema_name j \<longleftrightarrow> i = j" for i j by (simp add: schema_name_def)
  then have n: "dsn (demo_config\<lparr>dc_name := schema_name i\<rparr>) = dsn (demo_config\<lparr>dc_name := schema_name j\<rparr>) \<longleftrightarrow> i = j" for i j
    by (simp add: dsn_def)
  have "dsn c \<noteq> ''other''" for c
  proof
    assume "dsn c = ''other''"
    then have "CHR '':'' \<in> set ''other''" by (metis dsn_def append_Cons in_set_conv_decomp)
    then show False by simp
  qed
  then have "err \<noteq> None"
    using run n by (auto simp: open_pools_def shard_count_def numeral_eq_Suc db_open_def demo_connect_def)
  then show ?thesis using open_pools_all_or_nothing [OF t run] run by auto
qed

text \<open>The probe counts the pools a routed call touches; \<open>None\<close> is the nil probe, an index out of range panics.\<close>

definition new_access_probe :: "nat list" where
  "new_access_probe = replicate shard_count 0"

definition probe_record :: "int \<Rightarrow> nat list option \<Rightarrow> nat list option go" where
  "probe_record shard p = (case p of
       None \<Rightarrow> Ret None
     | Some counts \<Rightarrow> (if shard < 0 \<or> int (length counts) \<le> shard then Panic
         else Ret (Some (counts[nat shard := counts ! nat shard + 1]))))"

definition probe_snapshot :: "nat list \<Rightarrow> nat list" where
  "probe_snapshot counts = counts"

lemma probe_record_counts:
  assumes "probe_record shard (Some counts) = Ret (Some counts')"
  shows "sum_list (probe_snapshot counts') = sum_list (probe_snapshot counts) + 1 \<and> length counts' = length counts"
  using assms by (auto simp: probe_record_def probe_snapshot_def sum_list_update split: if_splits)

section \<open>The HTTP server\<close>

text \<open>Durations in nanoseconds; \<open>0\<close> is Go's "no limit".\<close>

record server_config =
  sc_read_header :: int
  sc_read :: int
  sc_write :: int
  sc_idle :: int
  sc_max_open :: int
  sc_max_idle :: int
  sc_lifetime :: int

definition default_server_config :: server_config where
  "default_server_config = \<lparr>sc_read_header = 5 * 10 ^ 9, sc_read = 10 * 10 ^ 9, sc_write = 10 * 10 ^ 9, sc_idle = 90 * 10 ^ 9,
     sc_max_open = 20, sc_max_idle = 20, sc_lifetime = 5 * 60 * 10 ^ 9\<rparr>"

record pool_limits =
  pl_max_open :: int
  pl_max_idle :: int
  pl_lifetime :: int

record http_server =
  hs_addr :: string
  hs_read_header :: int
  hs_read :: int
  hs_write :: int
  hs_idle :: int

text \<open>\<open>SetMaxIdleConns\<close> keeps the idle limit below the open limit, as \<open>database/sql\<close> documents.\<close>

definition new_production_server :: "string \<Rightarrow> server_config \<Rightarrow> http_server \<times> pool_limits" where
  "new_production_server addr cfg =
     (\<lparr>hs_addr = addr, hs_read_header = sc_read_header cfg, hs_read = sc_read cfg, hs_write = sc_write cfg, hs_idle = sc_idle cfg\<rparr>,
      \<lparr>pl_max_open = sc_max_open cfg,
        pl_max_idle = (if 0 < sc_max_open cfg \<and> sc_max_open cfg < sc_max_idle cfg then sc_max_open cfg else sc_max_idle cfg),
        pl_lifetime = sc_lifetime cfg\<rparr>)"

lemma default_server_limited:
  "case new_production_server addr default_server_config of (srv, pool) \<Rightarrow>
     0 < hs_read_header srv \<and> 0 < hs_read srv \<and> 0 < hs_write srv \<and> 0 < hs_idle srv
     \<and> 0 < pl_max_open pool \<and> 0 < pl_max_idle pool \<and> 0 < pl_lifetime pool"
  by (simp add: new_production_server_def default_server_config_def)

section \<open>The topic: polling, lag, partitions\<close>

text \<open>A fetch is its errors and its records.\<close>

definition poll_one :: "go_error list \<times> 'rec list \<Rightarrow> go_error + 'rec" where
  "poll_one fetches = (case fetches of
     (e # _, _) \<Rightarrow> Inl e | ([], []) \<Rightarrow> Inl NoRecord | ([], r # _) \<Rightarrow> Inr r)"

definition poll_batch :: "go_error list \<times> 'rec list \<Rightarrow> go_error + 'rec list" where
  "poll_batch fetches = (case fetches of (e # _, _) \<Rightarrow> Inl e | ([], rs) \<Rightarrow> Inr rs)"

lemma poll_batch_keeps_tail: "poll_one (errs, rs) = Inr r \<Longrightarrow> \<exists>rest. poll_batch (errs, rs) = Inr (r # rest)"
  by (auto simp: poll_one_def poll_batch_def split: list.splits)

text \<open>The admin client's answer: per group, an error of its own and the lag of each partition.\<close>

definition group_lag_total :: "go_error + (string \<rightharpoonup> go_error option \<times> int list) \<Rightarrow> string \<Rightarrow> go_error + int" where
  "group_lag_total answer grp = (case answer of
       Inl e \<Rightarrow> Inl e
     | Inr lags \<Rightarrow> (case lags grp of
          None \<Rightarrow> Inl (Opaque (''group '' @ grp @ '' not found in lag response''))
        | Some (Some e, _) \<Rightarrow> Inl e
        | Some (None, parts) \<Rightarrow> Inr (sum_list parts)))"

definition lag_gauge :: "go_error + (string \<rightharpoonup> go_error option \<times> int list) \<Rightarrow> string \<Rightarrow> int" where
  "lag_gauge answer grp = (case group_lag_total answer grp of Inl _ \<Rightarrow> -1 | Inr lag \<Rightarrow> lag)"

lemma lag_gauge_tells_failure:
  assumes "\<And>lags e parts. answer = Inr lags \<Longrightarrow> lags grp = Some (e, parts) \<Longrightarrow> \<forall>l \<in> set parts. 0 \<le> l"
  shows "lag_gauge answer grp = -1 \<longleftrightarrow> (\<exists>e. group_lag_total answer grp = Inl e)"
proof -
  have "0 \<le> lag" if "group_lag_total answer grp = Inr lag" for lag
    using that assms by (auto simp: group_lag_total_def intro!: sum_list_nonneg split: sum.splits option.splits prod.splits)
  then show ?thesis by (fastforce simp: lag_gauge_def split: sum.splits)
qed

text \<open>
  Waiting for partitions: each round is the answer of \<open>ListTopics\<close> for the topic (an error, or what the metadata say) and whether the
  context's case of the \<open>select\<close> is taken after it. \<open>None\<close>: the rounds ran out while it waits.
\<close>

datatype topic_detail = NotListed | TopicError go_error | Partitions nat

fun last_seen :: "(go_error \<Rightarrow> string) \<Rightarrow> nat \<Rightarrow> topic_detail \<Rightarrow> string" where
  "last_seen text want NotListed = ''not in metadata yet''"
| "last_seen text want (TopicError e) = text e"
| "last_seen text want (Partitions n) = ''partitions='' @ show_int (int n) @ '' want='' @ show_int (int want)"

fun wait_for_partitions :: "(go_error \<Rightarrow> string) \<Rightarrow> string \<Rightarrow> nat \<Rightarrow> ((go_error + topic_detail) \<times> bool) list \<Rightarrow> (go_error + nat) option" where
  "wait_for_partitions text topic want [] = None"
| "wait_for_partitions text topic want ((answer, expired) # rounds) = (case answer of
     Inl e \<Rightarrow> Some (Inl e)
   | Inr detail \<Rightarrow>
      (if detail = Partitions want then Some (Inr want)
       else if expired then Some (Inl (Opaque (''topic '' @ topic @ '' not ready: '' @ last_seen text want detail)))
       else wait_for_partitions text topic want rounds))"

lemma wait_for_partitions_right:
  "wait_for_partitions text topic want rounds = Some (Inr m) \<Longrightarrow> m = want \<and> (\<exists>expired. (Inr (Partitions want), expired) \<in> set rounds)"
  by (induction rounds) (auto split: sum.splits if_splits prod.splits)

section \<open>Discovery\<close>

definition service_prefix :: "string \<Rightarrow> string" where
  "service_prefix service = ''/seckill/services/'' @ service @ ''/''"

text \<open>Closing a registration: \<open>drained\<close> says whether the keepalive reader ended before the context did.\<close>

record registration =
  rg_lease :: int
  rg_key :: string

definition registration_close :: "registration option \<Rightarrow> ('s \<Rightarrow> 's) \<Rightarrow> ('s \<Rightarrow> go_error option) \<Rightarrow> (int \<Rightarrow> 's \<Rightarrow> go_error option \<times> 's)
    \<Rightarrow> 's \<Rightarrow> go_error option \<times> 's" where
  "registration_close reg cancel ctx_ended revoke s = (case reg of
       None \<Rightarrow> (None, s)
     | Some rg \<Rightarrow>
        (let s1 = cancel s in case ctx_ended s1 of
           Some e \<Rightarrow> (Some e, s1)
         | None \<Rightarrow> (case revoke (rg_lease rg) s1 of (Some e, s2) \<Rightarrow> (Some (Wrapped e), s2) | (None, s2) \<Rightarrow> (None, s2))))"

definition revoke_best_effort :: "(int \<Rightarrow> 's \<Rightarrow> go_error option \<times> 's) \<Rightarrow> int \<Rightarrow> 's \<Rightarrow> 's" where
  "revoke_best_effort revoke lease s = snd (revoke lease s)"

text \<open>A closed registration has stopped its keepalive, whatever else failed; without an error its lease was revoked, unless there was none.\<close>

lemma registration_close_outcome:
  assumes "registration_close reg cancel ctx_ended revoke s = (err, s')"
  shows "(reg = None \<and> err = None \<and> s' = s)
    \<or> (\<exists>rg. reg = Some rg \<and>
        (s' = cancel s \<and> err = ctx_ended (cancel s) \<and> err \<noteq> None
         \<or> ctx_ended (cancel s) = None \<and> s' = snd (revoke (rg_lease rg) (cancel s)) \<and> err = map_option Wrapped (fst (revoke (rg_lease rg) (cancel s)))))"
  using assms by (auto simp: registration_close_def Let_def split: option.splits prod.splits)

text \<open>The stubs of the resolver at this commit.\<close>

definition etcd_snapshot :: "string \<Rightarrow> (go_error + (string \<times> string) list \<times> int) go" where
  "etcd_snapshot service = Panic"

definition apply_watch_response :: "'ev \<Rightarrow> (string \<times> string) list \<Rightarrow> (string \<times> string) list go" where
  "apply_watch_response ev addresses = Panic"

text \<open>
  The resolver's table of addresses by key, as an association list. The client connection keeps what it was
  told: the published lists, the observed lists, the reported errors, and whether an update fails.
\<close>

record resolver =
  rv_table :: "(string \<times> string) list"
  rv_published :: "string list list"
  rv_observed :: "string list list"
  rv_errors :: "go_error list"
  rv_cancelled :: bool

definition publish_locked :: "(string list \<Rightarrow> go_error option) \<Rightarrow> bool \<Rightarrow> resolver \<Rightarrow> go_error option \<times> resolver" where
  "publish_locked update observed r =
     (let values = sort (map snd (rv_table r));
          r1 = (if observed then r\<lparr>rv_observed := rv_observed r @ [values]\<rparr> else r);
          r2 = r1\<lparr>rv_published := rv_published r1 @ [values]\<rparr>
      in (map_option Wrapped (update values), r2))"

text \<open>
  Building answers the resolver, and the revision from which its watcher starts; or the error, with the resolver that was cancelled if there was
  one. \<open>snapshot\<close> is what the snapshot call answers.
\<close>

definition resolver_build :: "(go_error + (string \<times> string) list \<times> int) go \<Rightarrow> (string list \<Rightarrow> go_error option) \<Rightarrow> bool
    \<Rightarrow> ((go_error + resolver \<times> int) \<times> resolver option) go" where
  "resolver_build snapshot update observed = (case snapshot of
       Panic \<Rightarrow> Panic
     | Ret (Inl e) \<Rightarrow> Ret (Inl e, None)
     | Ret (Inr (addresses, revision)) \<Rightarrow>
        (case publish_locked update observed
            \<lparr>rv_table = addresses, rv_published = [], rv_observed = [], rv_errors = [], rv_cancelled = False\<rparr> of
           (Some e, r) \<Rightarrow> Ret (Inl e, Some (r\<lparr>rv_cancelled := True\<rparr>))
         | (None, r) \<Rightarrow> Ret (Inr (r, revision + 1), Some r)))"

definition resolver_close :: "resolver \<Rightarrow> resolver" where
  "resolver_close r = r\<lparr>rv_cancelled := True\<rparr>"

text \<open>The watcher over the responses of its channel; \<open>apply_response\<close> merges a batch of events into the table. Its panic ends the process.\<close>

fun resolver_watch :: "('ev \<Rightarrow> (string \<times> string) list \<Rightarrow> (string \<times> string) list go) \<Rightarrow> (string list \<Rightarrow> go_error option) \<Rightarrow> bool
    \<Rightarrow> (go_error + 'ev) list \<Rightarrow> resolver \<Rightarrow> resolver go" where
  "resolver_watch apply_response update observed [] r = Ret r"
| "resolver_watch apply_response update observed (resp # resps) r = (case resp of
     Inl e \<Rightarrow> Ret (r\<lparr>rv_errors := rv_errors r @ [e]\<rparr>)
   | Inr ev \<Rightarrow> (case apply_response ev (rv_table r) of
       Panic \<Rightarrow> Panic
     | Ret addresses \<Rightarrow>
        (case publish_locked update observed (r\<lparr>rv_table := addresses\<rparr>) of
           (err, r1) \<Rightarrow> resolver_watch apply_response update observed resps
              (case err of None \<Rightarrow> r1 | Some e \<Rightarrow> r1\<lparr>rv_errors := rv_errors r1 @ [e]\<rparr>))))"

text \<open>At this commit nothing is resolved: building panics, and so would a watcher at its first batch of events.\<close>

lemma resolver_at_commit:
  "resolver_build (etcd_snapshot service) update observed = Panic"
  "resolver_watch apply_watch_response update observed (Inr ev # resps) r = Panic"
  by (simp_all add: resolver_build_def etcd_snapshot_def apply_watch_response_def)

text \<open>What is built has published its snapshot, sorted, and watches from the revision after it.\<close>

lemma resolver_build_publishes:
  assumes "resolver_build (Ret (Inr (addresses, revision))) update observed = Ret (Inr (r, next_revision), made)"
  shows "rv_published r = [sort (map snd addresses)] \<and> rv_table r = addresses \<and> next_revision = revision + 1 \<and> \<not> rv_cancelled r"
  using assms by (auto simp: resolver_build_def publish_locked_def Let_def split: option.splits if_splits)

text \<open>The table after each response that came before an error.\<close>

fun tables_after :: "('ev \<Rightarrow> (string \<times> string) list \<Rightarrow> (string \<times> string) list) \<Rightarrow> (go_error + 'ev) list \<Rightarrow> (string \<times> string) list
    \<Rightarrow> (string \<times> string) list list" where
  "tables_after apply_response [] t = []"
| "tables_after apply_response (Inl e # resps) t = []"
| "tables_after apply_response (Inr ev # resps) t = apply_response ev t # tables_after apply_response resps (apply_response ev t)"

lemma publish_locked_fields:
  assumes "publish_locked update observed r = (err, r1)"
  shows "rv_published r1 = rv_published r @ [sort (map snd (rv_table r))]"
    "rv_observed r1 = rv_observed r @ (if observed then [sort (map snd (rv_table r))] else [])" "rv_table r1 = rv_table r"
  using assms by (auto simp: publish_locked_def Let_def split: if_splits)

text \<open>
  The resolver always publishes its whole table, sorted. After any run of watch responses, what was published for the
  ones that came before an error is, in order, the sorted addresses of the table after each, and an observer sees the same lists.
\<close>

theorem resolver_publishes_table:
  "\<exists>r'. resolver_watch (\<lambda>ev t. Ret (apply_response ev t)) update observed resps r = Ret r'
   \<and> rv_published r' = rv_published r @ map (\<lambda>t. sort (map snd t)) (tables_after apply_response resps (rv_table r))
   \<and> rv_observed r' = rv_observed r @ (if observed then map (\<lambda>t. sort (map snd t)) (tables_after apply_response resps (rv_table r)) else [])"
proof (induction apply_response resps "rv_table r" arbitrary: r rule: tables_after.induct)
  case (3 apply_response ev resps)
  obtain err r1 where p: "publish_locked update observed (r\<lparr>rv_table := apply_response ev (rv_table r)\<rparr>) = (err, r1)"
    by (rule prod.exhaust)
  note f = publish_locked_fields [OF p]
  let ?r2 = "case err of None \<Rightarrow> r1 | Some e \<Rightarrow> r1\<lparr>rv_errors := rv_errors r1 @ [e]\<rparr>"
  have "rv_table ?r2 = apply_response ev (rv_table r)" "rv_published ?r2 = rv_published r1" "rv_observed ?r2 = rv_observed r1"
    using f(3) by (simp_all split: option.splits)
  then show ?case using "3.hyps" [of ?r2] p f by (cases observed) simp_all
qed simp_all

lemma publish_order_irrelevant:
  "mset t = mset t' \<Longrightarrow> sort (map snd t) = sort (map snd t')"
  by (metis mset_map properties_for_sort mset_sort sorted_sort)

end
