(* ===== verification/Guarantee.thy ===== *)
theory Guarantee
  imports Api Pipeline
begin

text \<open>
  What every way of placing an order guarantees about the database, given what the others rely on. A relation between the database before and
  after a call is the guarantee: locale \<open>order_relation\<close> for the relations that allow a sale of stock that is there, which the strategies that
  check the stock in the write keep (pessimistic, conditional, the consumer); locale \<open>book_relation\<close> for those that allow any booking, which all
  strategies keep.
\<close>

section \<open>One booking at most\<close>

text \<open>Whatever the others do at its gaps, a strategy leaves the database they left or books one order on top of it.\<close>

lemma tx_write_booked:
  "tx_write i req w = (x, w') \<Longrightarrow> wdb w' = wdb w \<or> booked i req (wdb w) (wdb w')"
  by (auto simp: tx_write_def split: prod.splits sum.splits if_splits
      dest!: call_dests on_db_query_any intro: insert_update_booked)

lemma tx_locked_booked:
  "tx_locked nid env2 req w = (x, w') \<Longrightarrow>
     wdb w' \<in> {wdb w, env2 (wdb w)} \<or> (\<exists>i. booked i req (env2 (wdb w)) (wdb w'))"
  by (auto simp: tx_locked_def split: prod.splits sum.splits if_splits dest!: call_dests dest: tx_write_booked)

lemma place_order_tx_booked:
  assumes "place_order_tx nid env1 env2 req w = (x, w')"
  shows "wdb w' \<in> {wdb w, env1 (wdb w), env2 (env1 (wdb w))} \<or> (\<exists>i. booked i req (env2 (env1 (wdb w))) (wdb w'))"
  using assms
  by (auto simp: place_order_tx_def split: prod.splits sum.splits if_splits dest!: call_dests dest: tx_locked_booked)

lemma cas_attempt_booked:
  assumes "cas_attempt nid env req w = (x, w')"
  shows "wdb w' \<in> {wdb w, env (wdb w)} \<or> (\<exists>i. booked i req (env (wdb w)) (wdb w'))"
proof -
  have bk: "booked i req (env (wdb w)) t4"
    if "update_sub_if_version (r_product req) (r_quantity req) v (env (wdb w)) = (k, t3)" "0 < k"
      "insert_order (new_order i req) t3 = (Inr (), t4)" for i v k t3 t4
    using update_if_version_effect [OF that(1)] that stock_insert_booked [OF that(3), of "env (wdb w)"] by auto
  show ?thesis
    using assms
    by (auto simp: cas_attempt_def Let_def split: prod.splits sum.splits if_splits
        dest!: call_dests insert_order_tx_Inr insert_order_tx_Inl) (use bk in blast)+
qed

lemma locked_store_booked:
  assumes "locked_store nid env req w = (x, w')"
  shows "\<exists>w2. wdb w2 = wdb w \<and> (wdb w' \<in> {wdb w, wdb (env w2)} \<or> (\<exists>i. booked i req (wdb (env w2)) (wdb w')))"
proof -
  obtain x1 w1 where b: "begin_tx w = (x1, w1)" by (rule prod.exhaust)
  obtain x2 t2 w2 where r: "on_tx (query (select_stock (r_product req))) (wdb w) w1 = (x2, t2, w2)" by (rule prod_cases3)
  have bk: "booked i req (wdb (env w2)) t4"
    if "update_sub (r_product req) (r_quantity req) (wdb (env w2)) = (k, t3)" "insert_order (new_order i req) t3 = (Inr (), t4)" for i k t3 t4
    using stock_insert_booked [OF that(2)] update_sub_effect [OF that(1)] by auto
  have "wdb w1 = wdb w" "wdb w2 = wdb w" "x1 = Inr t \<Longrightarrow> t = wdb w" for t
    using begin_tx_cases [OF b] on_tx_cases [OF r] by auto
  then show ?thesis
    using assms b r
    by (intro exI [of _ w2])
      (auto simp: locked_store_def Let_def split: prod.splits sum.splits if_splits
        dest!: on_tx_exec_Inr on_tx_exec_Inl commit_tx_Inr commit_tx_Inl insert_order_tx_Inr insert_order_tx_Inl intro: bk)
qed

section \<open>The strategies that check the stock\<close>

locale order_relation =
  fixes R :: "database \<Rightarrow> database \<Rightarrow> bool"
  assumes refl: "R d d"
    and trans: "R d d' \<Longrightarrow> R d' d'' \<Longrightarrow> R d d''"
    and sold: "sale i req d d' \<Longrightarrow> R d d'"
begin

lemma pessimistic_guarantee:
  assumes "place_order_tx nid env1 env2 req w = (x, w')" "\<And>d. R d (env1 d)" "\<And>d. R d (env2 d)"
    and "\<And>d. stock_of (env2 d) (r_product req) = stock_of d (r_product req)"
  shows "R (wdb w) (wdb w')"
  using place_order_tx_cases [OF assms(1) assms(4)] refl sold trans [OF assms(2,3)] trans [OF trans [OF assms(2,3)]] assms(2)
  by auto

lemma conditional_guarantee:
  "place_order_by_conditional_update nid req w = (x, w') \<Longrightarrow> R (wdb w) (wdb w')"
  using conditional_cases [of nid req w x w'] refl sold by auto

text \<open>The consumer.\<close>

lemma place_record_guarantee: "place_record nid rec w = (x, w') \<Longrightarrow> R (wdb w) (wdb w')"
  using refl by (auto simp: place_record_def split: sum.splits dest!: pessimistic_guarantee)

lemma retry_loop_guarantee:
  "retry_loop text dlt cancelled (\<lambda>a. place_record (ids a)) base rec m a bs v = (y, v') \<Longrightarrow> R (wdb v) (wdb v')"
proof (induction m arbitrary: a bs v)
  case 0
  obtain x v1 where x: "place_record (ids a) rec v = (x, v1)" by (rule prod.exhaust)
  have "wdb v' = wdb v1"
    using 0 x by (auto simp: retry_loop.simps [of _ _ _ _ _ _ 0] split: sum.splits prod.splits dest!: produce_sync_cases)
  then show ?case using place_record_guarantee [OF x] by simp
next
  case (Suc m)
  obtain x v1 where x: "place_record (ids a) rec v = (x, v1)" by (rule prod.exhaust)
  have "v' = v1 \<or> (\<exists>bs'. retry_loop text dlt cancelled (\<lambda>a. place_record (ids a)) base rec m (Suc a) bs' v1 = (y, v'))"
    using Suc.prems x by (auto simp: retry_loop.simps [of _ _ _ _ _ _ "Suc m"] Let_def split: sum.splits option.splits)
  then show ?case using Suc.IH place_record_guarantee [OF x] trans by blast
qed

lemma consume_record_guarantee: "consume_record text dlt env rec (w, c) = (w', c') \<Longrightarrow> R (wdb w) (wdb w')"
  by (auto simp: consume_record_def process_with_retry_def main_retry_policy_def commit_processed_def
      split: option.splits prod.splits fault.splits dest!: next_fault_frame retry_loop_guarantee)

lemma consume_batch_guarantee: "consume_batch text dlt env i recs (w, c) = (w', c') \<Longrightarrow> R (wdb w) (wdb w')"
proof (induction recs arbitrary: i w c)
  case Nil
  then show ?case using refl by simp
next
  case (Cons rec recs)
  obtain w1 c1 where r: "consume_record text dlt (env i) rec (w, c) = (w1, c1)" by (rule prod.exhaust)
  then show ?case using Cons consume_record_guarantee [OF r] trans by auto
qed

end

section \<open>All strategies\<close>

locale book_relation = order_relation +
  assumes booking: "booked i req d d' \<Longrightarrow> R d d'"
begin


lemma any_pessimistic_guarantee:
  assumes "place_order_tx nid env1 env2 req w = (x, w')" "\<And>d. R d (env1 d)" "\<And>d. R d (env2 d)"
  shows "R (wdb w) (wdb w')"
  using place_order_tx_booked [OF assms(1)] refl booking trans [OF assms(2,3)] trans [OF trans [OF assms(2,3)]] assms(2)
  by auto

lemma cas_attempt_guarantee:
  assumes "cas_attempt nid env req w = (x, w')" "\<And>d. R d (env d)"
  shows "R (wdb w) (wdb w')"
  using cas_attempt_booked [OF assms(1)] refl booking trans [OF assms(2)] assms(2) by auto

lemma cas_loop_guarantee:
  "cas_loop n k nid env req w = (y, w') \<Longrightarrow> (\<And>k d. R d (env k d)) \<Longrightarrow> R (wdb w) (wdb w')"
proof (induction n k nid env req w arbitrary: y w' rule: cas_loop.induct)
  case (1 k nid env req w)
  then show ?case using refl by simp
next
  case (2 n k nid env req w)
  obtain z w1 where z: "cas_attempt nid (env k) req w = (z, w1)" by (rule prod.exhaust)
  note g = cas_attempt_guarantee [OF z "2.prems"(2)]
  show ?case
  proof (cases "z = Inr None")
    case True
    then have "R (wdb w1) (wdb w')" using "2.IH" [OF z [symmetric]] "2.prems" z by simp
    then show ?thesis using g trans by blast
  next
    case False
    then show ?thesis using g "2.prems"(1) z by (auto split: sum.splits option.splits)
  qed
qed

lemma cas_guarantee:
  "place_order_by_version_cas nid env req w = (y, w') \<Longrightarrow> (\<And>k d. R d (env k d)) \<Longrightarrow> R (wdb w) (wdb w')"
  using refl by (auto simp: place_order_by_version_cas_def split: option.splits dest: cas_loop_guarantee)

lemma lock_guarantee:
  assumes "place_order_with_lock tok nid env opts req w = (x, w')" "\<And>w. R (wdb w) (wdb (env w))"
  shows "R (wdb w) (wdb w')"
proof (cases "validate_request req")
  case None
  obtain y w1 where y: "acquire tok (lock_key (r_product req)) (lo_ttl opts) w = (y, w1)" by (rule prod.exhaust)
  have db: "wdb w1 = wdb w" using acquire_cases [OF y] by auto
  show ?thesis
  proof (cases y)
    case (Inr l)
    obtain z w2 where z: "locked_store nid env req w1 = (z, w2)" by (rule prod.exhaust)
    obtain w3 where w3: "wdb w3 = wdb w"
      "wdb w2 \<in> {wdb w, wdb (env w3)} \<or> (\<exists>i. booked i req (wdb (env w3)) (wdb w2))"
      using locked_store_booked [OF z] db by auto
    have "R (wdb w) (wdb (env w3))" using assms(2) [of w3] w3(1) by simp
    then have "R (wdb w) (wdb w2)" using w3(2) refl trans [OF _ booking] by auto
    then show ?thesis using assms(1) None y Inr z release_frame [of l w2] by (auto simp: place_order_with_lock_def)
  qed (use assms(1) None y db refl in \<open>simp add: place_order_with_lock_def\<close>)
qed (use assms(1) refl in \<open>simp add: place_order_with_lock_def\<close>)

lemma store_guarantee: "prededuct_store nid req w = (x, w') \<Longrightarrow> R (wdb w) (wdb w')"
  using prededuct_store_cases [of nid req w x w'] refl booking by auto

lemma lua_guarantee:
  assumes "place_order_with_pre_deduct nid env req w = (x, w')" "\<And>w. R (wdb w) (wdb (env w))"
  shows "R (wdb w) (wdb w')"
proof (cases "validate_request req")
  case None
  let ?p = "r_product req" and ?q = "r_quantity req"
  obtain y w1 where y: "pre_deduct ?p ?q w = (y, w1)" by (rule prod.exhaust)
  obtain z w2 where z: "prededuct_store nid req (env w1) = (z, w2)" by (rule prod.exhaust)
  have db: "wdb w1 = wdb w" using pre_deduct_db(1) [of ?p ?q w] y by simp
  have "R (wdb w) (wdb w2)" using trans [OF assms(2) store_guarantee [OF z]] db by metis
  then show ?thesis
    using assms(1) None y z pre_deduct_db(2) [of ?p ?q w2] db refl
    by (auto simp: place_order_with_pre_deduct_def split: sum.splits)
qed (use assms(1) refl in \<open>auto simp: place_order_with_pre_deduct_def\<close>)

lemma bucket_guarantee:
  assumes "place_order_with_bucket_deduct nid env cfg req w = Ret (x, w')" "\<And>w. R (wdb w) (wdb (env w))"
  shows "R (wdb w) (wdb w')"
proof (cases "r_quantity req \<le> 0")
  case False
  then obtain res err w1 where d: "deduct_with_probe cfg (r_product req) (r_request req) (r_quantity req) w = Ret ((res, err), w1)"
    using assms(1) by (cases "deduct_with_probe cfg (r_product req) (r_request req) (r_quantity req) w")
      (auto simp: place_order_with_bucket_deduct_def)
  then have db: "wdb w1 = wdb w" by (auto simp: deduct_with_probe_def split: go.splits dest: probe_loop_db)
  obtain z w2 where z: "prededuct_store nid req (env w1) = (z, w2)" by (rule prod.exhaust)
  have "R (wdb w) (wdb w2)" using trans [OF assms(2) store_guarantee [OF z]] db by metis
  then show ?thesis
    using assms(1) False d z db refl rollback_to_bucket_db [of "r_product req" "dr_bucket res" "r_quantity req" w2]
    by (auto simp: place_order_with_bucket_deduct_def split: sum.splits option.splits)
qed (use assms(1) refl in \<open>auto simp: place_order_with_bucket_deduct_def\<close>)

text \<open>Whichever strategy the request of \<open>/debug/orders\<close> names.\<close>

lemma run_approach_guarantee:
  assumes "run_approach ch cfg approach req w = Some (Ret (x, w'))" "\<And>d. R d (ch_row1 ch d)" "\<And>d. R d (ch_row2 ch d)"
    and "\<And>k d. R d (ch_rounds ch k d)" "\<And>w. R (wdb w) (wdb (ch_gate ch w))"
  shows "R (wdb w) (wdb w')"
  using assms(1)
  by (auto simp: run_approach_def split: if_splits prod.splits
      intro: any_pessimistic_guarantee assms(2-5) cas_guarantee conditional_guarantee lock_guarantee lua_guarantee bucket_guarantee)

end

end
