(* ===== verification/Serving.thy ===== *)
theory Serving
  imports Guarantee
begin

text \<open>
  The running API server of \<open>cmd/api/main.go\<close>: its routes with the overload gate and gin's panic recovery in front of
  the handlers, the consumer goroutine beside them, and the state they share. A request's \<open>chance\<close> holds what other clients do in the middle of
  it; the order book is shown to hold under rely and guarantee: if what the others do only adds rows under free keys, so does each request.
\<close>

section \<open>The canary router (internal/canary/router.go)\<close>

text \<open>At this commit the two operations are stubs that panic; the constructor is complete.\<close>

record 'port router =
  rt_v1 :: 'port
  rt_v2 :: 'port
  rt_percent :: int

definition new_router :: "'port \<Rightarrow> 'port \<Rightarrow> int \<Rightarrow> 'port router" where
  "new_router v1 v2 percent = \<lparr>rt_v1 = v1, rt_v2 = v2, rt_percent = percent\<rparr>"

definition select_version :: "int \<Rightarrow> int \<Rightarrow> string go" where
  "select_version user percent = Panic"

definition router_place_async :: "'port router \<Rightarrow> place_req \<Rightarrow> world \<Rightarrow> ((go_error + accepted_order) \<times> world) go" where
  "router_place_async r req w = Panic"

text \<open>The asynchronous endpoint over a port that may panic; over one that does not, it is the gateway's handler.\<close>

definition http_async :: "(go_error \<Rightarrow> string) \<Rightarrow> go_error + string
    \<Rightarrow> (place_req \<Rightarrow> world \<Rightarrow> ((go_error + accepted_order) \<times> world) go) \<Rightarrow> string \<Rightarrow> place_req option \<Rightarrow> world
    \<Rightarrow> (http_reply \<times> world) go" where
  "http_async text generated port bad body w =
     (case (case body of None \<Rightarrow> None | Some b \<Rightarrow> (if r_product b = 0 then None else Some b)) of
        None \<Rightarrow> Ret ((400, ErrorBody bad), w)
      | Some b \<Rightarrow>
        (case (if r_request b = '''' then generated else Inr (r_request b)) of
           Inl e \<Rightarrow> Ret ((500, ErrorBody (text e)), w)
         | Inr rid \<Rightarrow>
           (case port (b\<lparr>r_request := rid, r_quantity := (if r_quantity b = 0 then 1 else r_quantity b)\<rparr>) w of
              Panic \<Rightarrow> Panic
            | Ret (Inr a, w') \<Rightarrow> Ret ((202, AcceptedBody (ao_request a)), w')
            | Ret (Inl e, w') \<Rightarrow>
                (if errors_is e PortsInsufficientStock then Ret ((409, ErrorBody (text e)), w')
                 else (case write_path_failure text e of (status, payload) \<Rightarrow> Ret ((status, PayloadBody payload), w'))))))"

lemma http_async_returns:
  "http_async text generated (\<lambda>req w. Ret (port req w)) bad body w = Ret (async_http_place text generated port bad body w)"
  by (simp add: http_async_def async_http_place_def split: option.splits sum.splits prod.splits)

section \<open>State, requests, answers\<close>

text \<open>
  What the handlers close over: both stores with the load counter of the cache, the crash switch of the ledger endpoint, the gate, and
  the consumer group's offsets.
\<close>

record api =
  ap_cache :: cstate
  ap_switch :: "int option"
  ap_gate :: gate
  ap_offsets :: "int \<rightharpoonup> int"

abbreviation ap_world :: "api \<Rightarrow> world" where
  "ap_world s \<equiv> fst (ap_cache s)"

abbreviation ap_db :: "api \<Rightarrow> database" where
  "ap_db s \<equiv> wdb (ap_world s)"

text \<open>One constructor per route; the strings are path and query parameters, \<open>None\<close> a body that does not parse.\<close>

datatype request =
    GetHealthz
  | GetStock string
  | GetProduct string
  | GetNocache string
  | PostWarmCache string
  | PostUpdateStock string string
  | GetSlow string
  | PostOrders "place_req option"
  | PostWarmStock string
  | PostWarmBuckets string string string
  | GetRemaining string string string
  | PostCrash "string option"
  | PostAsyncLedger "place_req option"
  | GetIdentity string "string option"
  | PostReconcile "int option"
  | PostDebugOrder string string string "place_req option"
  | PostAsync "place_req option"
  | GetOrder string

datatype answer = Plain int | Slept int | Failed int string | Debug api_reply | Gateway http_reply
  | Refused int degraded_payload "int option" | Recovered

text \<open>What the outside decides for one request: clocks, ids, chance, the select of the admission, pages of the scan, contexts.\<close>

record call =
  cl_bad :: string
  cl_clock :: int
  cl_now :: int
  cl_accepted :: int
  cl_generated :: "go_error + int"
  cl_chance :: chance
  cl_slot :: acquire_case
  cl_others :: "admission \<Rightarrow> admission"
  cl_rnd :: int
  cl_flight :: flight
  cl_fill :: "cstate \<Rightarrow> cstate"
  cl_pages :: "string list list"
  cl_ctx :: "nat \<Rightarrow> go_error option"

text \<open>What is fixed when the process starts: the texts of errors, the topics, the asynchronous order port.\<close>

record wiring =
  wi_text :: "go_error \<Rightarrow> string"
  wi_topic :: string
  wi_dlt :: string
  wi_port :: "place_req \<Rightarrow> world \<Rightarrow> ((go_error + accepted_order) \<times> world) go"

section \<open>Routes\<close>

text \<open>The routes registered with the gate in front: the ones that place orders.\<close>

definition gated :: "request \<Rightarrow> bool" where
  "gated r = (case r of PostOrders _ \<Rightarrow> True | PostAsyncLedger _ \<Rightarrow> True | PostDebugOrder _ _ _ _ \<Rightarrow> True | PostAsync _ \<Rightarrow> True | _ \<Rightarrow> False)"

text \<open>\<open>SLEEP\<close> of a negative number is an error in strict mode.\<close>

definition http_slow :: "(go_error \<Rightarrow> string) \<Rightarrow> string \<Rightarrow> world \<Rightarrow> answer \<times> world" where
  "http_slow text seconds w =
     (let n = (case parse_int seconds of Some n \<Rightarrow> n | None \<Rightarrow> 0) in
      case on_db (query (\<lambda>d. if n < 0 then Inl (MySQLError 1210) else Inr (0::int))) w of
        (Inl e, w') \<Rightarrow> (Failed 504 (text e), w') | (Inr _, w') \<Rightarrow> (Slept n, w'))"

text \<open>A handler on the world alone, or on the world and the cache's counter, as a handler on the state.\<close>

definition on_world :: "('a \<Rightarrow> answer) \<Rightarrow> (world \<Rightarrow> 'a \<times> world) \<Rightarrow> api \<Rightarrow> (answer \<times> api) go" where
  "on_world wrap h s = (case h (ap_world s) of (a, w) \<Rightarrow> Ret (wrap a, s\<lparr>ap_cache := (w, snd (ap_cache s))\<rparr>))"

definition on_world_go :: "('a \<Rightarrow> answer) \<Rightarrow> (world \<Rightarrow> ('a \<times> world) go) \<Rightarrow> api \<Rightarrow> (answer \<times> api) go" where
  "on_world_go wrap h s = (case h (ap_world s) of Panic \<Rightarrow> Panic
     | Ret (a, w) \<Rightarrow> Ret (wrap a, s\<lparr>ap_cache := (w, snd (ap_cache s))\<rparr>))"

definition on_cache :: "('a \<Rightarrow> answer) \<Rightarrow> (cstate \<Rightarrow> 'a \<times> cstate) \<Rightarrow> api \<Rightarrow> (answer \<times> api) go" where
  "on_cache wrap h s = (case h (ap_cache s) of (a, c) \<Rightarrow> Ret (wrap a, s\<lparr>ap_cache := c\<rparr>))"

definition handle :: "wiring \<Rightarrow> call \<Rightarrow> request \<Rightarrow> api \<Rightarrow> (answer \<times> api) go" where
  "handle wi cl r s = (let text = wi_text wi in case r of
       GetHealthz \<Rightarrow> Ret (Plain 200, s)
     | GetStock i \<Rightarrow> on_world Debug (http_stock text i) s
     | GetProduct i \<Rightarrow> on_cache Gateway
         (http_get_product text (adapter_get_product (cache_get app_load (cl_flight cl) default_cache_options (cl_rnd cl) (cl_fill cl))) (parse_int i)) s
     | GetNocache i \<Rightarrow> on_cache Debug (http_nocache text i) s
     | PostWarmCache i \<Rightarrow> on_cache Debug (http_warm_cache text (cl_rnd cl) i) s
     | PostUpdateStock stk i \<Rightarrow> on_cache Debug (http_update_stock text stk i) s
     | GetSlow n \<Rightarrow> on_world id (http_slow text n) s
     | PostOrders b \<Rightarrow> on_world Gateway (post_orders text (cl_chance cl) (cl_bad cl) b) s
     | PostWarmStock i \<Rightarrow> on_world Debug (http_warm_stock text i) s
     | PostWarmBuckets n k i \<Rightarrow> on_world_go Debug (http_warm_buckets text n k i) s
     | GetRemaining n k i \<Rightarrow> on_world_go Debug (http_remaining text n k i) s
     | PostCrash n \<Rightarrow> (case http_arm_crash n (ap_switch s) of (a, sw) \<Rightarrow> Ret (Debug a, s\<lparr>ap_switch := sw\<rparr>))
     | PostAsyncLedger b \<Rightarrow>
         (case http_enqueue_ledger text (cl_generated cl) (wi_topic wi) (cl_now cl) (cl_accepted cl) (cl_bad cl) b (ap_switch s) (ap_world s) of
            (a, sw, w) \<Rightarrow> Ret (Debug a, s\<lparr>ap_cache := (w, snd (ap_cache s)), ap_switch := sw\<rparr>))
     | GetIdentity i initial \<Rightarrow> on_world Debug (http_identity text i initial) s
     | PostReconcile window \<Rightarrow> on_world Debug (http_reconcile text (cl_pages cl) window (cl_now cl) (cl_ctx cl)) s
     | PostDebugOrder n k approach b \<Rightarrow>
         on_world_go Debug (http_debug_order text (cl_generated cl) (cl_chance cl) n k (cl_bad cl) approach b) s
     | PostAsync b \<Rightarrow> on_world_go Gateway (http_async text (int64_request_id (cl_generated cl)) (wi_port wi) (cl_bad cl) b) s
     | GetOrder rid \<Rightarrow> on_world Gateway (get_order text rid) s)"

text \<open>
  \<open>gin.Recovery\<close> turns a panic into status 500. The handlers that panic here do so before their first effect. Behind the gate the
  handler leaves its answer beside the state. \<open>None\<close> is a request that would wait for ever.
\<close>

definition recovered :: "api \<Rightarrow> (answer \<times> api) go \<Rightarrow> answer \<times> api" where
  "recovered s x = (case x of Ret (a, s') \<Rightarrow> (a, s') | Panic \<Rightarrow> (Recovered, s))"

definition serve_request :: "wiring \<Rightarrow> call \<Rightarrow> request \<Rightarrow> api \<Rightarrow> (answer \<times> api) option" where
  "serve_request wi cl r s =
     (if \<not> gated r then Some (recovered s (handle wi cl r s))
      else (case overload_gate (wi_text wi) (cl_clock cl) (cl_slot cl) (cl_others cl)
             (\<lambda>(a, s). case handle wi cl r s of Ret (a', s') \<Rightarrow> (Ret (), (a', s')) | Panic \<Rightarrow> (Panic, (Recovered, s)))
             (ap_gate s) (Recovered, s) of
          None \<Rightarrow> None
        | Some (GateAborted status payload retry, g, (a, s')) \<Rightarrow> Some (Refused status payload retry, s'\<lparr>ap_gate := g\<rparr>)
        | Some (GatePassed _, g, (a, s')) \<Rightarrow> Some (a, s'\<lparr>ap_gate := g\<rparr>)))"

section \<open>The order book\<close>

text \<open>
  \<open>grows d d'\<close>: rows were added at the end, under keys that are still unique. \<open>stored\<close>: an answered order is in the
  table, but for the creation time the database gives.
\<close>

definition grows :: "database \<Rightarrow> database \<Rightarrow> bool" where
  "grows d d' \<longleftrightarrow> (\<exists>new. orders d' = orders d @ new) \<and> (orders_keyed d \<longrightarrow> orders_keyed d')"

definition stored :: "order \<Rightarrow> database \<Rightarrow> bool" where
  "stored ord d \<longleftrightarrow> (\<exists>t. ord\<lparr>o_created := t\<rparr> \<in> set (orders d))"

definition books :: "go_error + order \<Rightarrow> database \<Rightarrow> database \<Rightarrow> bool" where
  "books x d d' \<longleftrightarrow> grows d d' \<and> (\<forall>ord. x = Inr ord \<longrightarrow> stored ord d')"

lemma grows_refl [intro, simp]: "grows d d"
  by (simp add: grows_def)

lemma grows_trans [trans]: "grows d d' \<Longrightarrow> grows d' d'' \<Longrightarrow> grows d d''"
  by (auto simp: grows_def)

lemma grows_same: "orders d' = orders d \<Longrightarrow> grows d d'"
  by (simp add: grows_def orders_keyed_def)

lemma stored_grows: "stored ord d \<Longrightarrow> grows d d' \<Longrightarrow> stored ord d'"
  by (auto simp: stored_def grows_def)

lemma stored_row: "ord \<in> set (orders d) \<Longrightarrow> stored ord d"
  unfolding stored_def by (rule exI [of _ "o_created ord"]) simp

lemma books_same [intro]: "books (Inl e) d d"
  by (simp add: books_def)

lemma books_Inl: "books (Inl e) d d' \<longleftrightarrow> grows d d'"
  by (simp add: books_def)

lemma books_after: "grows d d1 \<Longrightarrow> books x d1 d' \<Longrightarrow> books x d d'"
  using grows_trans by (auto simp: books_def)

lemma books_error: "books x d d' \<Longrightarrow> books (Inl e) d d'"
  by (simp add: books_def)

lemma books_grows: "books x d d' \<Longrightarrow> grows d d'"
  by (simp add: books_def)

lemma insert_books:
  assumes "insert_order o' d1 = (Inr u, d2)" "orders d1 = orders d" "orders d' = orders d2"
  shows "books (Inr o') d d'"
proof -
  have "orders_keyed d1 \<longrightarrow> orders_keyed d2" using insert_order_keyed [OF assms(1)] by simp
  then have "grows d d'" using insert_order_Inr(1) [OF assms(1)] assms(2,3) by (auto simp: grows_def orders_keyed_def)
  moreover have "stored o' d'" using insert_order_Inr(1) [OF assms(1)] assms(3) by (auto simp: stored_def)
  ultimately show ?thesis by (simp add: books_def)
qed

lemma update_orders:
  "update_sub p q d = (k, d') \<Longrightarrow> orders d' = orders d"
  "update_sub_if_enough p q d = (k, d') \<Longrightarrow> orders d' = orders d"
  "update_sub_if_version p q v d = (k, d') \<Longrightarrow> orders d' = orders d"
  by (auto simp: update_sub_def update_sub_if_enough_def update_sub_if_version_def split: option.splits if_splits)

lemma books_select [simp]: "books (select_by_request rid d) d d"
  by (auto simp: books_def dest: select_by_request_Inr stored_row)

lemma books_found: "ord \<in> set (orders d) \<Longrightarrow> books (Inr ord) d d"
  by (simp add: books_def stored_row)

lemma tx_write_books: "tx_write i req w = (x, w') \<Longrightarrow> books x (wdb w) (wdb w')"
  by (auto simp: tx_write_def split: prod.splits sum.splits if_splits
      dest!: call_dests on_db_query_any update_orders intro: insert_books books_error)

lemma insert_tx_books:
  assumes "insert_order_tx nid req t w = (x, t', w')" "orders t = orders d"
  shows "wdb w' = wdb w \<and> wredis w' = wredis w \<and> books x d t'"
  using assms
  by (auto simp: insert_order_tx_def split: sum.splits prod.splits dest!: call_dests intro: insert_books grows_same simp: books_Inl)

text \<open>That the order book grows is such a guarantee.\<close>

lemma booked_grows: "booked i req d d' \<Longrightarrow> grows d d'"
  using booked_keyed by (auto simp: booked_def grows_def)

interpretation book: book_relation grows
  by unfold_locales (use grows_trans booked_grows sale_booked in blast)+

text \<open>Each strategy, with others that let the book grow where the strategy leaves them room.\<close>

lemma pessimistic_books:
  assumes "place_order_tx nid env1 env2 req w = (x, w')" "\<And>d. grows d (env1 d)" "\<And>d. grows d (env2 d)"
  shows "books x (wdb w) (wdb w')"
  using assms(1) assms(2) [of "wdb w"] assms(3) [of "env1 (wdb w)"]
  by (auto simp: place_order_tx_def tx_locked_def books_Inl split: prod.splits sum.splits if_splits
      dest!: call_dests tx_write_books select_by_request_Inr intro: grows_trans books_after books_found)

lemma cas_attempt_books:
  assumes "cas_attempt nid env req w = (x, w')" "\<And>d. grows d (env d)"
  shows "grows (wdb w) (wdb w') \<and> (\<forall>ord. x = Inr (Some ord) \<longrightarrow> stored ord (wdb w'))"
  using assms(1) assms(2) [of "wdb w"]
  by (auto simp: cas_attempt_def Let_def split: prod.splits sum.splits if_splits
      dest!: call_dests update_orders insert_tx_books simp: books_def intro: grows_trans)

lemma cas_loop_books:
  "cas_loop m k nid env req w = ((x, n), w') \<Longrightarrow> (\<And>k d. grows d (env k d)) \<Longrightarrow> books x (wdb w) (wdb w')"
proof (induction m k nid env req w arbitrary: x n w' rule: cas_loop.induct)
  case (2 m k nid env req w)
  obtain y w1 where y: "cas_attempt nid (env k) req w = (y, w1)" by (rule prod.exhaust)
  note b = cas_attempt_books [OF y "2.prems"(2)]
  show ?case
  proof (cases "y = Inr None")
    case True
    then have "books x (wdb w1) (wdb w')" using "2.IH" [OF y [symmetric]] "2.prems" y by simp
    then show ?thesis using b books_after by blast
  next
    case False
    then show ?thesis using b "2.prems"(1) y by (auto simp: books_def split: sum.splits option.splits)
  qed
qed (simp add: books_Inl)

lemma cas_books:
  "place_order_by_version_cas nid env req w = ((x, n), w') \<Longrightarrow> (\<And>k d. grows d (env k d)) \<Longrightarrow> books x (wdb w) (wdb w')"
  by (auto simp: place_order_by_version_cas_def books_Inl split: option.splits dest: cas_loop_books)

lemma conditional_books: "place_order_by_conditional_update nid req w = (x, w') \<Longrightarrow> books x (wdb w) (wdb w')"
  by (auto simp: place_order_by_conditional_update_def split: prod.splits sum.splits if_splits option.splits
      dest!: call_dests update_orders insert_tx_books intro: books_error)

lemma locked_store_books:
  assumes "locked_store nid env req w = (x, w')" "\<And>w. grows (wdb w) (wdb (env w))"
  shows "books x (wdb w) (wdb w')"
proof -
  have g: "grows d (wdb (env w1))" if "wdb w1 = d" for d w1 using assms(2) [of w1] that by simp
  have after: "grows d d'" if "books z (wdb (env w1)) d'" "wdb w1 = d" for z d w1 d'
    using grows_trans [OF g [OF that(2)]] books_grows [OF that(1)] by simp
  show ?thesis
    using assms(1)
    by (auto simp: locked_store_def Let_def split: prod.splits sum.splits if_splits
        dest!: call_dests update_orders insert_tx_books intro: g books_after [OF g] dest: after simp: books_Inl)
qed

lemma lock_books:
  assumes "place_order_with_lock tok nid env opts req w = (x, w')" "\<And>w. grows (wdb w) (wdb (env w))"
  shows "books x (wdb w) (wdb w')"
proof -
  have rel: "wdb (snd (release l w2)) = wdb w2" for l w2
    by (auto simp: release_def split: prod.splits sum.splits if_splits dest!: on_redis_cases)
  show ?thesis
    using assms(1) rel
    by (auto simp: place_order_with_lock_def split: option.splits prod.splits sum.splits
        dest!: acquire_cases locked_store_books [OF _ assms(2)] intro: books_error)
qed

lemma store_books: "prededuct_store nid req w = (x, w') \<Longrightarrow> books x (wdb w) (wdb w')"
  by (auto simp: prededuct_store_def split: prod.splits sum.splits
      dest!: call_dests update_orders insert_tx_books intro: books_error)

lemma lua_books:
  assumes "place_order_with_pre_deduct nid env req w = (x, w')" "\<And>w. grows (wdb w) (wdb (env w))"
  shows "books x (wdb w) (wdb w')"
proof (cases "validate_request req")
  case None
  let ?p = "r_product req" and ?q = "r_quantity req"
  obtain y w1 where y: "pre_deduct ?p ?q w = (y, w1)" by (rule prod.exhaust)
  obtain z w2 where z: "prededuct_store nid req (env w1) = (z, w2)" by (rule prod.exhaust)
  have "wdb w1 = wdb w" using pre_deduct_db(1) [of ?p ?q w] y by simp
  then have "books z (wdb w) (wdb w2)" using books_after [OF assms(2) store_books [OF z]] by simp
  then show ?thesis
    using assms(1) None y z pre_deduct_db(2) [of ?p ?q w2] \<open>wdb w1 = wdb w\<close>
    by (auto simp: place_order_with_pre_deduct_def split: sum.splits)
qed (use assms(1) in \<open>auto simp: place_order_with_pre_deduct_def\<close>)

lemma bucket_books:
  assumes "place_order_with_bucket_deduct nid env cfg req w = Ret (x, w')" "\<And>w. grows (wdb w) (wdb (env w))"
  shows "books x (wdb w) (wdb w')"
proof (cases "r_quantity req \<le> 0")
  case False
  then obtain res err w1 where d: "deduct_with_probe cfg (r_product req) (r_request req) (r_quantity req) w = Ret ((res, err), w1)"
    using assms(1) by (cases "deduct_with_probe cfg (r_product req) (r_request req) (r_quantity req) w")
      (auto simp: place_order_with_bucket_deduct_def)
  then have db: "wdb w1 = wdb w" by (auto simp: deduct_with_probe_def split: go.splits dest: probe_loop_db)
  obtain z w2 where z: "prededuct_store nid req (env w1) = (z, w2)" by (rule prod.exhaust)
  have "books z (wdb w) (wdb w2)" using books_after [OF assms(2) store_books [OF z]] db by simp
  then show ?thesis
    using assms(1) False d z db rollback_to_bucket_db [of "r_product req" "dr_bucket res" "r_quantity req" w2]
    by (auto simp: place_order_with_bucket_deduct_def split: sum.splits option.splits)
qed (use assms(1) in \<open>auto simp: place_order_with_bucket_deduct_def\<close>)

section \<open>Handlers that leave the database alone\<close>

lemma on_redis_db: "on_redis cmd w = (x, w') \<Longrightarrow> wdb w' = wdb w"
  by (auto dest: on_redis_cases)

lemma query_db: "on_db (query q) w = (x, w') \<Longrightarrow> wdb w' = wdb w"
  by (auto dest: on_db_query_any)

lemma produce_db: "produce_sync rec w = (x, w') \<Longrightarrow> wdb w' = wdb w"
  by (auto dest: produce_sync_cases)

lemma scan_page_db: "scan_page ks es w = (x, w') \<Longrightarrow> wdb w' = wdb w"
proof (induction ks arbitrary: es w)
  case (Cons k ks)
  obtain y w1 where y: "on_redis (redis_get k) w = (y, w1)" by (rule prod.exhaust)
  have "w' = w1 \<or> (\<exists>es'. scan_page ks es' w1 = (x, w'))"
    using Cons.prems y by (auto split: sum.splits if_splits)
  then show ?case using Cons.IH on_redis_db [OF y] by metis
qed simp

lemma scan_ledger_db: "scan_ledger pages es w = (x, w') \<Longrightarrow> wdb w' = wdb w"
proof (induction pages arbitrary: es w)
  case (Cons ks pages)
  obtain y w1 where y: "on_redis (\<lambda>r. (Inr ks, r)) w = (y, w1)" by (rule prod.exhaust)
  obtain keys where k: "y = Inr keys \<or> w' = w1" using Cons.prems y by (cases y) auto
  obtain z w2 where z: "scan_page keys es w1 = (z, w2)" by (rule prod.exhaust)
  have "w' \<in> {w1, w2} \<or> (\<exists>es'. scan_ledger pages es' w2 = (x, w'))"
    using Cons.prems y z k by (auto split: sum.splits)
  then show ?case using Cons.IH on_redis_db [OF y] scan_page_db [OF z] by auto
qed simp

lemma settle_entry_db: "settle_entry e q w = (x, w') \<Longrightarrow> wdb w' = wdb w"
  by (auto simp: settle_entry_def split: prod.splits sum.splits dest!: on_redis_db)

lemma reconcile_entry_db: "reconcile_entry window now e w = (x, w') \<Longrightarrow> wdb w' = wdb w"
  by (auto simp: reconcile_entry_def split: prod.splits sum.splits if_splits dest!: query_db settle_entry_db)

lemma reconcile_list_db: "reconcile_list window now ctx i es rp w = (x, w') \<Longrightarrow> wdb w' = wdb w"
proof (induction es arbitrary: i rp w)
  case (Cons e es)
  obtain y w1 where y: "reconcile_entry window now e w = (y, w1)" by (rule prod.exhaust)
  have "w' \<in> {w, w1} \<or> (\<exists>rp'. reconcile_list window now ctx (Suc i) es rp' w1 = (x, w'))"
    using Cons.prems y by (auto split: sum.splits option.splits)
  then show ?case using Cons.IH reconcile_entry_db [OF y] by auto
qed simp

lemma pre_deduct_db': "pre_deduct p q w = (x, w') \<Longrightarrow> wdb w' = wdb w"
  using pre_deduct_db(1) [of p q w] by simp

lemma record_pre_deduct_db: "record_pre_deduct req now w = (x, w') \<Longrightarrow> wdb w' = wdb w"
  by (auto simp: record_pre_deduct_def split: prod.splits sum.splits dest!: on_redis_db)

lemma enqueue_with_ledger_db:
  assumes "enqueue_with_ledger now (produce_sync rec) req sw w = (err, sw', w')"
  shows "wdb w' = wdb w"
proof -
  have roll: "wdb w2 = wdb w1" if "settle_entry e q (snd (rollback_pre_deduct p q' w1)) = (x, w2)" for e q p q' w1 x w2
    using settle_entry_db [OF that] pre_deduct_db(2) by simp
  show ?thesis
    using assms
    by (auto simp: enqueue_with_ledger_def split: prod.splits sum.splits bool.splits
        dest!: pre_deduct_db' record_pre_deduct_db produce_db roll)
qed

lemmas db_dests = on_redis_db query_db scan_ledger_db reconcile_list_db enqueue_with_ledger_db

text \<open>What the world handlers do to the database: nothing.\<close>

lemma quiet_world_handlers:
  "http_stock text i w = (a, w') \<Longrightarrow> wdb w' = wdb w"
  "http_slow text i w = (b, w') \<Longrightarrow> wdb w' = wdb w"
  "http_warm_stock text i w = (a, w') \<Longrightarrow> wdb w' = wdb w"
  "http_identity text i initial w = (a, w') \<Longrightarrow> wdb w' = wdb w"
  "http_reconcile text pages window now ctx w = (a, w') \<Longrightarrow> wdb w' = wdb w"
  "http_warm_buckets text n k i w = Ret (a, w') \<Longrightarrow> wdb w' = wdb w"
  "http_remaining text n k i w = Ret (a, w') \<Longrightarrow> wdb w' = wdb w"
  "http_enqueue_ledger text generated topic now accepted_at bad body sw w = (a, sw', w') \<Longrightarrow> wdb w' = wdb w"
         apply (auto simp: http_stock_def with_id_def split: option.splits prod.splits sum.splits dest!: db_dests)[1]
        apply (auto simp: http_slow_def Let_def split: prod.splits sum.splits option.splits dest!: db_dests)[1]
       apply (auto simp: http_warm_stock_def warm_stock_def with_id_def split: option.splits prod.splits sum.splits dest!: db_dests)[1]
      apply (auto simp: http_identity_def check_identity_def check_ordered_def split: option.splits prod.splits sum.splits if_splits dest!: db_dests)[1]
     apply (auto simp: http_reconcile_def reconcile_once_def split: option.splits prod.splits sum.splits dest!: db_dests)[1]
    apply (auto simp: http_warm_buckets_def spread_stock_def Let_def split: option.splits prod.splits sum.splits go.splits if_splits dest!: db_dests)[1]
   apply (auto simp: http_remaining_def total_remaining_def split: option.splits prod.splits sum.splits go.splits if_splits dest!: db_dests)[1]
  apply (auto simp: http_enqueue_ledger_def split: option.splits prod.splits sum.splits if_splits dest!: db_dests)[1]
  done

text \<open>The cache's handlers change products at most.\<close>


lemma update_stock_orders: "on_db (exec (update_stock_stmt i n)) w = (x, w') \<Longrightarrow> orders (wdb w') = orders (wdb w)"
  by (auto dest!: on_db_cases simp: exec_def update_stock_stmt_def split: option.splits)

lemma app_update_orders: "app_update i n s = (x, s') \<Longrightarrow> orders (wdb (fst s')) = orders (wdb (fst s))"
  by (auto simp: app_update_def counting_update_def sql_update_stock_def at_world_def
      split: prod.splits sum.splits if_splits dest!: update_stock_orders query_db)

section \<open>Rely and guarantee\<close>

text \<open>
  What is relied on. The others in a request's \<open>chance\<close> add rows to the order book, return the slots they take, and share a singleflight
  load or let it run; the asynchronous port leaves the database alone (its rows are written by the consumer).
\<close>

definition others_within :: "(database \<Rightarrow> database \<Rightarrow> bool) \<Rightarrow> call \<Rightarrow> bool" where
  "others_within R cl \<longleftrightarrow> (\<forall>d. R d (ch_row1 (cl_chance cl) d)) \<and> (\<forall>d. R d (ch_row2 (cl_chance cl) d))
     \<and> (\<forall>k d. R d (ch_rounds (cl_chance cl) k d)) \<and> (\<forall>w. R (wdb w) (wdb (ch_gate (cl_chance cl) w)))
     \<and> (\<forall>s. R (wdb (fst s)) (wdb (fst (cl_fill cl s))))
     \<and> (\<forall>k f s. cl_flight cl k f s = f s \<or> R (wdb (fst s)) (wdb (fst (snd (cl_flight cl k f s)))))"

definition others_grow :: "call \<Rightarrow> bool" where
  "others_grow cl \<longleftrightarrow> others_within grows cl
     \<and> (\<forall>a. ad_slots (cl_others cl a) = ad_slots a \<and> ad_in_flight (cl_others cl a) = ad_in_flight a)"

definition port_leaves_db :: "wiring \<Rightarrow> bool" where
  "port_leaves_db wi \<longleftrightarrow> (\<forall>req w x w'. wi_port wi req w = Ret (x, w') \<longrightarrow> wdb w' = wdb w)"

text \<open>The order in an answer, if there is one.\<close>

definition answered :: "answer \<Rightarrow> order list" where
  "answered a = (case a of Debug (status, ApiOrder ord) \<Rightarrow> [ord] | Gateway (status, OrderBody ord) \<Rightarrow> [ord] | _ \<Rightarrow> [])"

text \<open>Reading through the cache, and the cache's own requests.\<close>

lemma nocache_db: "http_nocache text i s = (a, s') \<Longrightarrow> wdb (fst s') = wdb (fst s)"
  by (auto simp: http_nocache_def with_id_def sql_load_product_def at_world_def
      split: option.splits prod.splits sum.splits dest!: query_db)

context order_relation
begin

lemma same: "wdb w' = d \<Longrightarrow> R d (wdb w')"
  using refl by simp

lemma fill_guarantee:
  assumes "load_and_fill app_load opts rnd env i s = (x, s')" "\<And>s. R (wdb (fst s)) (wdb (fst (env s)))"
  shows "R (wdb (fst s)) (wdb (fst s'))"
proof -
  obtain y s1 where y: "app_load i s = (y, s1)" by (rule prod.exhaust)
  have db: "wdb (fst s1) = wdb (fst s)" using app_repo.load_frame [OF y] by simp
  have g: "R (wdb (fst s)) (wdb (fst (env s1)))" using assms(2) [of s1] db by simp
  have put: "wdb (fst (snd (at_world (on_redis cmd) t))) = wdb (fst t)" for cmd :: "redis \<Rightarrow> (go_error + unit) \<times> redis" and t
    by (cases "on_redis cmd (fst t)") (simp add: at_world_def on_redis_db)
  show ?thesis
    using assms(1) y g put [of _ "env s1"] same [OF db]
    by (auto simp: load_and_fill_def split: sum.splits if_splits)
qed

lemma warm_guarantee: "cache_warm app_load opts ids s = (x, s') \<Longrightarrow> R (wdb (fst s)) (wdb (fst s'))"
proof (induction ids arbitrary: s)
  case Nil
  then show ?case using refl by simp
next
  case (Cons j ids)
  obtain i rnd where j: "j = (i, rnd)" by (rule prod.exhaust)
  obtain y s1 where y: "load_and_fill app_load opts rnd (\<lambda>s. s) i s = (y, s1)" by (rule prod.exhaust)
  have "R (wdb (fst s)) (wdb (fst s1))" using fill_guarantee [OF y] refl by simp
  moreover have "s' = s1 \<or> cache_warm app_load opts ids s1 = (x, s')"
    using Cons.prems j y by (auto split: sum.splits if_splits)
  ultimately show ?case using Cons.IH trans by blast
qed

lemma warm_cache_guarantee:
  assumes "http_warm_cache text rnd i s = (a, s')"
  shows "R (wdb (fst s)) (wdb (fst s'))"
  using assms refl
  by (auto simp: http_warm_cache_def with_id_def simp del: cache_warm.simps
      split: option.splits prod.splits sum.splits dest!: warm_guarantee)

lemma get_product_guarantee:
  assumes "http_get_product text (adapter_get_product (cache_get app_load (cl_flight cl) opts rnd (cl_fill cl))) parsed s = (a, s')"
    and "others_within R cl"
  shows "R (wdb (fst s)) (wdb (fst s'))"
proof (cases parsed)
  case None
  then show ?thesis using assms(1) refl by (simp add: http_get_product_def)
next
  case (Some i)
  have fill: "R (wdb (fst s)) (wdb (fst (cl_fill cl s)))" for s using assms(2) unfolding others_within_def by blast
  have flies: "cl_flight cl k f s = f s \<or> R (wdb (fst s)) (wdb (fst (snd (cl_flight cl k f s))))" for k f s
    using assms(2) unfolding others_within_def by blast
  obtain x s1 where x: "cache_get app_load (cl_flight cl) opts rnd (cl_fill cl) i s = (x, s1)" by (rule prod.exhaust)
  obtain y w1 where y: "on_redis (redis_get (product_key i)) (fst s) = (y, w1)" by (rule prod.exhaust)
  let ?f = "load_and_fill app_load opts rnd (cl_fill cl) i" and ?t = "(w1, snd s)"
  have db: "wdb w1 = wdb (fst s)" using on_redis_db [OF y] .
  have "R (wdb w1) (wdb (fst (snd (?f ?t))))"
    using fill_guarantee [of opts rnd "cl_fill cl" i ?t _ "snd (?f ?t)"] fill by (metis fst_conv prod.collapse)
  then have fl: "R (wdb w1) (wdb (fst (snd (cl_flight cl (product_key i) ?f ?t))))"
    using flies [of "product_key i" ?f ?t] by auto
  have "s1 = ?t \<or> cl_flight cl (product_key i) ?f ?t = (x, s1)"
    using x y by (auto simp: cache_get_def at_world_def split: sum.splits if_splits)
  then have "R (wdb (fst s)) (wdb (fst s1))" using fl db refl by auto
  moreover have "s' = s1" using assms(1) Some x by (cases x) (simp_all add: http_get_product_def adapter_get_product_def)
  ultimately show ?thesis by simp
qed

end

lemma update_stock_grows:
  "http_update_stock text stk i s = (a, s') \<Longrightarrow> grows (wdb (fst s)) (wdb (fst s'))"
  by (auto simp: http_update_stock_def with_id_def cache_update_stock_def at_world_def
      split: option.splits prod.splits sum.splits intro!: grows_same dest!: app_update_orders on_redis_db)

lemma debug_order_grows:
  assumes "http_debug_order text generated (cl_chance cl) n k bad approach body w = Ret (a, w')" "others_grow cl"
  shows "grows (wdb w) (wdb w') \<and> (\<forall>ord \<in> set (answered (Debug a)). stored ord (wdb w'))"
proof -
  let ?ch = "cl_chance cl"
  consider "w' = w" "answered (Debug a) = []"
    | req x where "run_approach ?ch (bucket_cfg_from n k) approach req w = Some (Ret (x, w'))" "a = approach_reply text x"
    using assms(1) by (auto simp: http_debug_order_def answered_def split: option.splits sum.splits go.splits)
  then show ?thesis
  proof cases
    case 2
    have "books x (wdb w) (wdb w')"
      using 2(1) assms(2)
      by (auto simp: run_approach_def others_grow_def others_within_def split: if_splits prod.splits
          intro: pessimistic_books cas_books conditional_books lock_books lua_books bucket_books)
    then show ?thesis using 2(2) by (auto simp: books_def approach_reply_def answered_def split: sum.splits if_splits)
  qed auto
qed

lemma post_orders_grows:
  assumes "post_orders text (cl_chance cl) bad body w = (a, w')" "others_grow cl"
  shows "grows (wdb w) (wdb w') \<and> (\<forall>ord \<in> set (answered (Gateway a)). stored ord (wdb w'))"
proof (cases "bind_order body")
  case None
  then show ?thesis using assms(1) by (auto simp: post_orders_def http_place_order_def answered_def)
next
  case (Some req)
  obtain x v where x: "place_order_tx (ch_id (cl_chance cl)) (ch_row1 (cl_chance cl)) (ch_row2 (cl_chance cl)) req w = (x, v)"
    by (rule prod.exhaust)
  have "books x (wdb w) (wdb v)" using pessimistic_books [OF x] assms(2) by (simp add: others_grow_def others_within_def)
  then show ?thesis
    using assms(1) Some x
    by (auto simp: post_orders_def http_place_order_def adapter_place_order_def answered_def books_def split: sum.splits if_splits)
qed

lemma get_order_grows:
  assumes "get_order text rid w = (a, w')"
  shows "wdb w' = wdb w \<and> (\<forall>ord \<in> set (answered (Gateway a)). stored ord (wdb w'))"
  using assms
  by (auto simp: get_order_def http_get_order_def adapter_find_order_def find_order_def answered_def
      split: option.splits prod.splits sum.splits if_splits dest!: on_db_query_Inr on_db_query_Inl select_by_request_Inr intro: stored_row)

lemma http_async_db:
  assumes "http_async text generated port bad body w = Ret (a, w')" "\<forall>req w x w'. port req w = Ret (x, w') \<longrightarrow> wdb w' = wdb w"
  shows "wdb w' = wdb w \<and> answered (Gateway a) = []"
  using assms(1) assms(2) [rule_format]
  by (auto simp: http_async_def answered_def split: option.splits sum.splits prod.splits go.splits if_splits)

lemma no_order_answers:
  "http_stock text i w = (a, w') \<Longrightarrow> answered (Debug a) = []"
  "http_slow text i w = (b, w') \<Longrightarrow> answered b = []"
  "http_warm_stock text i w = (a, w') \<Longrightarrow> answered (Debug a) = []"
  "http_identity text i initial w = (a, w') \<Longrightarrow> answered (Debug a) = []"
  "http_reconcile text pages window now ctx w = (a, w') \<Longrightarrow> answered (Debug a) = []"
  "http_warm_buckets text n k i w = Ret (a, w') \<Longrightarrow> answered (Debug a) = []"
  "http_remaining text n k i w = Ret (a, w') \<Longrightarrow> answered (Debug a) = []"
  "http_enqueue_ledger text generated topic now accepted_at bad body sw w = (a, sw', w') \<Longrightarrow> answered (Debug a) = []"
  "http_nocache text i s = (a, s') \<Longrightarrow> answered (Debug a) = []"
  "http_warm_cache text rnd i s = (a, s') \<Longrightarrow> answered (Debug a) = []"
  "http_update_stock text stk i s = (a, s') \<Longrightarrow> answered (Debug a) = []"
  "http_get_product text port parsed c = (p, c') \<Longrightarrow> answered (Gateway p) = []"
  "http_arm_crash m sw = (a, sw') \<Longrightarrow> answered (Debug a) = []"
             apply (auto simp: http_stock_def with_id_def answered_def split: option.splits prod.splits sum.splits)[1]
            apply (auto simp: http_slow_def Let_def answered_def split: prod.splits sum.splits option.splits)[1]
           apply (auto simp: http_warm_stock_def with_id_def answered_def split: option.splits prod.splits sum.splits)[1]
          apply (auto simp: http_identity_def answered_def split: option.splits prod.splits sum.splits)[1]
         apply (auto simp: http_reconcile_def answered_def split: option.splits prod.splits sum.splits)[1]
        apply (auto simp: http_warm_buckets_def answered_def split: option.splits prod.splits sum.splits go.splits)[1]
       apply (auto simp: http_remaining_def answered_def split: option.splits prod.splits sum.splits go.splits)[1]
      apply (auto simp: http_enqueue_ledger_def answered_def split: option.splits prod.splits sum.splits if_splits)[1]
     apply (auto simp: http_nocache_def with_id_def answered_def split: option.splits prod.splits sum.splits)[1]
    apply (auto simp: http_warm_cache_def with_id_def answered_def split: option.splits prod.splits sum.splits)[1]
   apply (auto simp: http_update_stock_def with_id_def answered_def split: option.splits prod.splits sum.splits)[1]
  apply (auto simp: http_get_product_def answered_def split: option.splits prod.splits sum.splits)[1]
  apply (auto simp: http_arm_crash_def answered_def split: option.splits)[1]
  done

text \<open>One handled request: the book grew, the answered order is in it, and the gate was not touched.\<close>

definition kept :: "api \<Rightarrow> answer \<Rightarrow> api \<Rightarrow> bool" where
  "kept s a s' \<longleftrightarrow> grows (ap_db s) (ap_db s') \<and> (\<forall>ord \<in> set (answered a). stored ord (ap_db s')) \<and> ap_gate s' = ap_gate s"

lemma on_world_kept:
  assumes "on_world wrap h s = Ret (a, s')"
    and "\<And>x w'. h (ap_world s) = (x, w') \<Longrightarrow> grows (ap_db s) (wdb w') \<and> (\<forall>ord \<in> set (answered (wrap x)). stored ord (wdb w'))"
  shows "kept s a s'"
  using assms by (cases "h (ap_world s)") (auto simp: on_world_def kept_def)

lemma on_world_go_kept:
  assumes "on_world_go wrap h s = Ret (a, s')"
    and "\<And>x w'. h (ap_world s) = Ret (x, w') \<Longrightarrow> grows (ap_db s) (wdb w') \<and> (\<forall>ord \<in> set (answered (wrap x)). stored ord (wdb w'))"
  shows "kept s a s'"
  using assms by (cases "h (ap_world s)") (auto simp: on_world_go_def kept_def)

lemma on_cache_kept:
  assumes "on_cache wrap h s = Ret (a, s')"
    and "\<And>x c. h (ap_cache s) = (x, c) \<Longrightarrow> grows (ap_db s) (wdb (fst c))" "\<And>x c. h (ap_cache s) = (x, c) \<Longrightarrow> answered (wrap x) = []"
  shows "kept s a s'"
  using assms by (cases "h (ap_cache s)") (auto simp: on_cache_def kept_def)

lemma quiet_kept: "wdb w' = d \<Longrightarrow> answered a = [] \<Longrightarrow> grows d (wdb w') \<and> (\<forall>ord \<in> set (answered a). stored ord (wdb w'))"
  by simp

lemma handle_kept:
  assumes "handle wi cl r s = Ret (a, s')" "others_grow cl" "port_leaves_db wi"
  shows "kept s a s'"
proof -
  note run = assms(1) [unfolded handle_def Let_def]
  have within: "others_within grows cl" using assms(2) by (simp add: others_grow_def)
  show ?thesis
  proof (cases r)
    case GetHealthz
    then show ?thesis using run by (auto simp: kept_def answered_def)
  next
    case (GetStock i)
    show ?thesis
      by (rule on_world_kept [OF run [unfolded GetStock request.case]])
        (rule quiet_kept, erule quiet_world_handlers(1), erule no_order_answers(1))
  next
    case (GetProduct i)
    show ?thesis
      by (rule on_cache_kept [OF run [unfolded GetProduct request.case]])
        (erule book.get_product_guarantee [OF _ within], erule no_order_answers(12))
  next
    case (GetNocache i)
    show ?thesis
      by (rule on_cache_kept [OF run [unfolded GetNocache request.case]]) (rule book.same, erule nocache_db, erule no_order_answers(9))
  next
    case (PostWarmCache i)
    show ?thesis
      by (rule on_cache_kept [OF run [unfolded PostWarmCache request.case]]) (erule book.warm_cache_guarantee, erule no_order_answers(10))
  next
    case (PostUpdateStock stk i)
    show ?thesis
      by (rule on_cache_kept [OF run [unfolded PostUpdateStock request.case]]) (erule update_stock_grows, erule no_order_answers(11))
  next
    case (GetSlow n)
    show ?thesis
      by (rule on_world_kept [OF run [unfolded GetSlow request.case]]) (simp, rule quiet_kept, erule quiet_world_handlers(2), erule no_order_answers(2))
  next
    case (PostOrders b)
    show ?thesis
      by (rule on_world_kept [OF run [unfolded PostOrders request.case]]) (rule post_orders_grows [OF _ assms(2)])
  next
    case (PostWarmStock i)
    show ?thesis
      by (rule on_world_kept [OF run [unfolded PostWarmStock request.case]])
        (rule quiet_kept, erule quiet_world_handlers(3), erule no_order_answers(3))
  next
    case (PostWarmBuckets n k i)
    show ?thesis
      by (rule on_world_go_kept [OF run [unfolded PostWarmBuckets request.case]])
        (rule quiet_kept, erule quiet_world_handlers(6), erule no_order_answers(6))
  next
    case (GetRemaining n k i)
    show ?thesis
      by (rule on_world_go_kept [OF run [unfolded GetRemaining request.case]])
        (rule quiet_kept, erule quiet_world_handlers(7), erule no_order_answers(7))
  next
    case (PostCrash n)
    then show ?thesis using run no_order_answers(13) by (auto simp: kept_def split: prod.splits)
  next
    case (PostAsyncLedger b)
    then show ?thesis using run quiet_world_handlers(8) no_order_answers(8) by (auto simp: kept_def split: prod.splits)
  next
    case (GetIdentity i initial)
    show ?thesis
      by (rule on_world_kept [OF run [unfolded GetIdentity request.case]])
        (rule quiet_kept, erule quiet_world_handlers(4), erule no_order_answers(4))
  next
    case (PostReconcile window)
    show ?thesis
      by (rule on_world_kept [OF run [unfolded PostReconcile request.case]])
        (rule quiet_kept, erule quiet_world_handlers(5), erule no_order_answers(5))
  next
    case (PostDebugOrder n k approach b)
    show ?thesis
      by (rule on_world_go_kept [OF run [unfolded PostDebugOrder request.case]]) (rule debug_order_grows [OF _ assms(2)])
  next
    case (PostAsync b)
    show ?thesis
      by (rule on_world_go_kept [OF run [unfolded PostAsync request.case]])
        (use http_async_db [OF _ assms(3) [unfolded port_leaves_db_def]] in fastforce)
  next
    case (GetOrder rid)
    show ?thesis
      by (rule on_world_kept [OF run [unfolded GetOrder request.case]]) (use get_order_grows in fastforce)
  qed
qed

lemma serve_kept:
  assumes "serve_request wi cl r s = Some (a, s')" "others_grow cl" "port_leaves_db wi"
  shows "grows (ap_db s) (ap_db s') \<and> (\<forall>ord \<in> set (answered a). stored ord (ap_db s'))
    \<and> ad_slots (gt_admission (ap_gate s')) = ad_slots (gt_admission (ap_gate s))
    \<and> ad_in_flight (gt_admission (ap_gate s')) = ad_in_flight (gt_admission (ap_gate s))"
proof (cases "gated r")
  case False
  then show ?thesis
    using assms(1) handle_kept [OF _ assms(2,3), of r s]
    by (cases "handle wi cl r s") (auto simp: serve_request_def recovered_def kept_def answered_def [of Recovered])
next
  case True
  let ?h = "\<lambda>(b :: answer, s). case handle wi cl r s of Ret (a', s') \<Rightarrow> (Ret (), (a', s')) | Panic \<Rightarrow> (Panic, (Recovered, s))"
  obtain reply g b t where run: "overload_gate (wi_text wi) (cl_clock cl) (cl_slot cl) (cl_others cl) ?h (ap_gate s) (Recovered, s)
      = Some (reply, g, (b, t))"
    and out: "case reply of GateAborted status payload retry \<Rightarrow> a = Refused status payload retry \<and> s' = t\<lparr>ap_gate := g\<rparr>
      | GatePassed _ \<Rightarrow> a = b \<and> s' = t\<lparr>ap_gate := g\<rparr>"
    using assms(1) True by (auto simp: serve_request_def split: option.splits prod.splits gate_reply.splits)
  have slots: "ad_slots (gt_admission g) = ad_slots (gt_admission (ap_gate s))
      \<and> ad_in_flight (gt_admission g) = ad_in_flight (gt_admission (ap_gate s))
      \<and> (case reply of GateAborted status payload _ \<Rightarrow> (b, t) = (Recovered, s)
         | GatePassed x \<Rightarrow> (x, (b, t)) = ?h (Recovered, s))"
    using overload_gate_returns_slot [OF run] assms(2) by (auto simp: others_grow_def split: gate_reply.splits)
  show ?thesis
  proof (cases reply)
    case (GateAborted status payload retry)
    then show ?thesis using out slots by (simp add: answered_def)
  next
    case (GatePassed x)
    then have s': "a = b" "s' = t\<lparr>ap_gate := g\<rparr>" "(x, (b, t)) = ?h (Recovered, s)" using out slots by simp_all
    show ?thesis
    proof (cases "handle wi cl r s")
      case Panic
      then show ?thesis using s' slots by (simp add: answered_def)
    next
      case (Ret y)
      obtain b' t' where "y = (b', t')" by (rule prod.exhaust)
      then have "kept s b t" using handle_kept [OF _ assms(2,3), of r s b t] Ret s'(3) by simp
      then show ?thesis using s' slots by (simp add: kept_def)
    qed
  qed
qed

section \<open>The consumer goroutine\<close>

text \<open>
  Its rounds: whether the loop's context was cancelled when the round begins, and what the poll answers, with the outside of the batch's
  records. A failed poll is logged at most and the loop goes on; a cancelled loop has finished the batch in hand. The flag says that the loop has ended.
\<close>

fun consumer_loop :: "(go_error \<Rightarrow> string) \<Rightarrow> string \<Rightarrow> (bool \<times> (go_error + consumed list) \<times> (nat \<Rightarrow> consumer_env)) list
    \<Rightarrow> world \<times> (int \<rightharpoonup> int) \<Rightarrow> (world \<times> (int \<rightharpoonup> int)) \<times> bool" where
  "consumer_loop text dlt [] s = (s, False)"
| "consumer_loop text dlt ((cancelled, polled, env) # rounds) s =
     (if cancelled then (s, True)
      else (case polled of
          Inl e \<Rightarrow> consumer_loop text dlt rounds s
        | Inr records \<Rightarrow> consumer_loop text dlt rounds (consume_batch text dlt env 0 records s)))"

lemma consumer_loop_stops:
  "\<forall>r \<in> set pre. \<not> fst r \<Longrightarrow> consumer_loop text dlt (pre @ (True, polled, env) # post) s = (fst (consumer_loop text dlt pre s), True)"
proof (induction pre arbitrary: s)
  case (Cons r pre)
  obtain cancelled answer out where "r = (cancelled, answer, out)" by (rule prod_cases3)
  then show ?case using Cons by (simp split: sum.splits)
qed simp

context order_relation
begin

lemma consumer_loop_guarantee: "consumer_loop text dlt rounds (w, c) = ((w', c'), ended) \<Longrightarrow> R (wdb w) (wdb w')"
proof (induction rounds arbitrary: w c)
  case Nil
  then show ?case using refl by simp
next
  case (Cons r rounds)
  obtain cancelled polled env where r: "r = (cancelled, polled, env)" by (rule prod_cases3)
  show ?case
  proof (cases polled)
    case (Inr recs)
    obtain w1 c1 where b: "consume_batch text dlt env 0 recs (w, c) = (w1, c1)" by (rule prod.exhaust)
    then show ?thesis using Cons r Inr consume_batch_guarantee [OF b] trans refl by (cases cancelled) auto
  qed (use Cons r refl in \<open>auto split: if_splits\<close>)
qed

end

lemmas consumer_loop_grows = book.consumer_loop_guarantee

section \<open>The running server\<close>

text \<open>
  Its steps: one request served, some rounds of the consumer goroutine, and anything that happens outside the process (another instance, the
  services, time, the network), as long as the order book only grows. The state also lists the orders the server has answered.
\<close>

inductive api_step :: "wiring \<Rightarrow> order list \<times> api \<Rightarrow> order list \<times> api \<Rightarrow> bool" for wi where
  api_request: "serve_request wi cl r s = Some (a, s') \<Longrightarrow> others_grow cl \<Longrightarrow> api_step wi (given, s) (answered a @ given, s')"
| api_consume: "consumer_loop (wi_text wi) (wi_dlt wi) rounds (ap_world s, ap_offsets s) = ((w', c'), ended)
     \<Longrightarrow> api_step wi (given, s) (given, s\<lparr>ap_cache := (w', snd (ap_cache s)), ap_offsets := c'\<rparr>)"
| api_outside: "grows (ap_db s) (wdb w') \<Longrightarrow> api_step wi (given, s) (given, s\<lparr>ap_cache := (w', snd (ap_cache s))\<rparr>)"

inductive api_reach :: "wiring \<Rightarrow> order list \<times> api \<Rightarrow> order list \<times> api \<Rightarrow> bool" for wi s where
  api_start: "api_reach wi s s"
| api_next: "api_reach wi s t \<Longrightarrow> api_step wi t u \<Longrightarrow> api_reach wi s u"

text \<open>The invariant of the running server, relative to its start.\<close>

definition book_inv :: "api \<Rightarrow> order list \<times> api \<Rightarrow> bool" where
  "book_inv s0 s \<longleftrightarrow> grows (ap_db s0) (ap_db (snd s)) \<and> (\<forall>ord \<in> set (fst s). stored ord (ap_db (snd s)))
     \<and> ad_slots (gt_admission (ap_gate (snd s))) = ad_slots (gt_admission (ap_gate s0))
     \<and> ad_in_flight (gt_admission (ap_gate (snd s))) = ad_in_flight (gt_admission (ap_gate s0))"

lemma api_step_inv:
  assumes "api_step wi s t" "book_inv s0 s" "port_leaves_db wi"
  shows "book_inv s0 t"
  using assms(1)
proof (cases rule: api_step.cases)
  case (api_request cl r s1 a s2 given)
  note k = serve_kept [OF api_request(3,4) assms(3)]
  then show ?thesis
    using assms(2) api_request(1,2) grows_trans stored_grows by (auto simp: book_inv_def)
next
  case (api_consume rounds s1 w' c' ended given)
  then show ?thesis
    using assms(2) consumer_loop_grows [OF api_consume(3)] grows_trans stored_grows by (auto simp: book_inv_def)
next
  case (api_outside s1 w' given)
  then show ?thesis
    using assms(2) grows_trans stored_grows by (auto simp: book_inv_def)
qed

lemma api_reach_inv: "api_reach wi s t \<Longrightarrow> book_inv s0 s \<Longrightarrow> port_leaves_db wi \<Longrightarrow> book_inv s0 t"
  by (induction rule: api_reach.induct) (simp_all add: api_step_inv)

lemma stored_unique:
  assumes "orders_keyed d" "stored a d" "stored b d" "o_request a = o_request b"
  shows "a\<lparr>o_created := 0\<rparr> = b\<lparr>o_created := 0\<rparr>"
proof -
  obtain t u where tu: "a\<lparr>o_created := t\<rparr> \<in> set (orders d)" "b\<lparr>o_created := u\<rparr> \<in> set (orders d)"
    using assms(2,3) by (auto simp: stored_def)
  have inj: "inj_on o_request (set (orders d))" using assms(1) by (simp add: orders_keyed_def distinct_map)
  have "a\<lparr>o_created := t\<rparr> = b\<lparr>o_created := u\<rparr>" by (rule inj_onD [OF inj _ tu]) (simp add: assms(4))
  then have "(a\<lparr>o_created := t\<rparr>)\<lparr>o_created := 0\<rparr> = (b\<lparr>o_created := u\<rparr>)\<lparr>o_created := 0\<rparr>" by simp
  then show ?thesis by simp
qed

section \<open>Properties\<close>

text \<open>
  C5: the order book holds across everything the server does. Whatever requests it serves, through the gate or not, by whichever strategy,
  interleaved with its consumer and with others that only add rows, under every schedule of failing calls: rows are only ever added, their
  keys stay unique, every order it answered is in the table, and two answers for one request id name the same order; and
  every slot of the gate that a request took, it gave back.
\<close>

theorem order_book_holds:
  assumes "api_reach wi ([], s0) (given, s)" "port_leaves_db wi" "orders_keyed (ap_db s0)"
  shows "orders_keyed (ap_db s) \<and> (\<exists>new. orders (ap_db s) = orders (ap_db s0) @ new)
    \<and> (\<forall>ord \<in> set given. stored ord (ap_db s))
    \<and> (\<forall>a \<in> set given. \<forall>b \<in> set given. o_request a = o_request b \<longrightarrow> a\<lparr>o_created := 0\<rparr> = b\<lparr>o_created := 0\<rparr>)
    \<and> ad_slots (gt_admission (ap_gate s)) = ad_slots (gt_admission (ap_gate s0))
    \<and> ad_in_flight (gt_admission (ap_gate s)) = ad_in_flight (gt_admission (ap_gate s0))"
proof -
  have "book_inv s0 ([], s0)" by (simp add: book_inv_def)
  then have inv: "book_inv s0 (given, s)" using api_reach_inv [OF assms(1)] assms(2) by blast
  then have "orders_keyed (ap_db s)" using assms(3) by (simp add: book_inv_def grows_def)
  then show ?thesis using inv stored_unique by (auto simp: book_inv_def grows_def)
qed

text \<open>One order by the pessimistic strategy, and then a lookup of its request: two answers, one order.\<close>

definition demo_call :: call where
  "demo_call = \<lparr>cl_bad = ''bad'', cl_clock = 0, cl_now = 0, cl_accepted = 0, cl_generated = Inr 8, cl_chance = demo_chance, cl_slot = SlotFree,
     cl_others = (\<lambda>a. a), cl_rnd = 0, cl_flight = (\<lambda>k f s. f s), cl_fill = (\<lambda>s. s), cl_pages = [], cl_ctx = (\<lambda>n. None)\<rparr>"

definition demo_wiring :: wiring where
  "demo_wiring = \<lparr>wi_text = (\<lambda>e. ''text''), wi_topic = ''orders'', wi_dlt = ''dead'',
     wi_port = router_place_async (new_router (wire_order ''orders'' 5) (wire_order ''orders'' 5) 0)\<rparr>"

definition demo_api :: api where
  "demo_api = \<lparr>ap_cache = (demo_world, 0), ap_switch = None, ap_gate = demo_gate, ap_offsets = Map.empty\<rparr>"

lemma demo_passes: "others_grow demo_call" "port_leaves_db demo_wiring"
  by (simp_all add: others_grow_def others_within_def demo_call_def demo_chance_def port_leaves_db_def demo_wiring_def router_place_async_def)

lemma demo_gate_passes:
  "\<exists>g'. overload_gate text 0 SlotFree (\<lambda>a. a) h demo_gate w = Some (GatePassed (fst (h w)), g', snd (h w))"
proof -
  have fl: "fl 1 = 1" "fl 2 = 2" using fl_int [of 1] fl_int [of 2] by simp_all
  show ?thesis
    by (cases "h w") (simp add: overload_gate_def demo_gate_def new_token_bucket_def allow_def token_level_def
        duration_seconds_def fl slot_ops admission_release_def signed_divide_int_def signed_modulo_int_def)
qed

lemma demo_served:
  "\<exists>s1. serve_request demo_wiring demo_call (PostDebugOrder [] [] ''pessimistic'' (Some demo_req)) demo_api
       = Some (Debug (200, ApiOrder (new_order 9 demo_req)), s1)
     \<and> orders (ap_db s1) = [(new_order 9 demo_req)\<lparr>o_created := 50\<rparr>] \<and> wfaults (ap_world s1) = []
     \<and> stock_of (ap_db s1) 1 = Some 1"
proof -
  let ?a = "new_order 9 demo_req" and ?r = "PostDebugOrder [] [] ''pessimistic'' (Some demo_req)"
  let ?h = "\<lambda>(b :: answer, s). case handle demo_wiring demo_call ?r s of Ret (a', s') \<Rightarrow> (Ret (), (a', s')) | Panic \<Rightarrow> (Panic, (Recovered, s))"
  obtain g where g: "overload_gate (wi_text demo_wiring) 0 SlotFree (\<lambda>a. a) ?h demo_gate (Recovered, demo_api)
      = Some (GatePassed (fst (?h (Recovered, demo_api))), g, snd (?h (Recovered, demo_api)))"
    by (rule exE [OF demo_gate_passes [of "wi_text demo_wiring" ?h "(Recovered, demo_api)"]])
  obtain s1 where h: "handle demo_wiring demo_call ?r demo_api = Ret (Debug (200, ApiOrder ?a), s1)"
    and s1: "orders (ap_db s1) = [?a\<lparr>o_created := 50\<rparr>]" "wfaults (ap_world s1) = []" "stock_of (ap_db s1) 1 = Some 1"
    using demo_tx_run
    by (simp add: handle_def on_world_go_def http_debug_order_def bind_deduct_def deduct_request_def run_approach_def approach_reply_def
        demo_call_def demo_chance_def demo_api_def demo_req_def) (simp add: demo_world_def stock_of_def)
  have "serve_request demo_wiring demo_call ?r demo_api = Some (Debug (200, ApiOrder ?a), s1\<lparr>ap_gate := g\<rparr>)"
    using g h by (simp add: serve_request_def gated_def demo_call_def demo_api_def)
  then show ?thesis using s1 by (intro exI [of _ "s1\<lparr>ap_gate := g\<rparr>"]) simp
qed

theorem order_book_holds_witness:
  "\<exists>a b s. api_reach demo_wiring ([], demo_api) ([b, a], s) \<and> orders (ap_db s) = [b] \<and> a\<lparr>o_created := 0\<rparr> = b\<lparr>o_created := 0\<rparr>"
proof -
  let ?a = "new_order 9 demo_req" and ?b = "(new_order 9 demo_req)\<lparr>o_created := 50\<rparr>"
  obtain s1 where sv: "serve_request demo_wiring demo_call (PostDebugOrder [] [] ''pessimistic'' (Some demo_req)) demo_api
      = Some (Debug (200, ApiOrder ?a), s1)"
    and s1: "orders (ap_db s1) = [?b]" "wfaults (ap_world s1) = []" using demo_served by blast
  from api_request [OF sv demo_passes(1), of "[]"]
  have 1: "api_step demo_wiring ([], demo_api) ([?a], s1)" by (simp add: answered_def)
  have "serve_request demo_wiring demo_call (GetOrder ''r1'') s1 = Some (Gateway (200, OrderBody ?b), s1)"
    using s1 by (cases s1; cases "ap_cache s1")
      (auto simp: serve_request_def gated_def recovered_def handle_def on_world_def get_order_def path_param_def http_get_order_def adapter_find_order_def
        find_order_def on_db_def next_fault_def query_def select_by_request_def new_order_def demo_req_def)
  from api_request [OF this demo_passes(1), of "[?a]"]
  have "api_step demo_wiring ([?a], s1) ([?b, ?a], s1)" by (simp add: answered_def)
  then have reach: "api_reach demo_wiring ([], demo_api) ([?b, ?a], s1)"
    using api_next [OF api_next [OF api_start 1]] by blast
  have "orders_keyed (ap_db demo_api)" by (simp add: demo_api_def demo_world_def demo_db_def orders_keyed_def)
  from order_book_holds [OF reach demo_passes(2) this] s1(1)
  show ?thesis using reach by (intro exI [of _ ?a] exI [of _ ?b] exI [of _ s1]) (simp add: new_order_def)
qed

end
