(* ===== verification/Traffic.thy ===== *)
theory Traffic
  imports Serving
begin

text \<open>
  The stock under all of the server's traffic. A guarantee in the sense of theory \<open>Guarantee\<close> is carried through every route, the gate, the
  consumer goroutine and what happens outside: first for the routes that check the stock in the write, then for every route that places
  orders. The instances are that nothing is oversold, and that stock and orders balance.
\<close>

section \<open>Rely\<close>

text \<open>
  What the others do in the middle of a request stays within \<open>R\<close>; the row a pessimistic order has locked keeps its stock until the commit.
  \<open>guarded_order\<close> says which requests check the stock in the write, or write no stock.
\<close>

definition row_locked :: "int \<Rightarrow> call \<Rightarrow> bool" where
  "row_locked p cl \<longleftrightarrow> (\<forall>d. stock_of (ch_row2 (cl_chance cl) d) p = stock_of d p)"

definition writes_stock :: "request \<Rightarrow> bool" where
  "writes_stock r \<longleftrightarrow> (case r of PostUpdateStock _ _ \<Rightarrow> True | _ \<Rightarrow> False)"

definition guarded_order :: "call \<Rightarrow> request \<Rightarrow> bool" where
  "guarded_order cl r = (case r of
       PostUpdateStock _ _ \<Rightarrow> False
     | PostOrders (Some b) \<Rightarrow> row_locked (r_product b) cl
     | PostDebugOrder _ _ approach (Some b) \<Rightarrow>
         approach \<notin> {''cas'', ''lock'', ''lua'', ''bucket''} \<and> row_locked (r_product b) cl
     | _ \<Rightarrow> True)"

section \<open>The routes\<close>

lemma on_world_db:
  assumes "on_world wrap h s = Ret (a, s')"
  obtains x w' where "h (ap_world s) = (x, w')" "ap_db s' = wdb w'"
  using assms that by (auto simp: on_world_def split: prod.splits)

lemma on_world_go_db:
  assumes "on_world_go wrap h s = Ret (a, s')"
  obtains x w' where "h (ap_world s) = Ret (x, w')" "ap_db s' = wdb w'"
  using assms that by (auto simp: on_world_go_def split: prod.splits go.splits)

lemma on_cache_db:
  assumes "on_cache wrap h s = Ret (a, s')"
  obtains x c where "h (ap_cache s) = (x, c)" "ap_db s' = wdb (fst c)"
  using assms that by (auto simp: on_cache_def split: prod.splits)

lemma get_order_db: "get_order text rid w = (a, w') \<Longrightarrow> wdb w' = wdb w"
  using get_order_grows by blast

text \<open>A request is refused, or panics, without a trace in the database, or it is handled.\<close>

lemma serve_db:
  assumes "serve_request wi cl r s = Some (a, s')"
  shows "ap_db s' = ap_db s \<or> (\<exists>b t. handle wi cl r s = Ret (b, t) \<and> ap_db s' = ap_db t)"
proof (cases "handle wi cl r s")
  case Panic
  then show ?thesis using assms
    by (auto simp: serve_request_def recovered_def overload_gate_def Let_def split: if_splits option.splits prod.splits gate_reply.splits)
next
  case (Ret y)
  obtain b t where "y = (b, t)" by (rule prod.exhaust)
  then show ?thesis using assms Ret
    by (auto simp: serve_request_def recovered_def overload_gate_def Let_def split: if_splits option.splits prod.splits gate_reply.splits)
qed

context order_relation
begin

text \<open>The routes other than the orders and the stock update leave the database to the others.\<close>

lemma plain_handle_guarantee:
  assumes "handle wi cl r s = Ret (a, s')" "others_within R cl" "port_leaves_db wi" "\<not> writes_stock r"
    and "\<And>b. r \<noteq> PostOrders b" "\<And>n k approach b. r \<noteq> PostDebugOrder n k approach b"
  shows "R (ap_db s) (ap_db s')"
proof -
  note run = assms(1) [unfolded handle_def Let_def]
  show ?thesis
  proof (cases r)
    case GetHealthz
    then show ?thesis using run refl by auto
  next
    case (GetStock i)
    show ?thesis
      by (rule on_world_db [OF run [unfolded GetStock request.case]]) (simp add: same quiet_world_handlers(1))
  next
    case (GetProduct i)
    show ?thesis
      by (rule on_cache_db [OF run [unfolded GetProduct request.case]]) (use get_product_guarantee [OF _ assms(2)] in simp)
  next
    case (GetNocache i)
    show ?thesis
      by (rule on_cache_db [OF run [unfolded GetNocache request.case]]) (simp add: same nocache_db)
  next
    case (PostWarmCache i)
    show ?thesis
      by (rule on_cache_db [OF run [unfolded PostWarmCache request.case]]) (use warm_cache_guarantee in simp)
  next
    case (GetSlow n)
    show ?thesis
      by (rule on_world_db [OF run [unfolded GetSlow request.case]]) (simp add: same quiet_world_handlers(2))
  next
    case (PostWarmStock i)
    show ?thesis
      by (rule on_world_db [OF run [unfolded PostWarmStock request.case]]) (simp add: same quiet_world_handlers(3))
  next
    case (PostWarmBuckets n k i)
    show ?thesis
      by (rule on_world_go_db [OF run [unfolded PostWarmBuckets request.case]]) (simp add: same quiet_world_handlers(6))
  next
    case (GetRemaining n k i)
    show ?thesis
      by (rule on_world_go_db [OF run [unfolded GetRemaining request.case]]) (simp add: same quiet_world_handlers(7))
  next
    case (PostCrash n)
    then show ?thesis using run refl by (auto split: prod.splits)
  next
    case (PostAsyncLedger b)
    then show ?thesis using run quiet_world_handlers(8) same by (auto split: prod.splits)
  next
    case (GetIdentity i initial)
    show ?thesis
      by (rule on_world_db [OF run [unfolded GetIdentity request.case]]) (simp add: same quiet_world_handlers(4))
  next
    case (PostReconcile window)
    show ?thesis
      by (rule on_world_db [OF run [unfolded PostReconcile request.case]]) (simp add: same quiet_world_handlers(5))
  next
    case (PostAsync b)
    show ?thesis
      by (rule on_world_go_db [OF run [unfolded PostAsync request.case]])
        (use http_async_db [OF _ assms(3) [unfolded port_leaves_db_def]] same in fastforce)
  next
    case (GetOrder rid)
    show ?thesis
      by (rule on_world_db [OF run [unfolded GetOrder request.case]]) (simp add: same get_order_db)
  qed (use assms(4-6) in \<open>auto simp: writes_stock_def\<close>)
qed

end

text \<open>An order's handler does nothing to the database, or runs one strategy for the product of the body.\<close>

lemma post_orders_runs:
  assumes "post_orders text ch bad body w = (a, w')"
  shows "wdb w' = wdb w \<or> (\<exists>req x. body = Some req \<and> place_order_tx (ch_id ch) (ch_row1 ch) (ch_row2 ch) req w = (x, w'))"
  using assms
  by (auto simp: post_orders_def http_place_order_def adapter_place_order_def bind_order_def
      split: option.splits if_splits sum.splits prod.splits)

lemma debug_order_runs:
  assumes "http_debug_order text generated ch n k bad approach body w = Ret (a, w')"
  shows "w' = w \<or> (\<exists>b req x. body = Some b \<and> r_product req = r_product b
     \<and> run_approach ch (bucket_cfg_from n k) approach req w = Some (Ret (x, w')))"
  using assms
  by (auto simp: http_debug_order_def bind_deduct_def deduct_request_def split: option.splits sum.splits go.splits if_splits)

context order_relation
begin

lemma guarded_handle_guarantee:
  assumes "handle wi cl r s = Ret (a, s')" "others_within R cl" "port_leaves_db wi" "guarded_order cl r"
  shows "R (ap_db s) (ap_db s')"
proof -
  note run = assms(1) [unfolded handle_def Let_def]
  have env: "R d (ch_row1 (cl_chance cl) d)" "R d (ch_row2 (cl_chance cl) d)" for d
    using assms(2) by (simp_all add: others_within_def)
  have tx: "R (wdb w) (wdb w')"
    if "place_order_tx (ch_id (cl_chance cl)) (ch_row1 (cl_chance cl)) (ch_row2 (cl_chance cl)) req w = (x, w')"
      "row_locked (r_product req) cl" for req w x w'
    using pessimistic_guarantee [OF that(1) env] that(2) by (simp add: row_locked_def)
  show ?thesis
  proof (cases r)
    case (PostOrders b)
    obtain y w' where h: "post_orders (wi_text wi) (cl_chance cl) (cl_bad cl) b (ap_world s) = (y, w')" "ap_db s' = wdb w'"
      by (rule on_world_db [OF run [unfolded PostOrders request.case]])
    have lock: "row_locked (r_product req) cl" if "b = Some req" for req
      using assms(4) PostOrders that by (simp add: guarded_order_def)
    show ?thesis using post_orders_runs [OF h(1)] h(2) tx lock refl by auto
  next
    case (PostDebugOrder n k approach b)
    obtain y w' where h: "http_debug_order (wi_text wi) (cl_generated cl) (cl_chance cl) n k (cl_bad cl) approach b (ap_world s) = Ret (y, w')"
      "ap_db s' = wdb w'"
      by (rule on_world_go_db [OF run [unfolded PostDebugOrder request.case]])
    have ok: "approach \<notin> {''cas'', ''lock'', ''lua'', ''bucket''}" "row_locked (r_product b') cl" if "b = Some b'" for b'
      using assms(4) PostDebugOrder that by (simp_all add: guarded_order_def)
    have "R (ap_db s) (wdb w')"
      if run: "run_approach (cl_chance cl) (bucket_cfg_from n k) approach req (ap_world s) = Some (Ret (x, w'))"
        and b: "b = Some b'" "r_product req = r_product b'" for b' req x
      using run ok [OF b(1)] b(2) tx conditional_guarantee by (auto simp: run_approach_def split: if_splits)
    then show ?thesis using debug_order_runs [OF h(1)] h(2) refl by auto
  next
    case (PostUpdateStock stk i)
    then show ?thesis using assms(4) by (simp add: guarded_order_def)
  qed (rule plain_handle_guarantee [OF assms(1-3)], simp_all add: writes_stock_def)+
qed

end

context book_relation
begin

lemma any_handle_guarantee:
  assumes "handle wi cl r s = Ret (a, s')" "others_within R cl" "port_leaves_db wi" "\<not> writes_stock r"
  shows "R (ap_db s) (ap_db s')"
proof -
  note run = assms(1) [unfolded handle_def Let_def]
  have env: "R d (ch_row1 (cl_chance cl) d)" "R d (ch_row2 (cl_chance cl) d)" "R d (ch_rounds (cl_chance cl) j d)"
    "R (wdb w) (wdb (ch_gate (cl_chance cl) w))" for d j w
    using assms(2) by (simp_all add: others_within_def)
  show ?thesis
  proof (cases r)
    case (PostOrders b)
    obtain y w' where h: "post_orders (wi_text wi) (cl_chance cl) (cl_bad cl) b (ap_world s) = (y, w')" "ap_db s' = wdb w'"
      by (rule on_world_db [OF run [unfolded PostOrders request.case]])
    show ?thesis using post_orders_runs [OF h(1)] h(2) any_pessimistic_guarantee [OF _ env(1,2)] refl by auto
  next
    case (PostDebugOrder n k approach b)
    obtain y w' where h: "http_debug_order (wi_text wi) (cl_generated cl) (cl_chance cl) n k (cl_bad cl) approach b (ap_world s) = Ret (y, w')"
      "ap_db s' = wdb w'"
      by (rule on_world_go_db [OF run [unfolded PostDebugOrder request.case]])
    show ?thesis using debug_order_runs [OF h(1)] h(2) run_approach_guarantee [OF _ env] refl by auto
  qed (rule plain_handle_guarantee [OF assms], simp_all)+
qed

end

section \<open>The running server\<close>

text \<open>
  A step of the server under \<open>R\<close>: a request of the kinds \<open>ok\<close>, rounds of the consumer goroutine, or anything outside the process that
  stays within \<open>R\<close>.
\<close>

inductive traffic_step :: "wiring \<Rightarrow> (database \<Rightarrow> database \<Rightarrow> bool) \<Rightarrow> (call \<Rightarrow> request \<Rightarrow> bool) \<Rightarrow> api \<Rightarrow> api \<Rightarrow> bool"
  for wi R ok where
  traffic_request: "serve_request wi cl r s = Some (a, s') \<Longrightarrow> ok cl r \<Longrightarrow> others_within R cl \<Longrightarrow> traffic_step wi R ok s s'"
| traffic_consume: "consumer_loop (wi_text wi) (wi_dlt wi) rounds (ap_world s, ap_offsets s) = ((w', c'), ended)
     \<Longrightarrow> traffic_step wi R ok s (s\<lparr>ap_cache := (w', snd (ap_cache s)), ap_offsets := c'\<rparr>)"
| traffic_outside: "R (ap_db s) (wdb w') \<Longrightarrow> traffic_step wi R ok s (s\<lparr>ap_cache := (w', snd (ap_cache s))\<rparr>)"

inductive traffic :: "wiring \<Rightarrow> (database \<Rightarrow> database \<Rightarrow> bool) \<Rightarrow> (call \<Rightarrow> request \<Rightarrow> bool) \<Rightarrow> api \<Rightarrow> api \<Rightarrow> bool"
  for wi R ok s where
  traffic_start: "traffic wi R ok s s"
| traffic_next: "traffic wi R ok s t \<Longrightarrow> traffic_step wi R ok t u \<Longrightarrow> traffic wi R ok s u"

context order_relation
begin

lemma traffic_guarantee:
  assumes "traffic wi R ok s t"
    and handled: "\<And>cl r s a s'. handle wi cl r s = Ret (a, s') \<Longrightarrow> others_within R cl \<Longrightarrow> ok cl r \<Longrightarrow> R (ap_db s) (ap_db s')"
  shows "R (ap_db s) (ap_db t)"
  using assms(1)
proof (induction rule: traffic.induct)
  case traffic_start
  then show ?case using refl by simp
next
  case (traffic_next t u)
  have "R (ap_db t) (ap_db u)"
    using traffic_next(2)
  proof (cases rule: traffic_step.cases)
    case (traffic_request cl r a)
    then show ?thesis using serve_db [OF traffic_request(1)] handled refl by metis
  next
    case (traffic_consume rounds w' c' ended)
    then show ?thesis using consumer_loop_guarantee by simp
  next
    case (traffic_outside w')
    then show ?thesis by simp
  qed
  then show ?case using traffic_next(3) trans by blast
qed

lemma guarded_traffic_guarantee:
  assumes "traffic wi R guarded_order s t" "port_leaves_db wi"
  shows "R (ap_db s) (ap_db t)"
  by (rule traffic_guarantee [OF assms(1)]) (rule guarded_handle_guarantee [OF _ _ assms(2)])

end

context book_relation
begin

lemma any_traffic_guarantee:
  assumes "traffic wi R (\<lambda>cl r. \<not> writes_stock r) s t" "port_leaves_db wi"
  shows "R (ap_db s) (ap_db t)"
  by (rule traffic_guarantee [OF assms(1)]) (rule any_handle_guarantee [OF _ _ assms(2)])

end

section \<open>Nothing is oversold, and the books balance\<close>

definition keeps_stock :: "(int \<Rightarrow> int) \<Rightarrow> database \<Rightarrow> database \<Rightarrow> bool" where
  "keeps_stock offer d d' \<longleftrightarrow> (db_inv offer d \<longrightarrow> db_inv offer d')"

interpretation stock_rely: order_relation "keeps_stock offer" for offer
  by unfold_locales (auto simp: keeps_stock_def intro: sale_db_inv)

text \<open>\<open>balance d p\<close> is what was put on sale: the stock and what is ordered of it. Every booking keeps it, checked or not.\<close>

definition balance :: "database \<Rightarrow> int \<Rightarrow> int option" where
  "balance d p = map_option (\<lambda>n. n + ordered_quantity p d) (stock_of d p)"

definition same_balance :: "database \<Rightarrow> database \<Rightarrow> bool" where
  "same_balance d d' \<longleftrightarrow> (\<forall>p. balance d' p = balance d p)"

lemma booked_balance: "booked i req d d' \<Longrightarrow> balance d' p = balance d p"
  by (cases "stock_of d p") (auto simp: balance_def booked_stock booked_ordered)

interpretation balance_rely: book_relation same_balance
  by unfold_locales (auto simp: same_balance_def booked_balance dest: sale_booked)

text \<open>
  C6: the server never oversells on the routes that check the stock in the write. Whatever of them it serves, interleaved with its consumer, its
  reads, reconciliations and warm-ups and with others that keep the same rule, under every schedule of failing calls: if keys are unique, no
  stock is negative and stock and orders make up the offer at the start, then they do ever after. The others may do
  anything that keeps this, and do not move the stock of a row that a pessimistic order has locked.
\<close>

theorem guarded_traffic_never_oversells:
  assumes "traffic wi (keeps_stock offer) guarded_order s0 s" "port_leaves_db wi" "db_inv offer (ap_db s0)"
  shows "db_inv offer (ap_db s)"
  using stock_rely.guarded_traffic_guarantee [OF assms(1,2)] assms(3) by (simp add: keeps_stock_def)

lemma demo_within:
  "R demo_db demo_db \<Longrightarrow> (\<And>d. R d d) \<Longrightarrow> others_within R demo_call"
  by (simp add: others_within_def demo_call_def demo_chance_def)

theorem guarded_traffic_never_oversells_witness:
  "\<exists>s. traffic demo_wiring (keeps_stock (\<lambda>p. 3)) guarded_order demo_api s \<and> stock_of (ap_db s) 1 = Some 1 \<and> db_inv (\<lambda>p. 3) (ap_db s)"
proof -
  obtain s a where s: "serve_request demo_wiring demo_call (PostDebugOrder [] [] ''pessimistic'' (Some demo_req)) demo_api = Some (a, s)"
    "stock_of (ap_db s) 1 = Some 1" using demo_served by blast
  have "guarded_order demo_call (PostDebugOrder [] [] ''pessimistic'' (Some demo_req))"
    by (simp add: guarded_order_def row_locked_def demo_call_def demo_chance_def)
  moreover have "others_within (keeps_stock (\<lambda>p. 3)) demo_call" by (rule demo_within) (simp_all add: keeps_stock_def)
  ultimately have t: "traffic demo_wiring (keeps_stock (\<lambda>p. 3)) guarded_order demo_api s"
    using traffic_next [OF traffic_start traffic_request [OF s(1)]] by blast
  have "db_inv (\<lambda>p. 3) (ap_db demo_api)" using demo_inv by (simp add: demo_api_def demo_world_def)
  from guarded_traffic_never_oversells [OF t demo_passes(2) this] show ?thesis using t s(2) by blast
qed

text \<open>
  C7: the books always balance. Whatever the server serves by whichever of its six strategies (every request but the one that sets a stock),
  interleaved with its consumer and with others that keep the balance, under every schedule of failing calls and whatever Redis does: for
  every product, stock and ordered quantity add up to what they did at the start. Overselling can only show as a negative stock.
\<close>

theorem traffic_balances:
  assumes "traffic wi same_balance (\<lambda>cl r. \<not> writes_stock r) s0 s" "port_leaves_db wi"
  shows "map_option (\<lambda>n. n + ordered_quantity p (ap_db s)) (stock_of (ap_db s) p)
    = map_option (\<lambda>n. n + ordered_quantity p (ap_db s0)) (stock_of (ap_db s0) p)"
  using balance_rely.any_traffic_guarantee [OF assms] by (simp add: same_balance_def balance_def)

text \<open>A version CAS with a conditional sale in its gap, through the gate: the one item is sold twice, and the balance says so.\<close>

definition other_sale :: "database \<Rightarrow> database" where
  "other_sale d = wdb (snd (place_order_by_conditional_update (Inr 2) (buy_one ''b'') (one_item_world\<lparr>wdb := d\<rparr>)))"

definition cas_call :: call where
  "cas_call = demo_call\<lparr>cl_chance := demo_chance\<lparr>ch_id := Inr 1, ch_rounds := (\<lambda>k. other_sale)\<rparr>\<rparr>"

definition cas_api :: api where
  "cas_api = demo_api\<lparr>ap_cache := (one_item_world, 0)\<rparr>"

lemma other_sale_balances: "same_balance d (other_sale d)"
proof -
  obtain x w' where "place_order_by_conditional_update (Inr 2) (buy_one ''b'') (one_item_world\<lparr>wdb := d\<rparr>) = (x, w')" by (rule prod.exhaust)
  then show ?thesis using balance_rely.conditional_guarantee by (fastforce simp: other_sale_def)
qed

lemma cas_served:
  "\<exists>a s. serve_request demo_wiring cas_call (PostDebugOrder [] [] ''cas'' (Some (buy_one ''a''))) cas_api = Some (a, s)
     \<and> stock_of (ap_db s) 1 = Some (-1)"
proof -
  let ?r = "PostDebugOrder [] [] ''cas'' (Some (buy_one ''a''))"
  let ?h = "\<lambda>(b :: answer, s). case handle demo_wiring cas_call ?r s of Ret (a', s') \<Rightarrow> (Ret (), (a', s')) | Panic \<Rightarrow> (Panic, (Recovered, s))"
  obtain g where g: "overload_gate (wi_text demo_wiring) 0 SlotFree (\<lambda>a. a) ?h demo_gate (Recovered, cas_api)
      = Some (GatePassed (fst (?h (Recovered, cas_api))), g, snd (?h (Recovered, cas_api)))"
    by (rule exE [OF demo_gate_passes [of "wi_text demo_wiring" ?h "(Recovered, cas_api)"]])
  obtain oth y w' where oth: "\<forall>d. oth d = wdb (snd (place_order_by_conditional_update (Inr 2) (buy_one ''b'') (one_item_world\<lparr>wdb := d\<rparr>)))"
    and y: "place_order_by_version_cas (Inr 1) (\<lambda>_. oth) (buy_one ''a'') one_item_world = ((Inr y, 1), w')"
    and neg: "stock_of (wdb w') 1 = Some (-1)"
    using cas_and_conditional_oversell by (elim exE conjE)
  have "oth = other_sale" by (rule ext) (simp add: oth other_sale_def)
  then obtain x where run: "place_order_by_version_cas (Inr 1) (\<lambda>k. other_sale) (buy_one ''a'') one_item_world = ((x, 1), w')"
    "stock_of (wdb w') 1 = Some (-1)" using y neg by simp
  have "deduct_request (Inr 8) (buy_one ''a'') = Inr (buy_one ''a'')" "bind_deduct (Some (buy_one ''a'')) = Some (buy_one ''a'')"
    by (simp_all add: deduct_request_def bind_deduct_def buy_one_def)
  then have "handle demo_wiring cas_call ?r cas_api = Ret (Debug (approach_reply (wi_text demo_wiring) x), cas_api\<lparr>ap_cache := (w', 0)\<rparr>)"
    using run(1)
    by (simp add: handle_def on_world_go_def http_debug_order_def run_approach_def cas_call_def demo_call_def demo_chance_def cas_api_def)
  then have "serve_request demo_wiring cas_call ?r cas_api
      = Some (Debug (approach_reply (wi_text demo_wiring) x), cas_api\<lparr>ap_cache := (w', 0), ap_gate := g\<rparr>)"
    using g by (simp add: serve_request_def gated_def cas_call_def demo_call_def cas_api_def demo_api_def)
  then show ?thesis using run(2) by auto
qed

theorem traffic_balances_witness:
  "\<exists>s. traffic demo_wiring same_balance (\<lambda>cl r. \<not> writes_stock r) cas_api s
     \<and> stock_of (ap_db s) 1 = Some (-1) \<and> ordered_quantity 1 (ap_db s) = 2"
proof -
  obtain a s where s: "serve_request demo_wiring cas_call (PostDebugOrder [] [] ''cas'' (Some (buy_one ''a''))) cas_api = Some (a, s)"
    "stock_of (ap_db s) 1 = Some (-1)" using cas_served by blast
  have w: "others_within same_balance cas_call"
    by (simp add: others_within_def cas_call_def demo_call_def demo_chance_def other_sale_balances balance_rely.refl)
  have "\<not> writes_stock (PostDebugOrder [] [] ''cas'' (Some (buy_one ''a'')))" by (simp add: writes_stock_def)
  then have t: "traffic demo_wiring same_balance (\<lambda>cl r. \<not> writes_stock r) cas_api s"
    by (rule traffic_next [OF traffic_start traffic_request [OF s(1) _ w]])
  have "stock_of (ap_db cas_api) 1 = Some 1" "ordered_quantity 1 (ap_db cas_api) = 0"
    by (simp_all add: cas_api_def one_item_world_def demo_world_def demo_db_def stock_of_def ordered_quantity_def)
  then show ?thesis using traffic_balances [OF t demo_passes(2), of 1] t s(2) by auto
qed

end
