(* ===== verification/Startup.thy ===== *)
theory Startup
  imports Serving Wiring Idgen
begin

text \<open>
  How the processes start and end: the \<open>main\<close> functions of \<open>cmd/api\<close>, \<open>cmd/order-service\<close>, \<open>cmd/inventory-service\<close>,
  \<open>cmd/kafka-bootstrap\<close> and \<open>cmd/kafka-smoke\<close> as the sequences of what they acquire, check, construct and defer, with what they read from
  the environment; the operations that are stubs at this commit; and how the two gRPC services end. Whether a library call succeeds is a parameter.
\<close>

section \<open>Stubs\<close>

text \<open>The operations whose body is \<open>panic("TODO: ...")\<close> (\<open>internal/interceptor\<close>, \<open>internal/shard\<close>, \<open>internal/discovery/etcd\<close>).\<close>

definition unary_retry :: "int \<Rightarrow> int \<Rightarrow> string list \<Rightarrow> unit go" where
  "unary_retry max_attempts base_backoff idempotent = Panic"

definition unary_breaker :: "breaker_policy \<Rightarrow> unit go" where
  "unary_breaker policy = Panic"

definition unary_rate_limit :: "int \<Rightarrow> int \<Rightarrow> string list \<Rightarrow> unit go" where
  "unary_rate_limit capacity refill limited = Panic"

definition etcd_register :: "string \<Rightarrow> string \<Rightarrow> string \<Rightarrow> int \<Rightarrow> unit go" where
  "etcd_register service instance_id addr ttl = Panic"

definition shard_route :: "int \<Rightarrow> int go" where
  "shard_route user = Panic"

record 'db shard_store =
  ss_dbs :: "'db list"
  ss_probe :: "nat list option"

definition new_store :: "'db list \<Rightarrow> nat list option \<Rightarrow> 'db shard_store" where
  "new_store dbs probe = \<lparr>ss_dbs = dbs, ss_probe = probe\<rparr>"

definition get_by_order_id :: "'db shard_store \<Rightarrow> int \<Rightarrow> (go_error + order) go" where
  "get_by_order_id store order_id = Panic"

record cursor =
  cu_created :: int
  cu_order :: int

definition shard_list :: "'db shard_store \<Rightarrow> cursor \<Rightarrow> int \<Rightarrow> (go_error + order list \<times> cursor) go" where
  "shard_list store c limit = Panic"

text \<open>What a \<open>main\<close> calls of them, so that the same sequences can be read with the stubs completed.\<close>

record stubs =
  st_retry :: "int \<Rightarrow> int \<Rightarrow> string list \<Rightarrow> unit go"
  st_breaker :: "breaker_policy \<Rightarrow> unit go"
  st_limit :: "int \<Rightarrow> int \<Rightarrow> string list \<Rightarrow> unit go"
  st_register :: "string \<Rightarrow> string \<Rightarrow> string \<Rightarrow> int \<Rightarrow> unit go"

definition commit_stubs :: stubs where
  "commit_stubs = \<lparr>st_retry = unary_retry, st_breaker = unary_breaker, st_limit = unary_rate_limit, st_register = etcd_register\<rparr>"

section \<open>Redis (internal/redisconn)\<close>

record redis_config =
  rc_addr :: string
  rc_password :: string
  rc_db :: int

definition redis_open :: "(redis_config \<Rightarrow> 's \<Rightarrow> 'c \<times> 's) \<Rightarrow> ('c \<Rightarrow> 's \<Rightarrow> go_error option \<times> 's) \<Rightarrow> ('c \<Rightarrow> 's \<Rightarrow> 's)
    \<Rightarrow> redis_config \<Rightarrow> 's \<Rightarrow> (go_error + 'c) \<times> 's" where
  "redis_open new_client ping close cfg s = (case new_client cfg s of (client, s1) \<Rightarrow>
     (case ping client s1 of
        (Some e, s2) \<Rightarrow> (Inl (Wrapped e), close client s2)
      | (None, s2) \<Rightarrow> (Inr client, s2)))"

text \<open>A client that does not answer the ping is closed again.\<close>

lemma redis_open_closes:
  assumes "redis_open new_client ping close cfg s = (Inl e, s')"
    and "\<And>c s1. new_client cfg s = (c, s1) \<Longrightarrow> c \<notin> s \<and> s1 = insert c s" "\<And>c s1. snd (ping c s1) = s1" "\<And>c s1. close c s1 = s1 - {c}"
  shows "s' = s"
proof -
  obtain c s1 where n: "new_client cfg s = (c, s1)" by (rule prod.exhaust)
  obtain x s2 where p: "ping c s1 = (x, s2)" by (rule prod.exhaust)
  show ?thesis
    using assms(1) n p assms(2) [OF n] assms(3) [of c s1] assms(4) [of c s2] by (auto simp: redis_open_def split: option.splits)
qed

section \<open>Metrics (internal/metrics)\<close>

text \<open>\<open>Register\<close> stops at the first collector that is refused; \<open>register\<close> is the registry's operation.\<close>

fun register_collectors :: "('c \<Rightarrow> 's \<Rightarrow> go_error option \<times> 's) \<Rightarrow> 'c list \<Rightarrow> 's \<Rightarrow> go_error option \<times> 's" where
  "register_collectors register [] s = (None, s)"
| "register_collectors register (c # cs) s = (case register c s of
     (Some e, s') \<Rightarrow> (Some e, s') | (None, s') \<Rightarrow> register_collectors register cs s')"

datatype metric_kind = CounterVec | HistogramVec | CounterOnly | GaugeFunc | DBStats

record collector =
  co_kind :: metric_kind
  co_name :: string
  co_labels :: "string list"

definition business_metrics :: "collector list" where
  "business_metrics =
     [\<lparr>co_kind = CounterVec, co_name = ''seckill_orders_placed_total'', co_labels = [''result'']\<rparr>,
      \<lparr>co_kind = HistogramVec, co_name = ''seckill_order_latency_seconds'', co_labels = [''result'']\<rparr>,
      \<lparr>co_kind = CounterVec, co_name = ''seckill_product_reads_total'', co_labels = [''path'']\<rparr>,
      \<lparr>co_kind = HistogramVec, co_name = ''seckill_product_read_latency_seconds'', co_labels = [''path'']\<rparr>,
      \<lparr>co_kind = CounterVec, co_name = ''seckill_deduct_outcomes_total'', co_labels = [''approach'', ''result'']\<rparr>,
      \<lparr>co_kind = HistogramVec, co_name = ''seckill_deduct_latency_seconds'', co_labels = [''approach'']\<rparr>,
      \<lparr>co_kind = CounterOnly, co_name = ''seckill_cas_attempts_total'', co_labels = []\<rparr>]"

definition db_stats :: collector where
  "db_stats = \<lparr>co_kind = DBStats, co_name = ''seckill'', co_labels = []\<rparr>"

definition metrics_register :: "(collector \<Rightarrow> 's \<Rightarrow> go_error option \<times> 's) \<Rightarrow> 's \<Rightarrow> go_error option \<times> 's" where
  "metrics_register register s = (case register_collectors register business_metrics s of
     (Some e, s') \<Rightarrow> (Some e, s') | (None, s') \<Rightarrow> register db_stats s')"

definition register_cache_db_loads :: "(collector \<Rightarrow> 's \<Rightarrow> go_error option \<times> 's) \<Rightarrow> 's \<Rightarrow> go_error option \<times> 's" where
  "register_cache_db_loads register s = register \<lparr>co_kind = GaugeFunc, co_name = ''seckill_product_db_loads'', co_labels = []\<rparr> s"

text \<open>All that \<open>cmd/api\<close> registers have names of their own, so a registry that only refuses names it has takes them all.\<close>

lemma register_distinct:
  assumes "\<And>c s. c \<notin> names s \<Longrightarrow> fst (register c s) = None \<and> names (snd (register c s)) = insert c (names s)"
    and "distinct cs" "set cs \<inter> names s = {}"
  shows "fst (register_collectors register cs s) = None \<and> names (snd (register_collectors register cs s)) = set cs \<union> names s"
  using assms(2,3)
proof (induction cs arbitrary: s)
  case (Cons c cs)
  obtain y s1 where y: "register c s = (y, s1)" by (rule prod.exhaust)
  then have "y = None" "names s1 = insert c (names s)" using assms(1) [of c s] Cons.prems by auto
  then show ?case using Cons.IH [of s1] Cons.prems y by auto
qed simp

lemma metrics_register_fresh:
  assumes "\<And>c s. c \<notin> names s \<Longrightarrow> fst (register c s) = None \<and> names (snd (register c s)) = insert c (names s)" "names s = {}"
  shows "fst (metrics_register register s) = None"
proof -
  obtain y s1 where y: "register_collectors register business_metrics s = (y, s1)" by (rule prod.exhaust)
  have "distinct business_metrics" by (simp add: business_metrics_def)
  from register_distinct [of names register, OF assms(1) this, of s] assms(2) y
  have "y = None" "names s1 = set business_metrics" by auto
  moreover have "db_stats \<notin> set business_metrics" by (simp add: business_metrics_def db_stats_def)
  ultimately show ?thesis using y assms(1) [of "db_stats" s1] by (simp add: metrics_register_def)
qed

section \<open>A process\<close>

text \<open>What a \<open>main\<close> opens, with the configuration it opens it with.\<close>

datatype resource = MySql db_config | OrderShards db_config | RedisClient redis_config | KafkaClient "string list"
  | KafkaConsumer string string "string list" | EtcdClient "string list" | GrpcConn string | TcpListener string
  | Lease string string string int | SmokeTopic

text \<open>
  The statements of a \<open>main\<close> that matter here: open something or \<open>log.Fatalf\<close>; check something or \<open>log.Fatalf\<close>; construct something,
  which may panic; defer a closer; start a goroutine.
\<close>

datatype boot_step = Open resource "go_error option" string | Check "go_error option" string | Construct "unit go"
  | Defer resource | Spawn string

datatype outcome_of_start = Ready | Fatal string go_error | Crashed

record process =
  pc_open :: "resource list"
  pc_deferred :: "resource list"
  pc_running :: "string list"

definition new_process :: process where
  "new_process = \<lparr>pc_open = [], pc_deferred = [], pc_running = []\<rparr>"

text \<open>A panic runs the deferred closers, last one first; \<open>log.Fatalf\<close> exits without them.\<close>

definition run_deferred :: "process \<Rightarrow> process" where
  "run_deferred p = p\<lparr>pc_open := fold removeAll (pc_deferred p) (pc_open p), pc_deferred := []\<rparr>"

fun run_boot :: "boot_step list \<Rightarrow> process \<Rightarrow> outcome_of_start \<times> process" where
  "run_boot [] p = (Ready, p)"
| "run_boot (Open r None msg # ss) p = run_boot ss (p\<lparr>pc_open := r # pc_open p\<rparr>)"
| "run_boot (Open r (Some e) msg # ss) p = (Fatal msg e, p)"
| "run_boot (Check None msg # ss) p = run_boot ss p"
| "run_boot (Check (Some e) msg # ss) p = (Fatal msg e, p)"
| "run_boot (Construct (Ret u) # ss) p = run_boot ss p"
| "run_boot (Construct Panic # ss) p = (Crashed, run_deferred p)"
| "run_boot (Defer r # ss) p = run_boot ss (p\<lparr>pc_deferred := r # pc_deferred p\<rparr>)"
| "run_boot (Spawn g # ss) p = run_boot ss (p\<lparr>pc_running := g # pc_running p\<rparr>)"

section \<open>Configuration\<close>

text \<open>\<open>strings.Split(s, ",")\<close>: always at least one part.\<close>

fun split_comma :: "string \<Rightarrow> string list" where
  "split_comma [] = [[]]"
| "split_comma (c # cs) = (if c = CHR '','' then [] # split_comma cs
     else (case split_comma cs of [] \<Rightarrow> [[c]] | part # parts \<Rightarrow> (c # part) # parts))"

definition db_config_of :: "(string \<Rightarrow> string) \<Rightarrow> db_config" where
  "db_config_of getenv = \<lparr>dc_host = env_or getenv ''DB_HOST'' ''127.0.0.1'', dc_port = env_int_or getenv ''DB_PORT'' 3306,
     dc_user = env_or getenv ''DB_USER'' ''seckill'', dc_password = env_or getenv ''DB_PASSWORD'' ''seckill'',
     dc_name = env_or getenv ''DB_NAME'' ''seckill''\<rparr>"

definition redis_config_of :: "(string \<Rightarrow> string) \<Rightarrow> redis_config" where
  "redis_config_of getenv = \<lparr>rc_addr = env_or getenv ''REDIS_ADDR'' ''127.0.0.1:6379'', rc_password = env_or getenv ''REDIS_PASSWORD'' [],
     rc_db = env_int_or getenv ''REDIS_DB'' 0\<rparr>"

definition brokers_of :: "(string \<Rightarrow> string) \<Rightarrow> string list" where
  "brokers_of getenv = split_comma (env_or getenv ''KAFKA_BROKERS'' ''127.0.0.1:9092'')"

definition etcd_endpoints_of :: "(string \<Rightarrow> string) \<Rightarrow> string list" where
  "etcd_endpoints_of getenv = split_comma (env_or getenv ''ETCD_ENDPOINTS'' ''127.0.0.1:2379'')"

text \<open>\<open>host\<close> and \<open>pid\<close> are \<open>os.Hostname\<close> and \<open>os.Getpid\<close>.\<close>

definition instance_of :: "(string \<Rightarrow> string) \<Rightarrow> string \<Rightarrow> string \<Rightarrow> int \<Rightarrow> string" where
  "instance_of getenv key host pid = env_or getenv key (host @ ''-'' @ show_int pid)"

section \<open>The mains\<close>

text \<open>How the libraries answer: a resource can be opened, a collector registered, a topic found ready, or not.\<close>

record library =
  lb_open :: "resource \<Rightarrow> go_error option"
  lb_register :: "collector \<Rightarrow> go_error option"
  lb_call :: "string \<Rightarrow> go_error option"

definition open_step :: "library \<Rightarrow> resource \<Rightarrow> string \<Rightarrow> boot_step" where
  "open_step lb r msg = Open r (lb_open lb r) msg"

definition open_order_pool :: "stubs \<Rightarrow> library \<Rightarrow> string \<Rightarrow> breaker_policy \<Rightarrow> string \<Rightarrow> boot_step list" where
  "open_order_pool st lb service policy msg = [Construct (st_breaker st policy), open_step lb (GrpcConn (''seckill-etcd:///'' @ service)) msg]"

definition overload_metrics :: "collector list" where
  "overload_metrics =
     [\<lparr>co_kind = CounterVec, co_name = ''seckill_admission_outcomes_total'', co_labels = [''outcome'']\<rparr>,
      \<lparr>co_kind = CounterVec, co_name = ''seckill_ratelimit_outcomes_total'', co_labels = [''outcome'']\<rparr>,
      \<lparr>co_kind = GaugeFunc, co_name = ''seckill_breaker_state'', co_labels = []\<rparr>,
      \<lparr>co_kind = GaugeFunc, co_name = ''seckill_admission_inflight'', co_labels = []\<rparr>]"

definition to_unit :: "'a go \<Rightarrow> unit go" where
  "to_unit x = (case x of Ret _ \<Rightarrow> Ret () | Panic \<Rightarrow> Panic)"

text \<open>The API server: the stores and the topic, then the consumer goroutine, then the pools of order services and the overload layer.\<close>

definition api_stores :: "library \<Rightarrow> (string \<Rightarrow> string) \<Rightarrow> boot_step list" where
  "api_stores lb getenv =
     (let brokers = brokers_of getenv; grp = env_or getenv ''KAFKA_GROUP'' ''seckill-order-writer'' in
      [open_step lb (MySql (db_config_of getenv)) ''connect mysql'',
       Check (case new_node (env_int_or getenv ''NODE_ID'' 1) of Inl e \<Rightarrow> Some e | Inr _ \<Rightarrow> None) ''idgen.NewNode'',
       Check (fst (metrics_register (\<lambda>c s. (lb_register lb c, s)) ())) ''register metrics'',
       open_step lb (RedisClient (redis_config_of getenv)) ''connect redis'',
       open_step lb (KafkaClient brokers) ''new Kafka producer'',
       open_step lb (KafkaConsumer grp (env_or getenv ''KAFKA_TOPIC'' order_created_topic) brokers) ''new Kafka consumer'',
       Check (lb_register lb \<lparr>co_kind = GaugeFunc, co_name = ''seckill_kafka_consumer_group_lag'', co_labels = []\<rparr>) ''register Kafka lag gauge''])"

definition api_gateway :: "stubs \<Rightarrow> library \<Rightarrow> (string \<Rightarrow> string) \<Rightarrow> boot_step list" where
  "api_gateway st lb getenv =
     (let policy = breaker_policy_of_env getenv in
      [Check (fst (register_cache_db_loads (\<lambda>c s. (lb_register lb c, s)) ())) ''register cache metrics'',
       open_step lb (EtcdClient (etcd_endpoints_of getenv)) ''connect etcd'']
      @ open_order_pool st lb ''order'' policy ''order v1 grpc client''
      @ open_order_pool st lb ''order-canary'' policy ''order v2 grpc client''
      @ [Construct (to_unit (new_admission (env_int_or getenv ''ADMISSION_CAPACITY'' 64)
           (to_int64 (env_int_or getenv ''ADMISSION_WAIT_BUDGET_MS'' 50 * 1000000)))),
         Check (fst (register_collectors (\<lambda>c s. (lb_register lb c, s)) overload_metrics ())) ''register m05 overload metrics''])"

definition api_main :: "stubs \<Rightarrow> library \<Rightarrow> (string \<Rightarrow> string) \<Rightarrow> boot_step list" where
  "api_main st lb getenv = api_stores lb getenv @ [Spawn ''consumer loop''] @ api_gateway st lb getenv @ [Spawn ''http server'']"

definition order_service_main :: "stubs \<Rightarrow> library \<Rightarrow> (string \<Rightarrow> string) \<Rightarrow> string \<Rightarrow> int \<Rightarrow> boot_step list" where
  "order_service_main st lb getenv host pid =
     (let version = service_env_or getenv ''ORDER_VERSION'' ''v1'' in
      case order_pool version of (service, listen, advertise) \<Rightarrow>
      let shards = OrderShards ((db_config_of getenv)\<lparr>dc_name := []\<rparr>);
          etcd = EtcdClient (etcd_endpoints_of getenv);
          conn = GrpcConn ''seckill-etcd:///inventory'';
          producer = KafkaClient (brokers_of getenv);
          policy = \<lparr>failure_threshold = service_env_int_or getenv ''INVENTORY_RPC_BREAKER_FAILURE_THRESHOLD'' 5,
            open_for = to_int64 (service_env_int_or getenv ''INVENTORY_RPC_BREAKER_OPEN_MS'' 2000 * 1000000), half_open_probes = 1\<rparr>;
          reserve = ''/seckill.inventory.v1.InventoryService/Reserve''; restore = ''/seckill.inventory.v1.InventoryService/Restore'';
          place = ''/seckill.order.v1.OrderService/PlaceOrderAsync'';
          ident = instance_of getenv ''ORDER_INSTANCE_ID'' host pid;
          addr = service_env_or getenv ''ORDER_ADVERTISE_ADDR'' advertise;
          ttl = service_env_int_or getenv ''ETCD_LEASE_TTL'' 10 in
      [open_step lb shards ''connect order shards'', Defer shards,
       open_step lb etcd ''connect etcd'', Defer etcd,
       Construct (st_breaker st policy),
       Construct (st_retry st (service_env_int_or getenv ''INVENTORY_RPC_MAX_ATTEMPTS'' 3)
         (to_int64 (service_env_int_or getenv ''INVENTORY_RPC_BACKOFF_MS'' 25 * 1000000)) [reserve, restore]),
       open_step lb conn ''inventory grpc client'', Defer conn,
       open_step lb producer ''new Kafka producer'', Defer producer,
       open_step lb (TcpListener (service_env_or getenv ''ORDER_GRPC_ADDR'' listen)) ''listen order grpc'',
       Construct (st_limit st (service_env_int_or getenv ''ORDER_RPC_RATE_LIMIT_CAPACITY'' 500)
         (service_env_int_or getenv ''ORDER_RPC_RATE_LIMIT_REFILL_PER_SECOND'' 500) [place]),
       Construct (st_register st service ident addr ttl),
       open_step lb (Lease service ident addr ttl) ''register order'',
       Spawn ''grpc server''])"

definition inventory_service_main :: "stubs \<Rightarrow> library \<Rightarrow> (string \<Rightarrow> string) \<Rightarrow> string \<Rightarrow> int \<Rightarrow> boot_step list" where
  "inventory_service_main st lb getenv host pid =
     (let db = MySql (db_config_of getenv);
          rdb = RedisClient (redis_config_of getenv);
          etcd = EtcdClient (etcd_endpoints_of getenv);
          reserve = ''/seckill.inventory.v1.InventoryService/Reserve''; restore = ''/seckill.inventory.v1.InventoryService/Restore'';
          ident = instance_of getenv ''INVENTORY_INSTANCE_ID'' host pid;
          addr = service_env_or getenv ''INVENTORY_ADVERTISE_ADDR'' ''127.0.0.1:9082'';
          ttl = service_env_int_or getenv ''ETCD_LEASE_TTL'' 10 in
      [open_step lb db ''connect mysql'', Defer db,
       open_step lb rdb ''connect redis'', Defer rdb,
       open_step lb (TcpListener (service_env_or getenv ''INVENTORY_GRPC_ADDR'' '':9082'')) ''listen inventory grpc'',
       Construct (st_limit st (service_env_int_or getenv ''INVENTORY_RPC_RATE_LIMIT_CAPACITY'' 500)
         (service_env_int_or getenv ''INVENTORY_RPC_RATE_LIMIT_REFILL_PER_SECOND'' 500) [reserve, restore]),
       open_step lb etcd ''connect etcd'', Defer etcd,
       Construct (st_register st ''inventory'' ident addr ttl),
       open_step lb (Lease ''inventory'' ident addr ttl) ''register inventory'',
       Spawn ''grpc server''])"

text \<open>The Kafka tools: \<open>log.Fatal\<close> and \<open>must\<close> exit without the deferred clean-up.\<close>

definition bootstrap_main :: "library \<Rightarrow> (string \<Rightarrow> string) \<Rightarrow> boot_step list" where
  "bootstrap_main lb getenv =
     (let client = KafkaClient (brokers_of getenv) in
      [open_step lb client [], Defer client]
      @ map (\<lambda>topic. Check (lb_call lb (''partitions of '' @ topic)) [])
          [env_or getenv ''KAFKA_TOPIC'' order_created_topic, env_or getenv ''KAFKA_DLT_TOPIC'' order_created_dlt])"

definition smoke_main :: "library \<Rightarrow> int \<Rightarrow> boot_step list" where
  "smoke_main lb now =
     (let topic = ''m04-smoke-'' @ show_int now; grp = topic @ ''-group'';
          admin = KafkaClient [''127.0.0.1:9092'']; consumer = KafkaConsumer grp topic [''127.0.0.1:9092''] in
      [open_step lb admin [], Defer admin, Check (lb_call lb ''ping'') [], Defer SmokeTopic,
       open_step lb SmokeTopic [], Check (lb_call lb ''produce'') [],
       open_step lb consumer [], Defer consumer,
       Check (lb_call lb ''poll'') [], Check (lb_call lb ''commit'') [], Check (lb_call lb ''lag'') []])"

section \<open>What a start comes to\<close>

definition goes_on :: "boot_step \<Rightarrow> bool" where
  "goes_on s = (case s of Open _ e _ \<Rightarrow> e = None | Check e _ \<Rightarrow> e = None | Construct x \<Rightarrow> x \<noteq> Panic | _ \<Rightarrow> True)"

lemma goes_on_simps [simp]:
  "goes_on (Open r e m) \<longleftrightarrow> e = None" "goes_on (Check e m) \<longleftrightarrow> e = None" "goes_on (Construct x) \<longleftrightarrow> x \<noteq> Panic"
  "goes_on (Defer r)" "goes_on (Spawn g)"
  by (simp_all add: goes_on_def)

lemma run_boot_Ready: "fst (run_boot ss p) = Ready \<longleftrightarrow> list_all goes_on ss"
  by (induction ss p rule: run_boot.induct) simp_all

lemma run_boot_append: "list_all goes_on ss \<Longrightarrow> run_boot (ss @ ts) p = run_boot ts (snd (run_boot ss p))"
  by (induction ss p rule: run_boot.induct) simp_all

text \<open>A start that crashed has closed everything it had deferred closing of.\<close>

lemma fold_removeAll: "x \<in> set (fold removeAll ds xs) \<longleftrightarrow> x \<in> set xs \<and> x \<notin> set ds"
  by (induction ds arbitrary: xs) auto

lemma run_boot_crash:
  assumes "run_boot ss p = (Crashed, p')"
  shows "\<exists>pre post. ss = pre @ Construct Panic # post \<and> list_all goes_on pre \<and> p' = run_deferred (snd (run_boot pre p))"
  using assms
proof (induction ss p rule: run_boot.induct)
  case (7 ss p)
  then show ?case by (intro exI [of _ "[]"] exI [of _ ss]) simp
next
  case (2 r msg ss p)
  then obtain pre post where "ss = pre @ Construct Panic # post" "list_all goes_on pre"
    "p' = run_deferred (snd (run_boot pre (p\<lparr>pc_open := r # pc_open p\<rparr>)))" by auto
  then show ?case by (intro exI [of _ "Open r None msg # pre"] exI [of _ post]) simp
next
  case (4 msg ss p)
  then obtain pre post where "ss = pre @ Construct Panic # post" "list_all goes_on pre" "p' = run_deferred (snd (run_boot pre p))" by auto
  then show ?case by (intro exI [of _ "Check None msg # pre"] exI [of _ post]) simp
next
  case (6 u ss p)
  then obtain pre post where "ss = pre @ Construct Panic # post" "list_all goes_on pre" "p' = run_deferred (snd (run_boot pre p))" by auto
  then show ?case by (intro exI [of _ "Construct (Ret u) # pre"] exI [of _ post]) simp
next
  case (8 r ss p)
  then obtain pre post where "ss = pre @ Construct Panic # post" "list_all goes_on pre"
    "p' = run_deferred (snd (run_boot pre (p\<lparr>pc_deferred := r # pc_deferred p\<rparr>)))" by auto
  then show ?case by (intro exI [of _ "Defer r # pre"] exI [of _ post]) simp
next
  case (9 g ss p)
  then obtain pre post where "ss = pre @ Construct Panic # post" "list_all goes_on pre"
    "p' = run_deferred (snd (run_boot pre (p\<lparr>pc_running := g # pc_running p\<rparr>)))" by auto
  then show ?case by (intro exI [of _ "Spawn g # pre"] exI [of _ post]) simp
qed simp_all

text \<open>A smoke run that fails after creating its topic leaves it behind; one that ends well has removed it.\<close>

lemma smoke_leaves_topic:
  assumes "fst (run_boot (smoke_main lb now) new_process) = Fatal msg e" "lb_open lb SmokeTopic = None"
    "lb_open lb (KafkaClient [''127.0.0.1:9092'']) = None" "lb_call lb ''ping'' = None"
  shows "SmokeTopic \<in> set (pc_open (snd (run_boot (smoke_main lb now) new_process)))"
proof -
  have step: "SmokeTopic \<in> set (pc_open p) \<Longrightarrow> fst (run_boot ss p) = Fatal msg e \<Longrightarrow> SmokeTopic \<in> set (pc_open (snd (run_boot ss p)))" for ss p
    by (induction ss p rule: run_boot.induct) simp_all
  show ?thesis using assms by (auto simp: smoke_main_def open_step_def Let_def new_process_def intro!: step)
qed

section \<open>How a service ends\<close>

text \<open>
  The last \<open>select\<close> of the two services. On a signal: health off (where there is a health server), the registration withdrawn, then the
  server stopped, gracefully for ten seconds and by force after them, and the deferred closers. When serving failed the process exits
  without closing anything; when the server was stopped it just returns. The operations of the libraries are parameters, \<open>en_drained\<close> is the time
  in milliseconds after which the calls under way have ended.
\<close>

record 's ending =
  en_not_serving :: "'s \<Rightarrow> 's"
  en_unregister :: "'s \<Rightarrow> go_error option \<times> 's"
  en_stop_accepting :: "'s \<Rightarrow> 's"
  en_drained :: "'s \<Rightarrow> int option"
  en_force :: "'s \<Rightarrow> 's"
  en_close :: "resource \<Rightarrow> 's \<Rightarrow> 's"

datatype service_event = SignalCame | ServeEnded go_error

datatype service_exit = Returned | FatalExit go_error

definition err_server_stopped :: go_error where
  "err_server_stopped = Opaque ''grpc: the server has been stopped''"

definition force_after :: int where
  "force_after = 10000"

definition graceful_stop :: "'s ending \<Rightarrow> 's \<Rightarrow> int \<times> 's" where
  "graceful_stop en s = (let s1 = en_stop_accepting en s in case en_drained en s1 of
       Some t \<Rightarrow> (if t < force_after then (t, s1) else (force_after, en_force en s1))
     | None \<Rightarrow> (force_after, en_force en s1))"

definition service_run :: "bool \<Rightarrow> 's ending \<Rightarrow> service_event \<Rightarrow> resource list \<Rightarrow> 's \<Rightarrow> service_exit \<times> 's" where
  "service_run health en ev deferred s = (case ev of
       SignalCame \<Rightarrow>
         (let s1 = (if health then en_not_serving en s else s);
              s2 = snd (en_unregister en s1);
              s3 = snd (graceful_stop en s2)
          in (Returned, fold (en_close en) deferred s3))
     | ServeEnded e \<Rightarrow> (if errors_is e err_server_stopped then (Returned, fold (en_close en) deferred s) else (FatalExit e, s)))"

text \<open>The inventory service has a health server: it is off before anything else happens, and then the service ends like the others.\<close>

definition inventory_run :: "'s ending \<Rightarrow> service_event \<Rightarrow> resource list \<Rightarrow> 's \<Rightarrow> service_exit \<times> 's" where
  "inventory_run en ev deferred s = service_run True en ev deferred s"

lemma inventory_run_health:
  "inventory_run en SignalCame deferred s = service_run False en SignalCame deferred (en_not_serving en s)"
  "inventory_run en (ServeEnded e) deferred s = service_run False en (ServeEnded e) deferred s"
  by (simp_all add: inventory_run_def service_run_def)

lemma graceful_stop_bounded: "(\<And>s t. en_drained en s = Some t \<Longrightarrow> 0 \<le> t) \<Longrightarrow> 0 \<le> fst (graceful_stop en s) \<and> fst (graceful_stop en s) \<le> 10000"
  by (auto simp: graceful_stop_def force_after_def Let_def split: option.splits)

text \<open>
  The API server: a listener that fails ends the process at once, one that was closed does not; the signal starts the shutdown steps.
  \<open>None\<close> means that nothing of this has happened yet.
\<close>

definition err_http_closed :: go_error where
  "err_http_closed = Opaque ''http: Server closed''"

definition http_addr_of :: "(string \<Rightarrow> string) \<Rightarrow> string" where
  "http_addr_of getenv = env_or getenv ''HTTP_ADDR'' '':8080''"

definition shutdown_timeout_of :: "(string \<Rightarrow> string) \<Rightarrow> int" where
  "shutdown_timeout_of getenv = to_int64 (env_int_or getenv ''SHUTDOWN_TIMEOUT_MS'' 15000 * 1000000)"

fun api_wait :: "service_event list \<Rightarrow> service_exit option" where
  "api_wait [] = None"
| "api_wait (SignalCame # evs) = Some Returned"
| "api_wait (ServeEnded e # evs) = (if errors_is e err_http_closed then api_wait evs else Some (FatalExit e))"

definition api_run :: "('w \<Rightarrow> bool) \<Rightarrow> ('w \<Rightarrow> int) \<Rightarrow> 'w shutdown_step list \<Rightarrow> service_event list \<Rightarrow> 'w
    \<Rightarrow> (service_exit \<times> shutdown_report option \<times> 'w) option" where
  "api_run expired clock steps evs w = (case api_wait evs of
       None \<Rightarrow> None
     | Some (FatalExit e) \<Rightarrow> Some (FatalExit e, None, w)
     | Some Returned \<Rightarrow> (case shutdown expired clock steps w of (rep, w') \<Rightarrow> Some (Returned, Some rep, w')))"

lemma api_run_closes_once:
  assumes "api_run expired clock steps evs w = Some (FatalExit e, rep, w')"
  shows "rep = None \<and> w' = w \<and> \<not> errors_is e err_http_closed"
proof -
  have "api_wait evs = Some (FatalExit e) \<Longrightarrow> \<not> errors_is e err_http_closed"
    by (induction evs rule: api_wait.induct) (auto split: if_splits)
  then show ?thesis using assms by (auto simp: api_run_def split: option.splits service_exit.splits prod.splits)
qed

section \<open>Properties\<close>

lemmas main_defs = api_main_def api_stores_def api_gateway_def order_service_main_def inventory_service_main_def open_order_pool_def open_step_def Let_def
  commit_stubs_def unary_breaker_def unary_retry_def unary_rate_limit_def etcd_register_def

text \<open>With the breaker interceptor completed, when the API server starts.\<close>

lemma api_starts_iff:
  assumes "\<And>policy. st_breaker st policy = Ret ()"
  shows "fst (run_boot (api_main st lb getenv) new_process) = Ready \<longleftrightarrow>
    list_all goes_on (filter (\<lambda>s. case s of Construct _ \<Rightarrow> False | _ \<Rightarrow> True) (api_main st lb getenv))
    \<and> 0 \<le> env_int_or getenv ''ADMISSION_CAPACITY'' 64"
  by (auto simp: run_boot_Ready api_main_def api_stores_def api_gateway_def open_order_pool_def open_step_def Let_def assms to_unit_def new_admission_def)

text \<open>
  at this commit no process of the system serves. Each of the three mains reaches a stub that panics, or stops before it with a
  fatal error. When everything they call answers, the API server crashes with its consumer loop already running and nothing closed; the
  order service closes what it had opened; the inventory service all but its listener.
\<close>

theorem no_process_serves:
  "fst (run_boot (api_main commit_stubs lb getenv) new_process) \<noteq> Ready
   \<and> fst (run_boot (order_service_main commit_stubs lb getenv host pid) new_process) \<noteq> Ready
   \<and> fst (run_boot (inventory_service_main commit_stubs lb getenv host pid) new_process) \<noteq> Ready
   \<and> ((\<forall>r. lb_open lb r = None) \<and> (\<forall>c. lb_register lb c = None) \<longrightarrow>
      (\<exists>p. run_boot (order_service_main commit_stubs lb getenv host pid) new_process = (Crashed, p) \<and> pc_open p = [])
      \<and> (\<exists>p addr. run_boot (inventory_service_main commit_stubs lb getenv host pid) new_process = (Crashed, p)
           \<and> pc_open p = [TcpListener addr])
      \<and> (0 \<le> env_int_or getenv ''NODE_ID'' 1 \<and> env_int_or getenv ''NODE_ID'' 1 \<le> max_node_id \<longrightarrow>
         (\<exists>p. run_boot (api_main commit_stubs lb getenv) new_process = (Crashed, p) \<and> length (pc_open p) = 5
            \<and> pc_running p = [''consumer loop''])))"
proof (intro conjI impI)
  show "fst (run_boot (api_main commit_stubs lb getenv) new_process) \<noteq> Ready"
    "fst (run_boot (order_service_main commit_stubs lb getenv host pid) new_process) \<noteq> Ready"
    "fst (run_boot (inventory_service_main commit_stubs lb getenv host pid) new_process) \<noteq> Ready"
    by (simp_all add: run_boot_Ready main_defs split: prod.splits)
next
  assume lib: "(\<forall>r. lb_open lb r = None) \<and> (\<forall>c. lb_register lb c = None)"
  show "\<exists>p. run_boot (order_service_main commit_stubs lb getenv host pid) new_process = (Crashed, p) \<and> pc_open p = []"
    using lib by (simp add: main_defs run_deferred_def new_process_def split: prod.splits)
  show "\<exists>p addr. run_boot (inventory_service_main commit_stubs lb getenv host pid) new_process = (Crashed, p) \<and> pc_open p = [TcpListener addr]"
    using lib by (simp add: main_defs run_deferred_def new_process_def)
  assume node: "0 \<le> env_int_or getenv ''NODE_ID'' 1 \<and> env_int_or getenv ''NODE_ID'' 1 \<le> max_node_id"
  have reg: "fst (register_collectors (\<lambda>c s. (None, s :: unit)) cs ()) = None" for cs :: "collector list"
    by (induction cs) simp_all
  then have "fst (metrics_register (\<lambda>c s. (None, s :: unit)) ()) = None"
    unfolding metrics_register_def by (metis (mono_tags, lifting) case_prod_conv fst_conv old.unit.exhaust option.simps(4) prod.collapse)
  then show "\<exists>p. run_boot (api_main commit_stubs lb getenv) new_process = (Crashed, p) \<and> length (pc_open p) = 5 \<and> pc_running p = [''consumer loop'']"
    using lib node by (simp add: main_defs run_deferred_def new_process_def new_node_def register_cache_db_loads_def)
qed

theorem no_process_serves_witness:
  "\<exists>p. run_boot (api_main commit_stubs \<lparr>lb_open = (\<lambda>r. None), lb_register = (\<lambda>c. None), lb_call = (\<lambda>c. None)\<rparr> (\<lambda>k. [])) new_process
     = (Crashed, p) \<and> pc_running p = [''consumer loop'']"
proof -
  let ?lb = "\<lparr>lb_open = (\<lambda>r. None), lb_register = (\<lambda>c. None), lb_call = (\<lambda>c. None)\<rparr>"
  have "env_int_or (\<lambda>k. []) ''NODE_ID'' 1 = 1" by (simp add: env_int_or_def)
  then show ?thesis using no_process_serves [of ?lb "\<lambda>k. []"] by (auto simp: max_node_id_def)
qed

end
