(* ===== verification/Verdicts.thy ===== *)
theory Verdicts
  imports Reconcile
begin

text \<open>
  The reconciliation job in its smallest steps: \<open>ReconcileEntry\<close> (\<open>internal/reconcile/p2_reconcile.go\<close>) first asks the database and then
  settles in Redis, and between the two other job processes, accepting calls and the consumer go on. Any number of jobs, each with at most
  one verdict in hand, are interleaved with all of them, and may die between their two calls.
\<close>

section \<open>An entry in two calls\<close>

text \<open>Up to the query, an early return or whether an order was found; and from the settling on.\<close>

definition judge_entry :: "int \<Rightarrow> int \<Rightarrow> entry \<Rightarrow> world \<Rightarrow> (go_error + outcome + bool) \<times> world" where
  "judge_entry window now e w =
     (if e_state e \<noteq> ledger_pending then (Inr (Inl AlreadyReconciled), w)
      else if now - e_created e < window then (Inr (Inl Young), w)
      else (case on_db (query (\<lambda>d. Inr (count_by_request (e_request e) d))) w of
          (Inl er, w1) \<Rightarrow> (Inl er, w1)
        | (Inr cnt, w1) \<Rightarrow> (Inr (Inr (0 < cnt)), w1)))"

definition carry_out :: "entry \<Rightarrow> bool \<Rightarrow> world \<Rightarrow> (go_error + outcome) \<times> world" where
  "carry_out e found w =
     (case settle_entry e (if found then 0 else e_quantity e) w of
        (Inl er, w') \<Rightarrow> (Inl er, w')
      | (Inr ok, w') \<Rightarrow> (Inr (if \<not> ok then AlreadyReconciled else if found then Settled else Refunded), w'))"

text \<open>With nobody in between the two are \<open>ReconcileEntry\<close>.\<close>

lemma reconcile_entry_in_two:
  "reconcile_entry window now e w =
     (case judge_entry window now e w of
        (Inl er, w1) \<Rightarrow> (Inl er, w1)
      | (Inr (Inl oc), w1) \<Rightarrow> (Inr oc, w1)
      | (Inr (Inr found), w1) \<Rightarrow> carry_out e found w1)"
  by (auto simp: reconcile_entry_def judge_entry_def carry_out_def split: prod.splits sum.splits)

lemma judge_entry_cases:
  assumes "judge_entry window now e w = (x, w')"
  shows "wredis w' = wredis w \<and> wdb w' = wdb w \<and> wlog w' = wlog w
    \<and> (\<forall>found. x = Inr (Inr found) \<longrightarrow> found = (e_request e \<in> o_request ` set (orders (wdb w))))"
  using assms
  by (auto simp: judge_entry_def count_by_request_pos split: if_splits prod.splits sum.splits dest!: on_db_query_any)

section \<open>Jobs side by side\<close>

text \<open>
  What each job process holds between its two calls, and what the jobs have answered so far. An accepting call and a delivery are as in
  theory \<open>Reconcile\<close>, with the provisos given there. A further promise is what the window is for: no message of a request is delivered any more
  once a job has found no order for it. A job may judge any entry it has scanned at some time.
\<close>

record job_sys =
  js_world :: world
  js_hands :: "nat \<Rightarrow> (entry \<times> bool) option"
  js_said :: "(string \<times> outcome) list"

inductive job_step :: "job_sys \<Rightarrow> job_sys \<Rightarrow> bool" where
  job_accept: "enqueue_with_ledger now produce req crash (js_world s\<lparr>wfaults := fs\<rparr>) = (err, crash', w') \<Longrightarrow>
     accepting_faults fs \<Longrightarrow> produce_ok produce \<Longrightarrow>
     entry_ok \<lparr>e_request = r_request req, e_product = r_product req, e_quantity = r_quantity req,
       e_created = now, e_state = ledger_pending\<rparr> \<Longrightarrow>
     ledger_entry (wredis (js_world s)) (r_request req) = None \<Longrightarrow>
     r_request req \<notin> o_request ` set (orders (wdb (js_world s))) \<Longrightarrow> job_step s (s\<lparr>js_world := w'\<rparr>)"
| job_deliver: "place_record nid rec (js_world s\<lparr>wfaults := fs\<rparr>) = (x, w') \<Longrightarrow>
     request_from_record (k_value rec) = Inr req \<Longrightarrow>
     ledger_entry (wredis (js_world s)) (r_request req) = Some e \<Longrightarrow> e_state e = ledger_pending \<Longrightarrow>
     e_product e = r_product req \<Longrightarrow> e_quantity e = r_quantity req \<Longrightarrow>
     (\<And>j e'. js_hands s j = Some (e', False) \<Longrightarrow> e_request e' \<noteq> r_request req) \<Longrightarrow> job_step s (s\<lparr>js_world := w'\<rparr>)"
| job_judge: "judge_entry window now e (js_world s\<lparr>wfaults := fs\<rparr>) = (Inr (Inr found), w') \<Longrightarrow>
     current (wredis (js_world s)) e \<Longrightarrow> js_hands s j = None \<Longrightarrow>
     job_step s (s\<lparr>js_world := w', js_hands := (js_hands s)(j \<mapsto> (e, found))\<rparr>)"
| job_settle: "js_hands s j = Some (e, found) \<Longrightarrow> carry_out e found (js_world s\<lparr>wfaults := fs\<rparr>) = (x, w') \<Longrightarrow>
     job_step s (s\<lparr>js_world := w', js_hands := (js_hands s)(j := None),
       js_said := (case x of Inl er \<Rightarrow> [] | Inr oc \<Rightarrow> [(e_request e, oc)]) @ js_said s\<rparr>)"
| job_dies: "job_step s (s\<lparr>js_hands := (js_hands s)(j := None)\<rparr>)"

inductive job_reach :: "job_sys \<Rightarrow> job_sys \<Rightarrow> bool" for s where
  job_start: "job_reach s s"
| job_next: "job_reach s t \<Longrightarrow> job_step t u \<Longrightarrow> job_reach s u"

definition ordered :: "world \<Rightarrow> string \<Rightarrow> bool" where
  "ordered w rid \<longleftrightarrow> rid \<in> o_request ` set (orders (wdb w))"

text \<open>
  A verdict in hand is right as long as it can still have an effect; a verdict that was answered is final, was answered once, and agrees
  with the table of orders.
\<close>

definition verdicts :: "(string \<times> outcome) list \<Rightarrow> (string \<times> outcome) list" where
  "verdicts said = filter (\<lambda>(rid, oc). oc = Refunded \<or> oc = Settled) said"

definition hands_ok :: "job_sys \<Rightarrow> bool" where
  "hands_ok s \<longleftrightarrow> (\<forall>j e found. js_hands s j = Some (e, found) \<longrightarrow> current (wredis (js_world s)) e
     \<and> (found \<longrightarrow> ordered (js_world s) (e_request e))
     \<and> (\<not> found \<longrightarrow> ordered (js_world s) (e_request e) \<longrightarrow> ledger_done (wredis (js_world s)) (e_request e)))"

definition said_ok :: "job_sys \<Rightarrow> bool" where
  "said_ok s \<longleftrightarrow> distinct (map fst (verdicts (js_said s)))
     \<and> (\<forall>(rid, oc) \<in> set (verdicts (js_said s)). ledger_done (wredis (js_world s)) rid \<and> (ordered (js_world s) rid \<longleftrightarrow> oc = Settled))"

definition job_inv :: "(int \<Rightarrow> int) \<Rightarrow> job_sys \<Rightarrow> bool" where
  "job_inv initial s \<longleftrightarrow> accounted initial (js_world s) \<and> hands_ok s \<and> said_ok s"

section \<open>What an accepting call leaves alone\<close>

lemma ledger_call_frame:
  "pre_deduct p q w = (x, w') \<Longrightarrow> k \<noteq> stock_key p \<Longrightarrow> rlookup (wredis w') k = rlookup (wredis w) k"
  "k \<noteq> stock_key p \<Longrightarrow> rlookup (wredis (snd (rollback_pre_deduct p q w))) k = rlookup (wredis w) k"
  "record_pre_deduct req now w = (y, w') \<Longrightarrow> k \<noteq> ledger_key (r_request req) \<Longrightarrow> rlookup (wredis w') k = rlookup (wredis w) k"
  "settle_entry e q w = (z, w') \<Longrightarrow> k \<noteq> ledger_key (e_request e) \<Longrightarrow> k \<noteq> stock_key (e_product e)
     \<Longrightarrow> rlookup (wredis w') k = rlookup (wredis w) k"
proof -
  have script: "rlookup (snd (pre_deduct_script (stock_key p) q r)) k = rlookup r k" if "k \<noteq> stock_key p" for r
    using incrby_other [OF that, of "- q" r]
    by (auto simp: pre_deduct_script_def decrby_def split: option.splits rvalue.splits payload.splits)
  show "rlookup (wredis w') k = rlookup (wredis w) k" if "pre_deduct p q w = (x, w')" "k \<noteq> stock_key p"
    using that(1) script [OF that(2)]
    by (auto simp: pre_deduct_def split: prod.splits sum.splits if_splits dest!: on_redis_cases)
  show "rlookup (wredis (snd (rollback_pre_deduct p q w))) k = rlookup (wredis w) k" if "k \<noteq> stock_key p"
    using incrby_other [OF that, of q]
    by (auto simp: rollback_pre_deduct_def rollback_script_def split: prod.splits sum.splits dest!: on_redis_cases)
  show "rlookup (wredis w') k = rlookup (wredis w) k" if "record_pre_deduct req now w = (y, w')" "k \<noteq> ledger_key (r_request req)"
    using that
    by (auto simp: record_pre_deduct_def redis_setnx_def split: prod.splits sum.splits option.splits if_splits dest!: on_redis_cases)
  have settle: "rlookup (snd (settle_script (ledger_key (e_request e)) (stock_key (e_product e)) q v r)) k = rlookup r k"
    if "k \<noteq> ledger_key (e_request e)" "k \<noteq> stock_key (e_product e)" for v r
    using incrby_other [OF that(2), of q r] that(1)
    by (auto simp: settle_script_def split: option.splits rvalue.splits sum.splits prod.splits)
  show "rlookup (wredis w') k = rlookup (wredis w) k"
    if "settle_entry e q w = (z, w')" "k \<noteq> ledger_key (e_request e)" "k \<noteq> stock_key (e_product e)"
    using that(1) settle [OF that(2,3)]
    by (auto simp: settle_entry_def split: prod.splits sum.splits dest!: on_redis_cases)
qed

lemma enqueue_with_ledger_frame:
  assumes "enqueue_with_ledger now produce req crash w = (err, crash', w')" "produce_ok produce"
    and "k \<noteq> ledger_key (r_request req)" "k \<noteq> stock_key (r_product req)"
  shows "rlookup (wredis w') k = rlookup (wredis w) k"
proof -
  have prod: "rlookup (wredis v') k = rlookup (wredis v) k" if "produce v = (x, v')" for v x v'
    using assms(2) that by (simp add: produce_ok_def)
  show ?thesis
    using assms(1,3,4)
    by (auto simp: enqueue_with_ledger_def ledger_call_frame(2) split: prod.splits sum.splits bool.splits
        dest!: ledger_call_frame(1,3,4) [of _ _ _ _ _ k] prod)
qed

lemma enqueue_with_ledger_entries:
  assumes "enqueue_with_ledger now produce req crash w = (err, crash', w')" "produce_ok produce" "rid \<noteq> r_request req"
  shows "ledger_entry (wredis w') rid = ledger_entry (wredis w) rid"
  using enqueue_with_ledger_frame [OF assms(1,2), of "ledger_key rid"] assms(3) by (simp add: ledger_entry_def)

section \<open>The invariant\<close>

text \<open>What a step may do to the stores beside the account.\<close>

definition calm_change :: "job_sys \<Rightarrow> world \<Rightarrow> bool" where
  "calm_change s w' \<longleftrightarrow>
     (\<forall>e. current (wredis (js_world s)) e \<longrightarrow> current (wredis w') e)
     \<and> (\<forall>rid. ledger_done (wredis (js_world s)) rid \<longrightarrow> ledger_done (wredis w') rid)
     \<and> (\<forall>rid. ordered (js_world s) rid \<longrightarrow> ordered w' rid)
     \<and> (\<forall>rid. ordered w' rid \<longrightarrow> ledger_done (wredis (js_world s)) rid \<longrightarrow> ordered (js_world s) rid)
     \<and> (\<forall>j e. js_hands s j = Some (e, False) \<longrightarrow> ordered w' (e_request e) \<longrightarrow> ordered (js_world s) (e_request e))"

lemma calm_changeD:
  assumes "calm_change s w'"
  shows "current (wredis (js_world s)) e \<Longrightarrow> current (wredis w') e"
    "ledger_done (wredis (js_world s)) rid \<Longrightarrow> ledger_done (wredis w') rid"
    "ordered (js_world s) rid \<Longrightarrow> ordered w' rid"
    "ordered w' rid \<Longrightarrow> ledger_done (wredis (js_world s)) rid \<Longrightarrow> ordered (js_world s) rid"
    "js_hands s j = Some (e, False) \<Longrightarrow> ordered w' (e_request e) \<Longrightarrow> ordered (js_world s) (e_request e)"
  using assms unfolding calm_change_def by blast+

lemma hands_okD:
  assumes "hands_ok s" "js_hands s j = Some (e, found)"
  shows "current (wredis (js_world s)) e" "found \<longrightarrow> ordered (js_world s) (e_request e)"
    "\<not> found \<longrightarrow> ordered (js_world s) (e_request e) \<longrightarrow> ledger_done (wredis (js_world s)) (e_request e)"
  using assms(1) [unfolded hands_ok_def, rule_format, OF assms(2)] by simp_all

lemma calm_change_hands:
  assumes "hands_ok s" "calm_change s w'"
  shows "hands_ok (s\<lparr>js_world := w'\<rparr>)"
proof -
  have "current (wredis w') e \<and> (found \<longrightarrow> ordered w' (e_request e))
      \<and> (\<not> found \<longrightarrow> ordered w' (e_request e) \<longrightarrow> ledger_done (wredis w') (e_request e))"
    if h: "js_hands s j = Some (e, found)" for j e found
  proof -
    note old = hands_okD [OF assms(1) h]
    show ?thesis
    proof (cases found)
      case True
      then show ?thesis using old calm_changeD(1,3) [OF assms(2)] by simp
    next
      case False
      then have "ordered w' (e_request e) \<longrightarrow> ordered (js_world s) (e_request e)"
        using calm_changeD(5) [OF assms(2)] h by simp
      then show ?thesis using False old calm_changeD(1,2) [OF assms(2)] by simp
    qed
  qed
  then show ?thesis by (simp add: hands_ok_def)
qed

lemma calm_change_said: "said_ok s \<Longrightarrow> calm_change s w' \<Longrightarrow> said_ok (s\<lparr>js_world := w'\<rparr>)"
  unfolding said_ok_def by (simp add: case_prod_unfold) (meson calm_changeD(2-4))

lemma calm_change_inv: "job_inv initial s \<Longrightarrow> calm_change s w' \<Longrightarrow> accounted initial w' \<Longrightarrow> job_inv initial (s\<lparr>js_world := w'\<rparr>)"
  by (simp add: job_inv_def calm_change_hands calm_change_said)

lemma same_stores_calm: "wredis w' = wredis (js_world s) \<Longrightarrow> wdb w' = wdb (js_world s) \<Longrightarrow> calm_change s w'"
  by (simp add: calm_change_def ordered_def)

lemma accept_calm:
  assumes "enqueue_with_ledger now produce req crash (js_world s\<lparr>wfaults := fs\<rparr>) = (err, crash', w')" "produce_ok produce"
    and "ledger_entry (wredis (js_world s)) (r_request req) = None" "wdb w' = wdb (js_world s)"
  shows "calm_change s w'"
proof -
  have same: "ledger_entry (wredis w') rid = ledger_entry (wredis (js_world s)) rid" if "rid \<noteq> r_request req" for rid
    using enqueue_with_ledger_entries [OF assms(1,2) that] by simp
  have "current (wredis w') e" if "current (wredis (js_world s)) e" for e
    using that assms(3) same [of "e_request e"] by (cases "e_request e = r_request req") (auto simp: current_def)
  moreover have "ledger_done (wredis w') rid" if "ledger_done (wredis (js_world s)) rid" for rid
    using that assms(3) same [of rid] by (cases "rid = r_request req") (auto simp: ledger_done_def)
  ultimately show ?thesis using assms(4) by (simp add: calm_change_def ordered_def)
qed

lemma place_record_rows:
  assumes "place_record nid rec w = (x, w')" "request_from_record (k_value rec) = Inr req"
  shows "wredis w' = wredis w \<and> (ordered w rid \<longrightarrow> ordered w' rid) \<and> (ordered w' rid \<longrightarrow> ordered w rid \<or> rid = r_request req)"
proof -
  have run: "place_order_tx nid (\<lambda>d. d) (\<lambda>d. d) req w = (x, w')" using assms by (simp add: place_record_def)
  show ?thesis using place_order_tx_cases [OF run refl] by (auto simp: ordered_def sale_def booked_def)
qed

lemma settle_true_pending:
  assumes "settle_entry e q w = (Inr True, w')" "ledger_ok (wredis w)" "current (wredis w) e" "0 \<le> q"
  shows "\<not> ledger_done (wredis w) (e_request e)"
  using settle_entry_effect [OF assms] by (auto simp: ledger_done_def)

lemma job_settle_inv:
  assumes "js_hands s j = Some (e, found)" "carry_out e found (js_world s\<lparr>wfaults := fs\<rparr>) = (x, w')" "job_inv initial s"
  shows "job_inv initial (s\<lparr>js_world := w', js_hands := (js_hands s)(j := None),
       js_said := (case x of Inl er \<Rightarrow> [] | Inr oc \<Rightarrow> [(e_request e, oc)]) @ js_said s\<rparr>)"
proof -
  let ?w = "js_world s" and ?q = "if found then 0 else e_quantity e"
  have inv: "accounted initial ?w" "hands_ok s" "said_ok s" using assms(3) by (simp_all add: job_inv_def)
  note h = hands_okD [OF inv(2) assms(1)]
  have ok: "ledger_ok (wredis ?w)" using inv(1) by (simp add: accounted_def)
  have q0: "0 \<le> ?q" using current_ok [OF ok h(1)] by (simp add: entry_ok_def)
  obtain z where z: "settle_entry e ?q (?w\<lparr>wfaults := fs\<rparr>) = (z, w')"
    and x: "x = map_sum id (\<lambda>ok. if \<not> ok then AlreadyReconciled else if found then Settled else Refunded) z"
    using assms(2) by (auto simp: carry_out_def split: prod.splits sum.splits)
  have "?q = (if e_request e \<in> o_request ` set (orders (wdb ?w)) then 0 else e_quantity e)"
    if "ledger_entry (wredis ?w) (e_request e) = Some (e\<lparr>e_state := ledger_pending\<rparr>)"
    using h(2,3) that by (auto simp: ordered_def ledger_done_def)
  then have a: "accounted initial w'" "wdb w' = wdb ?w" "\<forall>e'. current (wredis ?w) e' \<longrightarrow> current (wredis w') e'"
    "\<forall>rid. ledger_done (wredis ?w) rid \<longrightarrow> ledger_done (wredis w') rid" "z = Inr True \<longrightarrow> ledger_done (wredis w') (e_request e)"
    using settle_entry_accounts [OF z, of initial] inv(1) h(1) q0 by simp_all
  then have calm: "calm_change s w'" by (simp add: calm_change_def ordered_def)
  have hands: "hands_ok (s\<lparr>js_world := w', js_hands := (js_hands s)(j := None), js_said := said\<rparr>)" for said
    using calm_change_hands [OF inv(2) calm] by (simp add: hands_ok_def)
  have said: "said_ok (s\<lparr>js_world := w'\<rparr>)" by (rule calm_change_said [OF inv(3) calm])
  show ?thesis
  proof (cases "z = Inr True")
    case True
    have pend: "\<not> ledger_done (wredis ?w) (e_request e)"
      using settle_true_pending [of e ?q "?w\<lparr>wfaults := fs\<rparr>" w'] z True ok h(1) q0 by simp
    then have new: "e_request e \<notin> fst ` set (verdicts (js_said s))" using inv(3) by (force simp: said_ok_def)
    have "ordered w' (e_request e) \<longleftrightarrow> found" using h(2,3) pend a(2) by (auto simp: ordered_def)
    then show ?thesis
      using a(1,5) hands said True x new by (auto simp: job_inv_def said_ok_def verdicts_def)
  next
    case False
    then have "verdicts ((case x of Inl er \<Rightarrow> [] | Inr oc \<Rightarrow> [(e_request e, oc)]) @ js_said s) = verdicts (js_said s)"
      using x by (cases z) (auto simp: verdicts_def)
    then show ?thesis using a(1) hands said by (simp add: job_inv_def said_ok_def)
  qed
qed

lemma job_step_inv:
  assumes "job_step s t" "job_inv initial s"
  shows "job_inv initial t"
  using assms(1)
proof (cases rule: job_step.cases)
  case (job_accept now produce req crash fs err crash' w')
  have a: "accounted initial w' \<and> wdb w' = wdb (js_world s)"
    using enqueue_with_ledger_accounts [OF job_accept(2), of initial] job_accept(3-7) assms(2) by (simp add: job_inv_def)
  then show ?thesis using calm_change_inv [OF assms(2) accept_calm [OF job_accept(2,4,6)]] job_accept(1) by simp
next
  case (job_deliver nid rec fs x w' req e)
  note rows = place_record_rows [OF job_deliver(2,3)]
  have "accounted initial w'"
    using place_record_accounts [OF job_deliver(2), of initial req e] job_deliver(3-7) assms(2) by (simp add: job_inv_def)
  moreover have "\<not> ledger_done (wredis (js_world s)) (r_request req)" using job_deliver(4,5) by (simp add: ledger_done_def)
  then have "calm_change s w'" using rows job_deliver(8) by (fastforce simp: calm_change_def ordered_def)
  ultimately show ?thesis using calm_change_inv [OF assms(2)] job_deliver(1) by simp
next
  case (job_judge window now e fs found w' j)
  note q = judge_entry_cases [OF job_judge(2)]
  have "job_inv initial (s\<lparr>js_world := w'\<rparr>)"
    using calm_change_inv [OF assms(2) same_stores_calm] q assms(2) by (simp add: job_inv_def accounted_def)
  then show ?thesis using q job_judge(1,3) by (auto simp: job_inv_def hands_ok_def said_ok_def ordered_def)
next
  case (job_settle j e found fs x w')
  then show ?thesis using job_settle_inv [OF job_settle(2,3) assms(2)] by simp
next
  case (job_dies j)
  then show ?thesis using assms(2) by (auto simp: job_inv_def hands_ok_def said_ok_def)
qed

lemma job_reach_inv: "job_reach s t \<Longrightarrow> job_inv initial s \<Longrightarrow> job_inv initial t"
  by (induction rule: job_reach.induct) (simp_all add: job_step_inv)

section \<open>Properties\<close>

text \<open>
  C15: any number of reconciliation jobs may run at once. However their queries and settlings, the accepting calls and the consumer are
  interleaved, with jobs dying between their two calls and any call of a job or a delivery failing: the account holds at every moment, so stock
  is given back exactly once; every request gets at most one verdict, and it is \<open>Settled\<close> if and only if there is an order. The provisos are
  those of \<open>job_step\<close>: an accepting call uses a request id with neither an entry nor an order and a positive 64-bit quantity, its pre-deduction
  may be lost and its record, rollback and settling left unanswered, but not the other way round (theory \<open>Reconcile\<close> shows that these break the
  account); a message is delivered while its entry is pending, for the same product and quantity, and not once a job has
  found no order for its request.
\<close>

theorem concurrent_jobs_accounted:
  assumes "job_reach s t" "accounted initial (js_world s)" "js_hands s = (\<lambda>j. None)" "js_said s = []"
  shows "accounted initial (js_world t) \<and> distinct (map fst (verdicts (js_said t)))
    \<and> (\<forall>(rid, oc) \<in> set (verdicts (js_said t)). rid \<in> o_request ` set (orders (wdb (js_world t))) \<longleftrightarrow> oc = Settled)"
proof -
  have "job_inv initial s" using assms(2-4) by (simp add: job_inv_def hands_ok_def said_ok_def verdicts_def)
  then have "job_inv initial t" using job_reach_inv [OF assms(1)] by blast
  then show ?thesis by (auto simp: job_inv_def said_ok_def ordered_def)
qed

text \<open>Two jobs find the entry of the crashed call without an order; the first gives the two items back, the second nothing.\<close>

definition crashed_jobs :: job_sys where
  "crashed_jobs = \<lparr>js_world = crashed_world, js_hands = (\<lambda>j. None), js_said = []\<rparr>"

lemma crashed_facts:
  "wfaults crashed_world = []" "crashed_world\<lparr>wfaults := []\<rparr> = crashed_world" "orders (wdb crashed_world) = []"
  "current (wredis crashed_world) demo_entry"
proof -
  show "wfaults crashed_world = []" by (simp add: crashed_world_eq warm_world_facts(3))
  then show "crashed_world\<lparr>wfaults := []\<rparr> = crashed_world" by simp
  show "orders (wdb crashed_world) = []" by (simp add: crashed_world_eq warm_world_facts(4) demo_db_def)
  have "ledger_entry (wredis crashed_world) (e_request demo_entry) = Some demo_entry"
    by (simp add: crashed_world_eq ledger_entry_def decode_encode entry_ok_def demo_entry_def fits_int64_def)
  then show "current (wredis crashed_world) demo_entry"
    unfolding current_def by (intro exI [of _ ledger_pending]) (simp add: demo_entry_def)
qed

lemma crashed_judged: "judge_entry 60 2000 demo_entry crashed_world = (Inr (Inr False), crashed_world)"
  using crashed_facts
  by (simp add: judge_entry_def demo_entry_def on_db_def next_fault_def query_def count_by_request_def)

lemma crashed_settled:
  "\<exists>w. carry_out demo_entry False crashed_world = (Inr Refunded, w) \<and> gate_stock (wredis w) 1 = 3
     \<and> carry_out demo_entry False (w\<lparr>wfaults := []\<rparr>) = (Inr AlreadyReconciled, w)"
proof -
  have lk: "rlookup (wredis crashed_world) (ledger_key ''r1'') = Some (RString (encode_entry demo_entry))"
    "rlookup (wredis crashed_world) (stock_key 1) = Some (RString (Num 1))"
    by (simp_all add: crashed_world_eq)
  show ?thesis
    using lk crashed_facts(1)
    by (simp add: carry_out_def settle_entry_def settle_script_def lua_state_encode incrby_def on_redis_def next_fault_def
        demo_entry_def ledger_pending_def ledger_reconciled_def fits_int64_def gate_stock_def counter_def)
qed

theorem concurrent_jobs_accounted_witness:
  "\<exists>t. job_reach crashed_jobs t \<and> js_said t = [(''r1'', AlreadyReconciled), (''r1'', Refunded)]
     \<and> gate_stock (wredis (js_world t)) 1 = 3 \<and> accounted (\<lambda>p. if p = 1 then 3 else 0) (js_world t)"
proof -
  obtain w where w: "carry_out demo_entry False crashed_world = (Inr Refunded, w)" "gate_stock (wredis w) 1 = 3"
    "carry_out demo_entry False (w\<lparr>wfaults := []\<rparr>) = (Inr AlreadyReconciled, w)" using crashed_settled by blast
  let ?s1 = "crashed_jobs\<lparr>js_hands := [0 \<mapsto> (demo_entry, False)]\<rparr>"
  let ?s2 = "crashed_jobs\<lparr>js_hands := [0 \<mapsto> (demo_entry, False), 1 \<mapsto> (demo_entry, False)]\<rparr>"
  let ?s3 = "\<lparr>js_world = w, js_hands = [1 \<mapsto> (demo_entry, False)], js_said = [(''r1'', Refunded)]\<rparr>"
  let ?s4 = "\<lparr>js_world = w, js_hands = (\<lambda>j. None), js_said = [(''r1'', AlreadyReconciled), (''r1'', Refunded)]\<rparr>"
  have 1: "job_step crashed_jobs ?s1"
    using job_judge [of 60 2000 demo_entry "[]" crashed_jobs False crashed_world 0] crashed_judged crashed_facts
    by (simp add: crashed_jobs_def)
  have 2: "job_step ?s1 ?s2"
    using job_judge [of 60 2000 demo_entry "[]" ?s1 False crashed_world 1] crashed_judged crashed_facts
    by (simp add: crashed_jobs_def)
  have 3: "job_step ?s2 ?s3"
    using job_settle [of ?s2 0 demo_entry False "[]" "Inr Refunded" w] w(1) crashed_facts
    by (simp add: crashed_jobs_def demo_entry_def fun_upd_twist)
  have 4: "job_step ?s3 ?s4"
    using job_settle [of ?s3 1 demo_entry False "[]" "Inr AlreadyReconciled" w] w(3) by (simp add: demo_entry_def)
  have reach: "job_reach crashed_jobs ?s4"
    by (rule job_next [OF job_next [OF job_next [OF job_next [OF job_start 1] 2] 3] 4])
  have "accounted (\<lambda>p. if p = 1 then 3 else 0) (js_world crashed_jobs)"
    using ledger_reachable [OF crashed_reachable warm_world_accounted] by (simp add: crashed_jobs_def)
  from concurrent_jobs_accounted [OF reach this] show ?thesis
    using reach w(2) by (intro exI [of _ ?s4]) (simp add: crashed_jobs_def)
qed

end
