(* ===== verification/Spec2Isabelle.thy ===== *)
theory Spec2Isabelle
  imports Prelude Store Idgen Stock_Gate Orders Deduct Gated_Path Prededuct Lock Bucket Mq Reconcile Inventory
    Float64 Overload Breaker Expire Closing Latency Cache Services Pipeline Api Keyspace Wiring
    Guarantee Serving Traffic Startup Verdicts
begin

text \<open>
  A model of go-seckill, a flash-sale service: several strategies that sell a product's stock
  without overselling it, an asynchronous path through a message queue with a ledger and a
  reconciler, the closing of unpaid orders, overload protection, a product cache, and the
  processes that offer all of it over HTTP and gRPC.

  \<^bold>\<open>The foundation.\<close>
  \<^item> \<open>Prelude\<close>: the error sentinels of all packages with \<open>errors.Is\<close>, panics as values, decimal
    formatting, Go's integer conversions.
  \<^item> \<open>Store\<close>: MySQL as the \<open>products\<close> and \<open>orders\<close> tables of \<open>migrations/\<close>, Redis as a keyspace of
    typed values with expiry, and the \<open>world\<close> that holds both with the produced messages and a
    schedule of faults. A remote call is executed and answered, lost before its execution
    (\<open>Lost\<close>), or executed with its reply lost (\<open>Unacked\<close>); a transaction works on a copy of the
    database that a commit installs. An insert checks the columns' ranges and lengths (\<open>row_error\<close>; strings are UTF-8 bytes, and
    a column counts their characters) and the unique keys; request ids are compared exactly, while the server's collation may also
    identify ids that differ in case.
  \<^item> \<open>Float64\<close>: rounding to 53 bits, half to even, for the arithmetic of the token bucket; no bound on the
    exponent, which the magnitudes there never reach.

  \<^bold>\<open>Selling stock.\<close>
  \<^item> \<open>Idgen\<close>: \<open>internal/idgen/snowflake.go\<close> over 64-bit words.
  \<^item> \<open>Orders\<close>: \<open>internal/order\<close>, the pessimistic path and the racy naive one.
  \<^item> \<open>Deduct\<close>: \<open>internal/deduct/{model,optimistic}.go\<close>, version CAS and conditional update.
  \<^item> \<open>Stock_Gate\<close> and \<open>Gated_Path\<close>: the interface a Redis stock gate offers (locale \<open>stock_gate\<close>: what
    deducting and giving back do to the total it guards) and what a purchase behind any such gate
    keeps (locale \<open>gated_path\<close>). \<open>Prededuct\<close> (\<open>internal/deduct/prededuct.go\<close>) and \<open>Bucket\<close>
    (\<open>internal/bucket\<close>) interpret both on their scripts.
  \<^item> \<open>Lock\<close>: \<open>internal/deduct/lock.go\<close>, the lock with its lease, watchdog and guarded sale; a step relation of any number of callers
    runs \<open>acquire\<close>, ticks of \<open>watchdog\<close> and \<open>release\<close> themselves, with calls that fail in any way.
  \<^item> \<open>Inventory\<close>: \<open>internal/inventory\<close>, reservations that can be retried.

  \<^bold>\<open>The asynchronous path and what cleans up after it.\<close>
  \<^item> \<open>Mq\<close>: \<open>internal/mq\<close> and the consumer loop of \<open>cmd/api/main.go\<close>. JSON is decoded as \<open>encoding/json\<close> does: names fold ASCII case, the
    last value of a field counts, \<open>null\<close> keeps what was there, a value of the wrong type is an error.
  \<^item> \<open>Reconcile\<close>: \<open>internal/reconcile\<close>, the pre-deduction ledger and its reconciler. \<open>ledger_step\<close> states what clients and network
    must not do for the account to hold, and a lemma for each of these shows that it breaks the account
    (\<open>reused_request_leaks\<close>, \<open>unanswered_deduction_leaks\<close>, \<open>lost_record_leaks\<close>, \<open>lost_rollback_leaks\<close>, \<open>lost_settling_refunds_twice\<close>).
  \<^item> \<open>Verdicts\<close>: the same job split between its query and its settling, any number of jobs side by side.
  \<^item> \<open>Expire\<close>, \<open>Closing\<close>, \<open>Latency\<close>: \<open>internal/expire\<close>, the due index with its claim lease, closing an
    order and restoring its stock, percentiles, the scanner loop and its fake clock. Nothing under \<open>src/\<close> composes the operations of
    \<open>p2_close.go\<close>, so \<open>closing_step\<close> lets any number of workers run them in any order; the close is split into its two calls.

  \<^bold>\<open>Around the sales.\<close>
  \<^item> \<open>Overload\<close>, \<open>Breaker\<close>: \<open>internal/overload\<close>, the admission slots and the breaker as step relations over
    the sections their mutexes make, the token bucket, the shutdown sequence, and the gate of \<open>cmd/api\<close>.
  \<^item> \<open>Cache\<close>: \<open>internal/cache\<close>, the cache-aside reads over a repository (locale \<open>product_repo\<close>, interpreted on the
    SQL one).
  \<^item> \<open>Services\<close>: \<open>internal/{adapter,asyncorder,gateway}\<close> and the producer and fault interceptor of
    \<open>cmd/order-service\<close>. The service works over any reservation port (locale \<open>reservation_port\<close>, interpreted on the
    local inventory and on the remote one behind gRPC, which may lose a call before or after its execution).
  \<^item> \<open>Pipeline\<close>: the path from the gateway through the three processes and the topic to the consumer and the
    database, as one step relation over several warmed products, with the requests no row can hold (locale \<open>script_port\<close>, which extends \<open>reservation_port\<close> by what a port may do to
    Redis, interpreted on the local and the remote inventory). Every call may fail, but for the produce call of a post: \<open>fault_at\<close>
    reads its place in the schedule, and \<open>pipe_step\<close> says which of its failures are left out.
  \<^item> \<open>Api\<close>: \<open>cmd/api/main.go\<close>, its configuration helpers, its own handlers and its shutdown steps.
  \<^item> \<open>Keyspace\<close>: the types of the values all components keep in the Redis keyspace they share.
  \<^item> \<open>Wiring\<close>: \<open>internal/{shard,dbconn,server,discovery/etcd}\<close>, \<open>internal/mq/p4_lag.go\<close>, the pollers of
    \<open>internal/mq/p1_async.go\<close> and \<open>cmd/kafka-bootstrap\<close>.
  \<^item> \<open>Guarantee\<close>: what each way of placing an order may do to the database, for any relation that allows a sale (locale
    \<open>order_relation\<close>) or any booking (locale \<open>book_relation\<close>), interpreted in \<open>Serving\<close> and \<open>Traffic\<close>.
  \<^item> \<open>Serving\<close>: the running server of \<open>cmd/api\<close>: its routes behind the gate and gin's recovery (\<open>handle\<close>, \<open>serve_request\<close>),
    \<open>internal/canary\<close>, the consumer goroutine, and both as steps over the state they share, interleaved with other clients.
  \<^item> \<open>Traffic\<close>: the stock under all of that server's traffic, by rely and guarantee.
  \<^item> \<open>Startup\<close>: the five \<open>main\<close> functions as sequences of what they open, check and defer, \<open>internal/redisconn\<close>,
    \<open>internal/metrics\<close>, the stubs of \<open>internal/{interceptor,shard,discovery/etcd}\<close>, and how the processes end.

  \<^bold>\<open>What the lemmas show.\<close> The sales: no strategy sells more than the stock under any schedule of
  faults its documentation allows, an answered purchase has exactly its effect, an unanswered one
  has none or all of it, and where the code documents (or has) a window in which this fails, the
  window is exhibited. The asynchronous path: stock that left Redis is at every moment accounted for by a
  message, an order or a ledger record, the reconciler gives back what a crash leaked, once, however many jobs run at a time, and an order
  that was accepted through the services is booked when its record is delivered on a quiet network, unless no row can hold
  it: then it ends as a dead letter, and its stock is not given back. The
  lock: at most one holder within the lease. Ids: strictly increasing per node, disjoint between
  nodes. Reservations: at most one deduction and one restoration however often they are retried, and the remote
  port is the local one but for lost calls. Expiry: the claim script refines taking the first due members of a sorted set, a claimed order
  comes back after its lease, and its stock is given back at most once. Overload: the slots in use are
  the accepted callers, the rate in any interval is bounded by capacity and refill, the breaker's probes are bounded, and the
  shutdown stops where it reports. Cache: what is served was in the database. HTTP: one request books at most once
  by whatever strategy, and what was answered can be looked up; whatever the server runs, with others that only add rows, the order book only grows and keeps what was
  answered, stock and orders balance, and on the routes that check the stock in the write nothing is oversold (a version CAS beside
  other sales does oversell: nothing but the CAS moves the version). Startup: which processes reach their serving loop, and what they leave open when they do not. The keyspace: no script meets a value of another component.

  \<^bold>\<open>Bounds.\<close> Retries, probes and batches run on the counts the code gives them (10 CAS retries,
  \<open>1 + MaxProbes\<close> probes in 64 bits, \<open>MaxAttempts\<close>), so no fuel is needed; a \<open>make\<close> of more bytes than Go can allocate is a panic; the loops that wait (the id generator, the watchdog, the scanner, the drain,
  waiting for partitions) consume a finite list of clock readings, ticks or rounds, and say so when it runs out. Lua computes in doubles,
  which are exact for stocks below \<open>2 ^ 53\<close>; \<open>INCRBY\<close> and \<open>DECRBY\<close> refuse results outside 64 bits.

  \<^bold>\<open>Assumed of libraries.\<close> The singleflight group is the parameter that says whose load a reader gets; the cache property about
  serving the database takes the load of a reader that flies alone. Kafka answers a
  synchronous produce once its record is in the log. Random tokens and generated ids are inputs, fresh where a property needs it. A panic in
  a gRPC handler is seen as an unavailable server.

  \<^bold>\<open>Stubs.\<close> Operations that are \<open>panic("TODO")\<close> at this commit are modelled as what they do, a panic: \<open>Route\<close>,
  \<open>GetByOrderID\<close> and \<open>List\<close> of \<open>internal/shard\<close>, \<open>SelectVersion\<close> and \<open>PlaceAsync\<close> of \<open>internal/canary\<close>, the interceptors, and \<open>Register\<close>,
  \<open>snapshot\<close> and \<open>applyWatchResponse\<close>
  of \<open>internal/discovery/etcd\<close>. The resolver takes the last two as parameters too, and the mains take the stubs as parameters too,
  so that what they do once these return is stated beside the panic of this commit. \<open>Services\<close> and \<open>Pipeline\<close> state the chain behind
  \<open>/debug/orders/async\<close> without the canary router and the interceptors.

  \<^bold>\<open>Not modelled.\<close> Generated protobuf code and the test fixtures of \<open>internal/testutil\<close>; what the metrics count (only their
  registration is), log lines, conflicts between routes, the text of JSON documents; of gin's routing only the parameter of
  \<open>/orders/requests/:requestID\<close> is (\<open>path_param\<close>), the other routes start from their parameters. In the order book of \<open>Serving\<close> other clients
  only add rows: no process wires the closing of orders. In \<open>Verdicts\<close> no message is delivered for a request that a job has found
  without an order; what a message does that comes later is shown in \<open>Reconcile\<close>.
\<close>

end
